(* ===== verification/Prelude.thy ===== *)
theory Prelude
  imports Main "HOL-Library.Word" "HOL-Library.Multiset" "HOL-Library.Monad_Syntax"
begin

unbundle bit_operations_syntax

text \<open>
  Shared vocabulary of the development: C's pointers, casts and unsigned counters, the
  option monad used for code that may run into undefined behaviour, and the list, option
  and word lemmas the components rely on.

  Throughout, a function of type \<open>'a option\<close> that models C code returns \<open>None\<close> exactly when
  the C code has no defined result: it dereferences a null, dangling or uninitialised
  location, or a loop of it never ends. Error codes are ordinary values.
\<close>

section \<open>Machine types\<close>

text \<open>A 64-bit address; \<open>0\<close> is the null pointer.\<close>

type_synonym addr = "64 word"

abbreviation NULL :: addr where
  "NULL \<equiv> 0"

text \<open>The cast of an integer to a 32-bit two's complement \<open>int\<close>.\<close>

definition to_int :: "int \<Rightarrow> int" where
  "to_int x = signed_take_bit 31 x"

text \<open>\<open>--n\<close> on a \<open>size_t\<close>: wraps from zero to the largest 64-bit value.\<close>

definition size_dec :: "nat \<Rightarrow> nat" where
  "size_dec n = (if n = 0 then 2 ^ 64 - 1 else n - 1)"

lemma size_dec_pos [simp]: "0 < n \<Longrightarrow> size_dec n = n - 1"
  by (simp add: size_dec_def)

lemma size_dec_Suc [simp]: "size_dec (Suc n) = n"
  by (simp add: size_dec_def)

lemma to_int_id: "- (2 ^ 31) \<le> x \<Longrightarrow> x < 2 ^ 31 \<Longrightarrow> to_int x = x"
  by (simp add: to_int_def signed_take_bit_int_eq_self)

section \<open>Collections of facts\<close>

named_theorems vec_simps "reading a vector through its operations"
named_theorems rep_simps "shape of heap-allocated trees"
named_theorems svc_defs "definitions of the service operations"

section \<open>The option monad\<close>

lemma bind_eq_Some: "Option.bind x f = Some y \<longleftrightarrow> (\<exists>z. x = Some z \<and> f z = Some y)"
  by (cases x) auto

section \<open>Lists\<close>

text \<open>Exchanging two elements of an array.\<close>

definition list_swap :: "'a list \<Rightarrow> nat \<Rightarrow> nat \<Rightarrow> 'a list" where
  "list_swap xs i j = xs[i := xs ! j, j := xs ! i]"

lemma length_list_swap [simp]: "length (list_swap xs i j) = length xs"
  by (simp add: list_swap_def)

lemma nth_list_swap:
  "i < length xs \<Longrightarrow> j < length xs \<Longrightarrow> m < length xs \<Longrightarrow>
   list_swap xs i j ! m = (if m = i then xs ! j else if m = j then xs ! i else xs ! m)"
  by (auto simp: list_swap_def nth_list_update)

lemma mset_list_swap [simp]:
  "i < length xs \<Longrightarrow> j < length xs \<Longrightarrow> mset (list_swap xs i j) = mset xs"
  by (simp add: list_swap_def mset_swap)

lemma map_list_swap:
  "i < length xs \<Longrightarrow> j < length xs \<Longrightarrow> map f (list_swap xs i j) = list_swap (map f xs) i j"
  by (simp add: list_swap_def map_update)

lemma list_swap_self [simp]: "list_swap xs i i = xs"
  by (simp add: list_swap_def)

lemma list_swap_commute: "list_swap xs i j = list_swap xs j i"
  by (cases "i = j") (auto simp: list_swap_def list_update_swap)

lemma mset_butlast_last: "xs \<noteq> [] \<Longrightarrow> mset xs = add_mset (last xs) (mset (butlast xs))"
  by (cases xs rule: rev_cases) auto

end
