(* ===== verification/Iotypes.thy ===== *)
theory Iotypes
  imports Prelude
begin

text \<open>
  The public data types of \<open>include/iotypes.h\<close>, the error names of \<open>src/ioec_strerr.c\<close>, and
  the part of the C library's \<open>poll.h\<close> the engine uses.
\<close>

section \<open>Events, handlers and error codes\<close>

datatype io_wait_type = WAIT_READ | WAIT_WRITE | WAIT_EXCEPTION

datatype io_errcode =
    EIO_OK
  | EIO_TIMEOUT
  | EIO_CANCELLED
  | EIO_STOPPED
  | EIO_INVARG
  | EIO_NOENTRY
  | EIO_NOMEM
  | EIO_INPROGRESS
  | EIO_SYSERR
  | EIO_EOF

text \<open>The numeric value of the C enumerator; \<open>EIO_OK\<close> is the only false one.\<close>

fun errcode_value :: "io_errcode \<Rightarrow> nat" where
  "errcode_value EIO_OK = 0"
| "errcode_value EIO_TIMEOUT = 1"
| "errcode_value EIO_CANCELLED = 2"
| "errcode_value EIO_STOPPED = 3"
| "errcode_value EIO_INVARG = 4"
| "errcode_value EIO_NOENTRY = 5"
| "errcode_value EIO_NOMEM = 6"
| "errcode_value EIO_INPROGRESS = 7"
| "errcode_value EIO_SYSERR = 8"
| "errcode_value EIO_EOF = 9"

definition errcode_true :: "io_errcode \<Rightarrow> bool" where
  "errcode_true e \<longleftrightarrow> errcode_value e \<noteq> 0"

record io_event =
  ev_fd :: int
  ev_wait_type :: io_wait_type

text \<open>A callback is the address of a function, \<open>NULL\<close> when there is none; \<open>ctx\<close> is the
  pointer handed to it.\<close>

record io_handler =
  callback :: addr
  ctx :: addr

fun ioec_strerr :: "io_errcode \<Rightarrow> string" where
  "ioec_strerr EIO_OK = ''EIO_OK''"
| "ioec_strerr EIO_TIMEOUT = ''EIO_TIMEOUT''"
| "ioec_strerr EIO_CANCELLED = ''EIO_CANCELLED''"
| "ioec_strerr EIO_STOPPED = ''EIO_STOPPED''"
| "ioec_strerr EIO_INVARG = ''EIO_INVARG''"
| "ioec_strerr EIO_NOENTRY = ''EIO_NOENTRY''"
| "ioec_strerr EIO_NOMEM = ''EIO_NOMEM''"
| "ioec_strerr EIO_INPROGRESS = ''EIO_INPROGRESS''"
| "ioec_strerr EIO_SYSERR = ''EIO_SYSERR''"
| "ioec_strerr EIO_EOF = ''EIO_EOF''"

lemma errcode_true_iff: "errcode_true e \<longleftrightarrow> e \<noteq> EIO_OK"
  by (cases e) (simp_all add: errcode_true_def)

lemma ioec_strerr_inj: "ioec_strerr a = ioec_strerr b \<longleftrightarrow> a = b"
  by (cases a; cases b) simp_all

section \<open>The poll interface\<close>

text \<open>The bits of \<open>events\<close> and \<open>revents\<close>, 16-bit fields of \<open>struct pollfd\<close>.\<close>

type_synonym pollmask = "16 word"

definition POLLIN :: pollmask where "POLLIN = 0x001"
definition POLLPRI :: pollmask where "POLLPRI = 0x002"
definition POLLOUT :: pollmask where "POLLOUT = 0x004"
definition POLLERR :: pollmask where "POLLERR = 0x008"
definition POLLHUP :: pollmask where "POLLHUP = 0x010"
definition POLLNVAL :: pollmask where "POLLNVAL = 0x020"
definition POLLRDNORM :: pollmask where "POLLRDNORM = 0x040"
definition POLLRDBAND :: pollmask where "POLLRDBAND = 0x080"
definition POLLWRNORM :: pollmask where "POLLWRNORM = 0x100"
definition POLLWRBAND :: pollmask where "POLLWRBAND = 0x200"

lemmas poll_bits = POLLIN_def POLLPRI_def POLLOUT_def POLLERR_def POLLHUP_def POLLNVAL_def
  POLLRDNORM_def POLLRDBAND_def POLLWRNORM_def POLLWRBAND_def

record pollfd =
  pfd_fd :: int
  pfd_events :: pollmask
  pfd_revents :: pollmask

end
