(* ===== verification/Rbnode.thy ===== *)
theory Rbnode
  imports Iotypes
begin

text \<open>
  The tree node of \<open>src/rbnode.h\<close>: one node per file descriptor, holding up to three pending
  events. \<open>meta\<close> packs the parent pointer and, in its least significant bit, the colour.

  \<open>aux_event\<close> and \<open>ex_event\<close> are heap blocks owned by exactly one node; they are modelled by
  value, \<open>None\<close> being the null pointer. Nodes live in a store from addresses to nodes; an
  address outside its domain is free memory, so using a freed node is a fault.
\<close>

unbundle bit_operations_syntax

section \<open>Nodes\<close>

record event_data =
  handler :: io_handler
  status :: addr
  ddl_heap_idx :: int

datatype main_ev_type = EMPTY | READ | WRITE

record rb_node =
  meta :: addr
  left :: addr
  right :: addr
  fd :: int
  main_ev :: main_ev_type
  pollfd_idx :: nat
  main_event :: event_data
  aux_event :: "event_data option"
  ex_event :: "event_data option"

text \<open>Which of a node's events a wait type refers to: the result of \<open>get_evt_data\<close> is a
  pointer to one of these three, or null.\<close>

datatype evt_slot = Main_slot | Aux_slot | Ex_slot

definition null_handler :: io_handler where
  "null_handler = \<lparr>callback = NULL, ctx = NULL\<rparr>"

definition zero_event :: event_data where
  "zero_event = \<lparr>handler = null_handler, status = NULL, ddl_heap_idx = 0\<rparr>"

text \<open>\<open>calloc\<close> zeroes the node; \<open>make_rbnode\<close> sets the descriptor and colours it red.\<close>

definition make_rbnode :: "int \<Rightarrow> rb_node" where
  "make_rbnode f =
     \<lparr>meta = 1, left = NULL, right = NULL, fd = f, main_ev = EMPTY, pollfd_idx = 0,
      main_event = zero_event, aux_event = None, ex_event = None\<rparr>"

fun slot_event :: "rb_node \<Rightarrow> evt_slot \<Rightarrow> event_data option" where
  "slot_event n Main_slot = Some (main_event n)"
| "slot_event n Aux_slot = aux_event n"
| "slot_event n Ex_slot = ex_event n"

text \<open>\<open>get_evt_data\<close> returns \<open>None\<close> for a null pointer.\<close>

definition get_evt_slot :: "rb_node \<Rightarrow> io_wait_type \<Rightarrow> evt_slot option" where
  "get_evt_slot n ev_type =
     (if ev_type = WAIT_EXCEPTION then Some Ex_slot
      else if main_ev n = EMPTY then None
      else if (main_ev n = READ \<and> ev_type = WAIT_READ)
            \<or> (main_ev n = WRITE \<and> ev_type = WAIT_WRITE) then Some Main_slot
      else Some Aux_slot)"

definition get_evt_data :: "rb_node \<Rightarrow> io_wait_type \<Rightarrow> event_data option" where
  "get_evt_data n ev_type = Option.bind (get_evt_slot n ev_type) (slot_event n)"

text \<open>Writing through the pointer \<open>get_evt_data\<close> returned; a null pointer is a fault.\<close>

fun set_slot_event :: "evt_slot \<Rightarrow> event_data \<Rightarrow> rb_node \<Rightarrow> rb_node" where
  "set_slot_event Main_slot e n = n\<lparr>main_event := e\<rparr>"
| "set_slot_event Aux_slot e n = n\<lparr>aux_event := Some e\<rparr>"
| "set_slot_event Ex_slot e n = n\<lparr>ex_event := Some e\<rparr>"

definition put_evt_data :: "io_wait_type \<Rightarrow> event_data \<Rightarrow> rb_node \<Rightarrow> rb_node option" where
  "put_evt_data ev_type e n =
     do { sl \<leftarrow> get_evt_slot n ev_type;
          _ \<leftarrow> slot_event n sl;
          Some (set_slot_event sl e n) }"

section \<open>The packed parent pointer\<close>

definition aligned :: "addr \<Rightarrow> bool" where
  "aligned a \<longleftrightarrow> a AND 1 = 0"

text \<open>The value of \<open>meta\<close> for a parent and a colour.\<close>

definition mk_meta :: "addr \<Rightarrow> bool \<Rightarrow> addr" where
  "mk_meta p red = p OR (if red then 1 else 0)"

definition meta_red :: "addr \<Rightarrow> bool" where
  "meta_red m \<longleftrightarrow> m AND 1 \<noteq> 0"

definition meta_parent :: "addr \<Rightarrow> addr" where
  "meta_parent m = m AND NOT 1"

definition meta_set_red :: "addr \<Rightarrow> addr" where
  "meta_set_red m = m OR 1"

definition meta_set_black :: "addr \<Rightarrow> addr" where
  "meta_set_black m = m AND NOT 1"

definition meta_set_parent :: "addr \<Rightarrow> addr \<Rightarrow> addr" where
  "meta_set_parent m p = (m AND 1) OR p"

definition meta_diff :: "addr \<Rightarrow> addr \<Rightarrow> addr" where
  "meta_diff m1 m2 = (m1 XOR m2) AND 1"

lemma aligned_bit: "aligned a \<longleftrightarrow> \<not> bit a 0"
  by (simp add: aligned_def and_one_eq bit_0 even_iff_mod_2_eq_zero)

lemma aligned_NULL [simp]: "aligned NULL"
  by (simp add: aligned_def)

lemma meta_red_bit: "meta_red m \<longleftrightarrow> bit m 0"
  by (simp add: meta_red_def and_one_eq bit_0 odd_iff_mod_2_eq_one)

lemma meta_red_mk [simp]: "aligned p \<Longrightarrow> meta_red (mk_meta p c) = c"
  by (simp add: meta_red_bit mk_meta_def bit_simps aligned_bit)

lemma meta_parent_mk [simp]: "aligned p \<Longrightarrow> meta_parent (mk_meta p c) = p"
  unfolding meta_parent_def mk_meta_def
  by (rule bit_eqI) (auto simp: bit_simps aligned_bit intro!: Nat.gr0I)

lemma meta_set_red_mk [simp]: "meta_set_red (mk_meta p c) = mk_meta p True"
  unfolding meta_set_red_def mk_meta_def
  by (rule bit_eqI) (auto simp: bit_simps)

lemma meta_set_black_mk [simp]: "aligned p \<Longrightarrow> meta_set_black (mk_meta p c) = mk_meta p False"
  unfolding meta_set_black_def mk_meta_def
  by (rule bit_eqI) (auto simp: bit_simps aligned_bit intro!: Nat.gr0I)

lemma meta_set_parent_mk [simp]:
  "aligned p \<Longrightarrow> meta_set_parent (mk_meta p c) q = mk_meta q c"
  unfolding meta_set_parent_def mk_meta_def
  by (rule bit_eqI) (auto simp: bit_simps aligned_bit intro!: Nat.gr0I)

lemma meta_swap_mk [simp]:
  assumes "aligned p" "aligned q"
  shows "mk_meta p c XOR meta_diff (mk_meta p c) (mk_meta q d) = mk_meta p d"
    and "mk_meta q d XOR meta_diff (mk_meta p c) (mk_meta q d) = mk_meta q c"
  unfolding meta_diff_def mk_meta_def
  by (rule bit_eqI; use assms in \<open>auto simp: bit_simps aligned_bit\<close>)+

lemma mk_meta_fresh: "mk_meta NULL True = 1"
  by (simp add: mk_meta_def)

section \<open>Properties\<close>

text \<open>The parent pointer and the colour share a word without disturbing each other: for aligned
  addresses, what was packed is read back, recolouring keeps the parent, changing the parent keeps
  the colour, and the masked exclusive or exchanges the colours of two nodes and nothing else.
\<close>

lemma meta_packs:
  assumes "aligned p" "aligned q"
  shows "meta_parent (mk_meta p c) = p \<and> meta_red (mk_meta p c) = c
      \<and> meta_set_red (mk_meta p c) = mk_meta p True \<and> meta_set_black (mk_meta p c) = mk_meta p False
      \<and> meta_set_parent (mk_meta p c) q = mk_meta q c
      \<and> mk_meta p c XOR meta_diff (mk_meta p c) (mk_meta q d) = mk_meta p d
      \<and> mk_meta q d XOR meta_diff (mk_meta p c) (mk_meta q d) = mk_meta q c"
  using assms by simp_all

end
