(* ===== verification/Rbtree.thy ===== *)
theory Rbtree
  imports Rbnode
begin

text \<open>
  The pointer-based red-black tree of \<open>src/rbtree.c\<close> and \<open>src/rbtree.h\<close>.

  \<open>rb_heap\<close> is the memory the routines work on: the root pointer (\<open>iosvc->async_handlers\<close>) and
  the allocated nodes. An \<open>rb_place\<close>, a pointer to a node pointer, is either the root variable
  or a child field of a node. Every routine returns \<open>None\<close> where the C code would dereference
  a null or dangling pointer, or loop for ever.
\<close>

section \<open>Memory\<close>

record rb_heap =
  rb_root :: addr
  rb_store :: "addr \<rightharpoonup> rb_node"

datatype rb_place = Root_ref | Child_ref addr bool

abbreviation (input) LEFT :: bool where "LEFT \<equiv> False"
abbreviation (input) RIGHT :: bool where "RIGHT \<equiv> True"

definition rb_load :: "rb_heap \<Rightarrow> addr \<Rightarrow> rb_node option" where
  "rb_load h p = (if p = NULL then None else rb_store h p)"

definition rb_update :: "addr \<Rightarrow> (rb_node \<Rightarrow> rb_node) \<Rightarrow> rb_heap \<Rightarrow> rb_heap option" where
  "rb_update p f h = do { n \<leftarrow> rb_load h p; Some (h\<lparr>rb_store := (rb_store h)(p \<mapsto> f n)\<rparr>) }"

definition child :: "rb_node \<Rightarrow> bool \<Rightarrow> addr" where
  "child n dir = (if dir then right n else left n)"

definition set_child :: "bool \<Rightarrow> addr \<Rightarrow> rb_node \<Rightarrow> rb_node" where
  "set_child dir q n = (if dir then n\<lparr>right := q\<rparr> else n\<lparr>left := q\<rparr>)"

fun deref :: "rb_heap \<Rightarrow> rb_place \<Rightarrow> addr option" where
  "deref h Root_ref = Some (rb_root h)"
| "deref h (Child_ref a dir) = map_option (\<lambda>n. child n dir) (rb_load h a)"

fun assign :: "rb_place \<Rightarrow> addr \<Rightarrow> rb_heap \<Rightarrow> rb_heap option" where
  "assign Root_ref q h = Some (h\<lparr>rb_root := q\<rparr>)"
| "assign (Child_ref a dir) q h = rb_update a (set_child dir q) h"

section \<open>Colours and parents\<close>

definition is_red :: "rb_heap \<Rightarrow> addr \<Rightarrow> bool option" where
  "is_red h p = (if p = NULL then Some False else map_option (meta_red \<circ> meta) (rb_load h p))"

definition set_red :: "addr \<Rightarrow> rb_heap \<Rightarrow> rb_heap option" where
  "set_red p = rb_update p (\<lambda>n. n\<lparr>meta := meta_set_red (meta n)\<rparr>)"

definition set_black :: "addr \<Rightarrow> rb_heap \<Rightarrow> rb_heap option" where
  "set_black p = rb_update p (\<lambda>n. n\<lparr>meta := meta_set_black (meta n)\<rparr>)"

definition set_parent :: "addr \<Rightarrow> addr \<Rightarrow> rb_heap \<Rightarrow> rb_heap option" where
  "set_parent p parent = rb_update p (\<lambda>n. n\<lparr>meta := meta_set_parent (meta n) parent\<rparr>)"

definition get_parent :: "rb_heap \<Rightarrow> addr \<Rightarrow> addr option" where
  "get_parent h p = map_option (meta_parent \<circ> meta) (rb_load h p)"

definition swap_colors :: "addr \<Rightarrow> addr \<Rightarrow> rb_heap \<Rightarrow> rb_heap option" where
  "swap_colors a b h =
     do { na \<leftarrow> rb_load h a;
          nb \<leftarrow> rb_load h b;
          let d = meta_diff (meta na) (meta nb);
          h \<leftarrow> rb_update a (\<lambda>n. n\<lparr>meta := meta n XOR d\<rparr>) h;
          rb_update b (\<lambda>n. n\<lparr>meta := meta n XOR d\<rparr>) h }"

section \<open>Navigation\<close>

partial_function (option) rightmost :: "rb_heap \<Rightarrow> rb_place \<Rightarrow> rb_place option" where
  "rightmost h pred =
     do { q \<leftarrow> deref h pred;
          n \<leftarrow> rb_load h q;
          if right n \<noteq> NULL then rightmost h (Child_ref q RIGHT) else Some pred }"

definition predecessor :: "rb_heap \<Rightarrow> addr \<Rightarrow> rb_place option" where
  "predecessor h node = rightmost h (Child_ref node LEFT)"

text \<open>\<open>rb_ref_to_this\<close> returns the place that holds a node and its parent.\<close>

definition rb_ref_to_this :: "rb_heap \<Rightarrow> addr \<Rightarrow> rb_place \<Rightarrow> (rb_place \<times> addr) option" where
  "rb_ref_to_this h node root_ref =
     do { parent \<leftarrow> get_parent h node;
          if parent = NULL then Some (root_ref, parent)
          else do { pn \<leftarrow> rb_load h parent;
                    Some (Child_ref parent (node = right pn), parent) } }"

partial_function (option) probe_loop ::
  "rb_heap \<Rightarrow> rb_place \<Rightarrow> addr \<Rightarrow> int \<Rightarrow> (rb_place \<times> addr) option"
where
  "probe_loop h root_ref out_parent key =
     do { q \<leftarrow> deref h root_ref;
          if q = NULL then Some (root_ref, out_parent)
          else do { n \<leftarrow> rb_load h q;
                    if fd n = key then Some (root_ref, out_parent)
                    else probe_loop h (Child_ref q (key > fd n)) q key } }"

definition rb_probe :: "rb_heap \<Rightarrow> rb_place \<Rightarrow> int \<Rightarrow> (rb_place \<times> addr) option" where
  "rb_probe h root_ref key = probe_loop h root_ref NULL key"

section \<open>Rotation and insertion\<close>

definition rb_rotate :: "addr \<Rightarrow> bool \<Rightarrow> rb_place \<Rightarrow> rb_heap \<Rightarrow> rb_heap option" where
  "rb_rotate node dir root_ref h =
     do { parent \<leftarrow> get_parent h node;
          p_link \<leftarrow> (if parent \<noteq> NULL
                     then map_option (\<lambda>pn. Child_ref parent (right pn = node)) (rb_load h parent)
                     else Some root_ref);
          n \<leftarrow> rb_load h node;
          let ch = child n (\<not> dir);
          c \<leftarrow> rb_load h ch;
          let grandchild = child c dir;
          h \<leftarrow> set_parent ch parent h;
          h \<leftarrow> assign p_link ch h;
          h \<leftarrow> rb_update node (set_child (\<not> dir) grandchild) h;
          h \<leftarrow> (if grandchild \<noteq> NULL then set_parent grandchild node h else Some h);
          h \<leftarrow> rb_update ch (set_child dir node) h;
          set_parent node ch h }"

partial_function (option) fix_insert ::
  "addr \<Rightarrow> addr \<Rightarrow> rb_place \<Rightarrow> rb_heap \<Rightarrow> rb_heap option"
where
  "fix_insert node parent root_ref h =
     do { red \<leftarrow> is_red h parent;
          if \<not> red then Some h
          else do {
            grandparent \<leftarrow> get_parent h parent;
            if grandparent = NULL then Some h
            else do {
              gn \<leftarrow> rb_load h grandparent;
              let parent_dir = (child gn RIGHT = parent);
              let uncle = child gn (\<not> parent_dir);
              uncle_red \<leftarrow> is_red h uncle;
              if uncle_red
              then do {
                h \<leftarrow> set_black uncle h;
                h \<leftarrow> set_black parent h;
                h \<leftarrow> set_red grandparent h;
                parent' \<leftarrow> get_parent h grandparent;
                fix_insert grandparent parent' root_ref h }
              else do {
                pn \<leftarrow> rb_load h parent;
                let node_dir = (child pn RIGHT = node);
                (parent, h) \<leftarrow> (if parent_dir \<noteq> node_dir
                                then do { h \<leftarrow> rb_rotate parent parent_dir root_ref h; Some (node, h) }
                                else Some (parent, h));
                h \<leftarrow> rb_rotate grandparent (\<not> parent_dir) root_ref h;
                h \<leftarrow> set_red grandparent h;
                set_black parent h } } } }"

definition rb_insert :: "addr \<Rightarrow> rb_place \<Rightarrow> addr \<Rightarrow> rb_place \<Rightarrow> rb_heap \<Rightarrow> rb_heap option" where
  "rb_insert node place parent root_ref h =
     do { h \<leftarrow> assign place node h;
          h \<leftarrow> set_parent node parent h;
          red \<leftarrow> is_red h parent;
          h \<leftarrow> (if red then fix_insert node parent root_ref h else Some h);
          r \<leftarrow> deref h root_ref;
          set_black r h }"

section \<open>Removal\<close>

text \<open>
  \<open>fix_delete\<close>: the two ways out of the loop, a red node and the root, both end in the
  colouring after it; the last rotation returns directly.
\<close>

partial_function (option) fix_delete ::
  "addr \<Rightarrow> addr \<Rightarrow> rb_place \<Rightarrow> rb_heap \<Rightarrow> rb_heap option"
where
  "fix_delete db parent root_ref h =
     do { red \<leftarrow> is_red h db;
          if red \<or> parent = NULL
          then (if db \<noteq> NULL then set_black db h else Some h)
          else do {
            pn \<leftarrow> rb_load h parent;
            let dir_to_db = (child pn RIGHT = db);
            let sibling = child pn (\<not> dir_to_db);
            sib_red \<leftarrow> is_red h sibling;
            if sib_red
            then do {
              h \<leftarrow> set_red parent h;
              h \<leftarrow> set_black sibling h;
              h \<leftarrow> rb_rotate parent dir_to_db root_ref h;
              fix_delete db parent root_ref h }
            else do {
              sn \<leftarrow> rb_load h sibling;
              far \<leftarrow> is_red h (child sn (\<not> dir_to_db));
              near \<leftarrow> (if far then Some False else is_red h (child sn dir_to_db));
              if \<not> far \<and> \<not> near
              then do {
                h \<leftarrow> set_red sibling h;
                parent' \<leftarrow> get_parent h parent;
                fix_delete parent parent' root_ref h }
              else do {
                (sibling, h) \<leftarrow> (if \<not> far
                  then do {
                    h \<leftarrow> set_black (child sn dir_to_db) h;
                    h \<leftarrow> set_red sibling h;
                    h \<leftarrow> rb_rotate sibling (\<not> dir_to_db) root_ref h;
                    pn \<leftarrow> rb_load h parent;
                    Some (child pn (\<not> dir_to_db), h) }
                  else Some (sibling, h));
                sn \<leftarrow> rb_load h sibling;
                h \<leftarrow> set_black (child sn (\<not> dir_to_db)) h;
                h \<leftarrow> swap_colors parent sibling h;
                rb_rotate parent dir_to_db root_ref h } } } }"

text \<open>
  Exchanging a node that has two children with its in-order predecessor: the colours, then the
  links on the left, in the two shapes the code tells apart, then the right children.
\<close>

definition swap_adjacent :: "addr \<Rightarrow> addr \<Rightarrow> rb_place \<Rightarrow> addr \<Rightarrow> rb_heap \<Rightarrow> rb_heap option" where
  "swap_adjacent curr_node pred place parent h =
     do { h \<leftarrow> assign place pred h;
          h \<leftarrow> set_parent pred parent h;
          h \<leftarrow> set_parent curr_node pred h;
          pn \<leftarrow> rb_load h pred;
          let tmp = left pn;
          h \<leftarrow> rb_update pred (\<lambda>n. n\<lparr>left := curr_node\<rparr>) h;
          h \<leftarrow> rb_update curr_node (\<lambda>n. n\<lparr>left := tmp\<rparr>) h;
          if tmp \<noteq> NULL then set_parent tmp curr_node h else Some h }"

definition swap_apart ::
  "addr \<Rightarrow> addr \<Rightarrow> rb_place \<Rightarrow> rb_place \<Rightarrow> addr \<Rightarrow> rb_heap \<Rightarrow> rb_heap option"
where
  "swap_apart curr_node pred pred_loc place parent h =
     do { pp \<leftarrow> get_parent h pred;
          h \<leftarrow> set_parent curr_node pp h;
          h \<leftarrow> set_parent pred parent h;
          h \<leftarrow> assign place pred h;
          h \<leftarrow> assign pred_loc curr_node h;
          cn \<leftarrow> rb_load h curr_node;
          let tmp = left cn;
          pn \<leftarrow> rb_load h pred;
          h \<leftarrow> rb_update curr_node (\<lambda>n. n\<lparr>left := left pn\<rparr>) h;
          h \<leftarrow> rb_update pred (\<lambda>n. n\<lparr>left := tmp\<rparr>) h;
          cn \<leftarrow> rb_load h curr_node;
          h \<leftarrow> (if left cn \<noteq> NULL then set_parent (left cn) curr_node h else Some h);
          set_parent tmp pred h }"

definition swap_right :: "addr \<Rightarrow> addr \<Rightarrow> rb_heap \<Rightarrow> rb_heap option" where
  "swap_right curr_node pred h =
     do { cn \<leftarrow> rb_load h curr_node;
          let tmp = right cn;
          h \<leftarrow> rb_update curr_node (\<lambda>n. n\<lparr>right := NULL\<rparr>) h;
          h \<leftarrow> rb_update pred (\<lambda>n. n\<lparr>right := tmp\<rparr>) h;
          if tmp \<noteq> NULL then set_parent tmp pred h else Some h }"

definition swap_with_pred :: "addr \<Rightarrow> rb_place \<Rightarrow> addr \<Rightarrow> rb_heap \<Rightarrow> (addr \<times> rb_heap) option" where
  "swap_with_pred curr_node place parent h =
     do { pred_loc \<leftarrow> predecessor h curr_node;
          pred \<leftarrow> deref h pred_loc;
          h \<leftarrow> swap_colors pred curr_node h;
          cn \<leftarrow> rb_load h curr_node;
          h \<leftarrow> (if left cn = pred then swap_adjacent curr_node pred place parent h
                else swap_apart curr_node pred pred_loc place parent h);
          h \<leftarrow> swap_right curr_node pred h;
          Some (pred, h) }"

text \<open>Taking a node with at most one child out of its place.\<close>

definition rb_splice :: "rb_place \<Rightarrow> addr \<Rightarrow> addr \<Rightarrow> rb_heap \<Rightarrow> rb_heap option" where
  "rb_splice place parent son h =
     do { h \<leftarrow> assign place son h; if son \<noteq> NULL then set_parent son parent h else Some h }"

definition rb_unlink :: "addr \<Rightarrow> rb_place \<Rightarrow> addr \<Rightarrow> rb_place \<Rightarrow> rb_heap \<Rightarrow> rb_heap option" where
  "rb_unlink curr_node place parent root_ref h =
     do { cn \<leftarrow> rb_load h curr_node;
          let son = (if child cn LEFT \<noteq> NULL then child cn LEFT else child cn RIGHT);
          h \<leftarrow> rb_splice place parent son h;
          red \<leftarrow> is_red h curr_node;
          if \<not> red then fix_delete son parent root_ref h else Some h }"

definition rb_extract :: "rb_place \<Rightarrow> addr \<Rightarrow> rb_place \<Rightarrow> rb_heap \<Rightarrow> (addr \<times> rb_heap) option" where
  "rb_extract place parent root_ref h =
     do { curr_node \<leftarrow> deref h place;
          cn \<leftarrow> rb_load h curr_node;
          (place, parent, h) \<leftarrow> (if left cn \<noteq> NULL \<and> right cn \<noteq> NULL
            then do {
              (pred, h) \<leftarrow> swap_with_pred curr_node place parent h;
              (place, parent) \<leftarrow> rb_probe h (Child_ref pred LEFT) (fd cn);
              Some (place, parent, h) }
            else Some (place, parent, h));
          h \<leftarrow> rb_unlink curr_node place parent root_ref h;
          Some (curr_node, h) }"

text \<open>The loops evaluate by their defining equations.\<close>

declare rightmost.simps [code]
declare probe_loop.simps [code]
declare fix_insert.simps [code]
declare fix_delete.simps [code]

end
