(* ===== verification/Rbtree_Rep.thy ===== *)
theory Rbtree_Rep
  imports Rbtree
begin

text \<open>
  The tree a memory holds. \<open>rbt\<close> is the abstract tree, each node with its colour, address and
  descriptor; \<open>trep h T\<close> says that the nodes reachable from the root form \<open>T\<close>, with correct
  parent pointers and no sharing. A position inside a tree is a context, the list of frames
  from that position up to the root, as in a zipper: \<open>plug C t\<close> is the whole tree with \<open>t\<close>
  at the position. \<open>runs\<close> is a small Hoare triple for the routines that rewrite links.
\<close>

section \<open>Abstract trees and contexts\<close>

datatype rbt = Lf | Nd bool rbt addr int rbt

text \<open>A frame: the side the hole is on, then colour, address, key and the other subtree.\<close>

datatype frame = Fr bool bool addr int rbt

fun ptr :: "rbt \<Rightarrow> addr" where
  "ptr Lf = NULL"
| "ptr (Nd c l a k r) = a"

fun red :: "rbt \<Rightarrow> bool" where
  "red Lf = False"
| "red (Nd c l a k r) = c"

fun inorder :: "rbt \<Rightarrow> (addr \<times> int) list" where
  "inorder Lf = []"
| "inorder (Nd c l a k r) = inorder l @ (a, k) # inorder r"

fun addrs :: "rbt \<Rightarrow> addr set" where
  "addrs Lf = {}"
| "addrs (Nd c l a k r) = insert a (addrs l \<union> addrs r)"

lemma addrs_inorder [simp]: "fst ` set (inorder t) = addrs t"
  by (induction t) auto

text \<open>A node seen from one of its sides: \<open>t\<close> on side \<open>d\<close>, \<open>s\<close> on the other.\<close>

definition nd :: "bool \<Rightarrow> bool \<Rightarrow> rbt \<Rightarrow> addr \<Rightarrow> int \<Rightarrow> rbt \<Rightarrow> rbt" where
  "nd d c t a k s = (if d then Nd c s a k t else Nd c t a k s)"

fun plug :: "frame list \<Rightarrow> rbt \<Rightarrow> rbt" where
  "plug [] t = t"
| "plug (Fr d c a k s # C) t = plug C (nd d c t a k s)"

fun cparent :: "addr \<Rightarrow> frame list \<Rightarrow> addr" where
  "cparent q [] = q"
| "cparent q (Fr d c a k s # C) = a"

abbreviation cpar :: "frame list \<Rightarrow> addr" where
  "cpar \<equiv> cparent NULL"

fun cplace :: "frame list \<Rightarrow> rb_place" where
  "cplace [] = Root_ref"
| "cplace (Fr d c a k s # C) = Child_ref a d"

fun cinorder :: "frame list \<Rightarrow> (addr \<times> int) list \<times> (addr \<times> int) list" where
  "cinorder [] = ([], [])"
| "cinorder (Fr d c a k s # C) =
     (case cinorder C of (xs, ys) \<Rightarrow>
        if d then (xs @ inorder s @ [(a, k)], ys) else (xs, (a, k) # inorder s @ ys))"

lemma inorder_nd: "inorder (nd d c t a k s) =
    (if d then inorder s @ (a, k) # inorder t else inorder t @ (a, k) # inorder s)"
  by (simp add: nd_def)

lemma addrs_nd [simp]: "addrs (nd d c t a k s) = insert a (addrs t \<union> addrs s)"
  by (auto simp: nd_def)

lemma ptr_nd [simp]: "ptr (nd d c t a k s) = a"
  by (simp add: nd_def)

lemma red_nd [simp]: "red (nd d c t a k s) = c"
  by (simp add: nd_def)

lemma nd_flip: "nd (\<not> d) c t a k s = nd d c s a k t"
  by (simp add: nd_def)

lemma nd_neq_Lf [simp]: "nd d c t a k s \<noteq> Lf" "Lf \<noteq> nd d c t a k s"
  by (simp_all add: nd_def)

lemma nd_exhaust:
  obtains "t = Lf" | c x a k y where "t = nd d c x a k y"
proof (cases t)
  case (Nd c l a k r)
  then have "t = nd d c (if d then r else l) a k (if d then l else r)"
    by (simp add: nd_def)
  then show ?thesis by (rule that(2))
qed (rule that(1))

lemma red_exhaust:
  assumes "red t"
  obtains x a k y where "t = nd d True x a k y"
proof (cases rule: nd_exhaust [where t = t and d = d])
  case (2 c x a k y)
  with assms show ?thesis using that [of x a k y] by simp
qed (use assms in simp)

lemma plug_append: "plug (C @ D) t = plug D (plug C t)"
  by (induction C t rule: plug.induct) simp_all

lemma inorder_plug: "inorder (plug C t) = fst (cinorder C) @ inorder t @ snd (cinorder C)"
  by (induction C t rule: plug.induct) (auto simp: inorder_nd split: prod.splits)

lemma plug_eq_Lf [simp]: "plug C t = Lf \<longleftrightarrow> C = [] \<and> t = Lf"
  by (induction C t rule: plug.induct) (auto simp: nd_def)

section \<open>Representation in memory\<close>

definition node_at :: "(addr \<rightharpoonup> rb_node) \<Rightarrow> addr \<Rightarrow> addr \<Rightarrow> bool \<Rightarrow> int \<Rightarrow> addr \<Rightarrow> addr \<Rightarrow> bool" where
  "node_at s a p c k l r \<longleftrightarrow> a \<noteq> NULL \<and> aligned a
     \<and> (\<exists>n. s a = Some n \<and> meta n = mk_meta p c \<and> fd n = k \<and> left n = l \<and> right n = r)"

fun rep :: "(addr \<rightharpoonup> rb_node) \<Rightarrow> addr \<Rightarrow> rbt \<Rightarrow> bool" where
  "rep s p Lf \<longleftrightarrow> True"
| "rep s p (Nd c l a k r) \<longleftrightarrow> node_at s a p c k (ptr l) (ptr r) \<and> rep s a l \<and> rep s a r"

definition trep :: "rb_heap \<Rightarrow> rbt \<Rightarrow> bool" where
  "trep h T \<longleftrightarrow> rep (rb_store h) NULL T \<and> rb_root h = ptr T \<and> distinct (map fst (inorder T))"

text \<open>The frames of a context, with \<open>x\<close> the pointer stored in the hole and \<open>q\<close> the parent of
  the outermost frame.\<close>

fun ctxrep :: "(addr \<rightharpoonup> rb_node) \<Rightarrow> addr \<Rightarrow> frame list \<Rightarrow> addr \<Rightarrow> bool" where
  "ctxrep s q [] x \<longleftrightarrow> True"
| "ctxrep s q (Fr d c a k t # C) x \<longleftrightarrow>
     node_at s a (cparent q C) c k (if d then ptr t else x) (if d then x else ptr t)
     \<and> rep s a t \<and> ctxrep s q C a"

fun caddrs :: "frame list \<Rightarrow> addr set" where
  "caddrs [] = {}"
| "caddrs (Fr d c a k t # C) = insert a (addrs t \<union> caddrs C)"

lemma caddrs_cinorder: "caddrs C = fst ` set (fst (cinorder C)) \<union> fst ` set (snd (cinorder C))"
  by (induction C rule: caddrs.induct) (auto simp: image_Un split: prod.splits)

lemma addrs_plug: "addrs (plug C t) = caddrs C \<union> addrs t"
  by (induction C t rule: plug.induct) auto

lemma rep_nd: "rep s p (nd d c t a k u) \<longleftrightarrow>
    node_at s a p c k (if d then ptr u else ptr t) (if d then ptr t else ptr u) \<and> rep s a t \<and> rep s a u"
  by (auto simp: nd_def)

lemma rep_plug: "rep s q (plug C t) \<longleftrightarrow> ctxrep s q C (ptr t) \<and> rep s (cparent q C) t"
  by (induction C t rule: plug.induct) (auto simp: rep_nd)

text \<open>The pointer in the hole only matters to the innermost frame.\<close>

fun croot :: "frame list \<Rightarrow> addr \<Rightarrow> addr" where
  "croot [] x = x"
| "croot (Fr d c a k t # C) x = croot C a"

lemma ptr_plug: "ptr (plug C t) = croot C (ptr t)"
  by (induction C t rule: plug.induct) simp_all

lemma distinct_plug:
  "distinct (map fst (inorder (plug C t))) \<longleftrightarrow>
     distinct (map fst (inorder t)) \<and> caddrs C \<inter> addrs t = {}
     \<and> distinct (map fst (fst (cinorder C) @ snd (cinorder C)))"
  by (auto simp: inorder_plug caddrs_cinorder)

lemma distinct_nd:
  "distinct (map fst (inorder (nd d c t a k s))) \<longleftrightarrow>
     a \<notin> addrs t \<and> a \<notin> addrs s \<and> addrs t \<inter> addrs s = {}
     \<and> distinct (map fst (inorder t)) \<and> distinct (map fst (inorder s))"
  by (auto simp: inorder_nd)

lemma trep_plug:
  "trep h (plug C t) \<longleftrightarrow> ctxrep (rb_store h) NULL C (ptr t) \<and> rep (rb_store h) (cpar C) t
     \<and> rb_root h = croot C (ptr t) \<and> distinct (map fst (inorder (plug C t)))"
  by (auto simp: trep_def rep_plug ptr_plug)

section \<open>Locality\<close>

lemma ptr_addrs: "t \<noteq> Lf \<Longrightarrow> ptr t \<in> addrs t"
  by (cases t) auto

lemma node_at_upd [simp]: "a \<noteq> b \<Longrightarrow> node_at (s(b \<mapsto> n)) a p c k l r \<longleftrightarrow> node_at s a p c k l r"
  by (simp add: node_at_def)

lemma rep_upd [simp]: "b \<notin> addrs t \<Longrightarrow> rep (s(b \<mapsto> n)) p t \<longleftrightarrow> rep s p t"
  by (induction t arbitrary: p) auto

lemma ctxrep_upd [simp]: "b \<notin> caddrs C \<Longrightarrow> ctxrep (s(b \<mapsto> n)) q C x \<longleftrightarrow> ctxrep s q C x"
  by (induction s q C x rule: ctxrep.induct) auto

lemma rep_ptr_aligned: "rep s p t \<Longrightarrow> aligned (ptr t)"
  by (cases t) (auto simp: node_at_def)

lemma rep_ptr_NULL: "rep s p t \<Longrightarrow> ptr t = NULL \<longleftrightarrow> t = Lf"
  by (cases t) (auto simp: node_at_def)

lemma rep_addrs: "rep s p t \<Longrightarrow> a \<in> addrs t \<Longrightarrow> a \<noteq> NULL \<and> aligned a \<and> s a \<noteq> None"
proof (induction t arbitrary: p)
  case (Nd c l b k r)
  then consider "a = b" | "a \<in> addrs l" | "a \<in> addrs r" by auto
  then show ?case
  proof cases
    case 1
    with Nd.prems(1) show ?thesis by (auto simp: node_at_def)
  next
    case 2
    with Nd.IH(1) [of b] Nd.prems(1) show ?thesis by simp
  next
    case 3
    with Nd.IH(2) [of b] Nd.prems(1) show ?thesis by simp
  qed
qed simp

lemma rep_not_NULL: "rep s p t \<Longrightarrow> NULL \<notin> addrs t"
  using rep_addrs by blast

lemma ctxrep_cparent: "ctxrep s q C x \<Longrightarrow> aligned q \<Longrightarrow> aligned (cparent q C)"
  by (cases "(s, q, C, x)" rule: ctxrep.cases) (auto simp: node_at_def)

lemma ctxrep_cpar_NULL: "ctxrep s NULL C x \<Longrightarrow> cpar C = NULL \<longleftrightarrow> C = []"
  by (cases "(s, NULL :: addr, C, x)" rule: ctxrep.cases) (auto simp: node_at_def)

lemma croot_Cons: "C \<noteq> [] \<Longrightarrow> croot C x = croot C y"
  by (cases "(C, x)" rule: croot.cases) auto

text \<open>Changing the parent of a subtree's root only touches that node.\<close>

lemma rep_reparent:
  assumes "rep s p (Nd c l a k r)" and "s a = Some n" and "meta n' = mk_meta q c'"
    and "fd n' = fd n" "left n' = left n" "right n' = right n"
    and "a \<notin> addrs l" "a \<notin> addrs r"
  shows "rep (s(a \<mapsto> n')) q (Nd c' l a k r)"
  using assms by (auto simp: node_at_def)

section \<open>Frame: what link surgery keeps\<close>

text \<open>Everything but \<open>meta\<close>, \<open>left\<close> and \<open>right\<close> of every node, and the set of live nodes.\<close>

definition payload :: "rb_node \<Rightarrow> rb_node" where
  "payload n = n\<lparr>meta := 0, left := NULL, right := NULL\<rparr>"

definition rb_frame :: "rb_heap \<Rightarrow> rb_heap \<Rightarrow> bool" where
  "rb_frame h h' \<longleftrightarrow> map_option payload \<circ> rb_store h' = map_option payload \<circ> rb_store h"

lemma rb_frame_refl [simp]: "rb_frame h h"
  by (simp add: rb_frame_def)

lemma rb_frame_trans [trans]: "rb_frame h h1 \<Longrightarrow> rb_frame h1 h2 \<Longrightarrow> rb_frame h h2"
  by (simp add: rb_frame_def)

lemma rb_frame_lookup: "rb_frame h h' \<Longrightarrow> map_option payload (rb_store h' a) = map_option payload (rb_store h a)"
  by (metis comp_apply rb_frame_def)

lemma rb_frame_update:
  "rb_update p f h = Some h' \<Longrightarrow> (\<And>n. payload (f n) = payload n) \<Longrightarrow> rb_frame h h'"
  by (auto simp: rb_update_def rb_load_def rb_frame_def bind_eq_Some fun_eq_iff split: if_splits)

lemma rb_frame_store:
  "rb_store h a = Some n \<Longrightarrow> payload n' = payload n \<Longrightarrow>
   rb_frame h (h\<lparr>rb_store := (rb_store h)(a \<mapsto> n')\<rparr>)"
  by (auto simp: rb_frame_def fun_eq_iff)

lemma payload_simps [simp]:
  "payload (n\<lparr>meta := m\<rparr>) = payload n"
  "payload (n\<lparr>left := q\<rparr>) = payload n"
  "payload (n\<lparr>right := q\<rparr>) = payload n"
  "payload (set_child d q n) = payload n"
  by (simp_all add: payload_def set_child_def)

section \<open>Triples\<close>

definition runs :: "rb_heap option \<Rightarrow> rb_heap \<Rightarrow> (rbt \<Rightarrow> bool) \<Rightarrow> bool" where
  "runs m h P \<longleftrightarrow> (\<exists>h' T. m = Some h' \<and> rb_frame h h' \<and> trep h' T \<and> P T)"

lemma runs_Some: "trep h T \<Longrightarrow> P T \<Longrightarrow> runs (Some h) h P"
  by (auto simp: runs_def)

lemma runs_bind_post:
  assumes "runs m h Q" and "\<And>h1 T. trep h1 T \<Longrightarrow> Q T \<Longrightarrow> runs (f h1) h1 P"
  shows "runs (Option.bind m f) h P"
  using assms unfolding runs_def by (fastforce intro: rb_frame_trans)

lemma runs_bind:
  assumes "runs m h (\<lambda>T. T = T1)" and "\<And>h1. trep h1 T1 \<Longrightarrow> runs (f h1) h1 P"
  shows "runs (Option.bind m f) h P"
  using assms by (auto intro: runs_bind_post)

lemma runs_mono: "runs m h P \<Longrightarrow> (\<And>T. P T \<Longrightarrow> Q T) \<Longrightarrow> runs m h Q"
  by (auto simp: runs_def)

section \<open>Reading the tree\<close>

lemma trep_load:
  assumes "trep h (plug C (nd d c t a k u))"
  obtains n where "rb_load h a = Some n" "rb_store h a = Some n" "meta n = mk_meta (cpar C) c"
    "fd n = k" "child n d = ptr t" "child n (\<not> d) = ptr u" "a \<noteq> NULL" "aligned a"
  using assms by (auto simp: trep_plug rep_nd node_at_def rb_load_def child_def split: if_splits)

lemma trep_aligned_cpar: "trep h (plug C t) \<Longrightarrow> aligned (cpar C)"
  by (auto simp: trep_plug intro: ctxrep_cparent)

lemma trep_is_red: "trep h (plug C t) \<Longrightarrow> is_red h (ptr t) = Some (red t)"
  using trep_aligned_cpar [of h C t]
  by (cases t) (auto simp: trep_plug node_at_def is_red_def rb_load_def)

lemma trep_get_parent: "trep h (plug C (nd d c t a k u)) \<Longrightarrow> get_parent h a = Some (cpar C)"
  using trep_aligned_cpar [of h C "nd d c t a k u"]
  by (auto simp: get_parent_def elim: trep_load)

lemma trep_deref: "trep h (plug C t) \<Longrightarrow> deref h (cplace C) = Some (ptr t)"
  by (cases C rule: cplace.cases) (auto simp: trep_def rep_plug rep_nd node_at_def rb_load_def child_def)

lemma trep_cpar_NULL: "trep h (plug C t) \<Longrightarrow> cpar C = NULL \<longleftrightarrow> C = []"
  by (auto simp: trep_plug ctxrep_cpar_NULL)

lemma trep_ptr_NULL: "trep h (plug C t) \<Longrightarrow> ptr t = NULL \<longleftrightarrow> t = Lf"
  by (auto simp: trep_plug rep_ptr_NULL)

text \<open>The two subtrees of a node are told apart by their pointers, unless both are empty.\<close>

lemma trep_ptr_neq:
  assumes "trep h (plug C (nd d c t a k u))" and "t \<noteq> Lf \<or> u \<noteq> Lf"
  shows "ptr t \<noteq> ptr u"
proof
  assume eq: "ptr t = ptr u"
  have "distinct (map fst (inorder (nd d c t a k u)))" "rep (rb_store h) a t" "rep (rb_store h) a u"
    using assms(1) by (auto simp: trep_plug distinct_plug rep_nd)
  then show False
    using eq assms(2) ptr_addrs [of t] ptr_addrs [of u]
    by (cases "t = Lf"; cases "u = Lf") (auto simp: distinct_nd rep_ptr_NULL dest: rep_addrs)
qed

section \<open>Elementary writes\<close>

text \<open>Recolouring the node at a position.\<close>

lemma update_meta:
  assumes t: "trep h (plug C (Nd c l a k r))"
    and f: "\<And>n. payload (f n) = payload n"
      "\<And>n. meta n = mk_meta (cpar C) c \<Longrightarrow> meta (f n) = mk_meta (cpar C) c'"
      "\<And>n. left (f n) = left n" "\<And>n. right (f n) = right n" "\<And>n. fd (f n) = fd n"
  shows "runs (rb_update a f h) h (\<lambda>T. T = plug C (Nd c' l a k r))"
proof -
  obtain n where n: "rb_load h a = Some n" "rb_store h a = Some n"
    using t by (auto simp: trep_plug node_at_def rb_load_def)
  let ?h = "h\<lparr>rb_store := (rb_store h)(a \<mapsto> f n)\<rparr>"
  have d: "a \<notin> caddrs C" "a \<notin> addrs l" "a \<notin> addrs r"
    using t by (auto simp: trep_plug distinct_plug)
  have u: "rb_update a f h = Some ?h"
    by (simp add: rb_update_def n)
  moreover have "rb_frame h ?h"
    using rb_frame_update [OF u] f(1) by simp
  moreover have "trep ?h (plug C (Nd c' l a k r))"
    using t d n f by (auto simp: trep_plug node_at_def inorder_plug)
  ultimately show ?thesis by (auto simp: runs_def)
qed

lemma update_meta_nd:
  assumes "trep h (plug C (nd d c t a k u))"
    and "\<And>n. payload (f n) = payload n"
      "\<And>n. meta n = mk_meta (cpar C) c \<Longrightarrow> meta (f n) = mk_meta (cpar C) c'"
      "\<And>n. left (f n) = left n" "\<And>n. right (f n) = right n" "\<And>n. fd (f n) = fd n"
  shows "runs (rb_update a f h) h (\<lambda>T. T = plug C (nd d c' t a k u))"
  using assms update_meta [of h C c _ a k _ f c'] by (cases d) (simp_all add: nd_def)

lemma runs_set_red:
  "trep h (plug C (nd d c t a k u)) \<Longrightarrow> runs (set_red a h) h (\<lambda>T. T = plug C (nd d True t a k u))"
  unfolding set_red_def by (erule update_meta_nd) auto

lemma runs_set_black:
  "trep h (plug C (nd d c t a k u)) \<Longrightarrow> runs (set_black a h) h (\<lambda>T. T = plug C (nd d False t a k u))"
  unfolding set_black_def by (frule trep_aligned_cpar, erule update_meta_nd) auto

text \<open>Two adjacent nodes exchange their colours.\<close>

lemma runs_swap_colors:
  assumes t: "trep h (plug C (nd d c t a k (nd e c' u b m v)))"
  shows "runs (swap_colors a b h) h (\<lambda>T. T = plug C (nd d c' t a k (nd e c u b m v)))"
proof -
  have t2: "trep h (plug (Fr (\<not> d) c a k t # C) (nd e c' u b m v))"
    using t by (simp add: nd_flip)
  obtain na where na: "rb_load h a = Some na" "meta na = mk_meta (cpar C) c"
    using trep_load [OF t] by blast
  obtain nb where nb: "rb_load h b = Some nb" "meta nb = mk_meta a c'" "aligned a"
    using trep_load [OF t2] trep_aligned_cpar [OF t2] by auto
  let ?f = "\<lambda>n. n\<lparr>meta := meta n XOR meta_diff (meta na) (meta nb)\<rparr>"
  have al: "aligned (cpar C)"
    by (rule trep_aligned_cpar [OF t])
  have s1: "runs (rb_update a ?f h) h (\<lambda>T. T = plug C (nd d c' t a k (nd e c' u b m v)))"
    using al na nb by (intro update_meta_nd [OF t]) auto
  have s2: "runs (rb_update b ?f h1) h1 (\<lambda>T. T = plug C (nd d c' t a k (nd e c u b m v)))"
    if "trep h1 (plug C (nd d c' t a k (nd e c' u b m v)))" for h1
    using update_meta_nd [of h1 "Fr (\<not> d) c' a k t # C" e c' u b m v ?f c] that al na nb
    by (simp add: nd_flip)
  show ?thesis
    using runs_bind [OF s1 s2] na nb by (simp add: swap_colors_def Let_def)
qed

section \<open>Link writes\<close>

text \<open>The parent's link to a node is the place the context describes.\<close>

lemma parent_link:
  assumes "trep h (plug C t)" and "t \<noteq> Lf"
  shows "(if cpar C \<noteq> NULL
          then map_option (\<lambda>pn. Child_ref (cpar C) (right pn = ptr t)) (rb_load h (cpar C))
          else Some Root_ref) = Some (cplace C)"
proof (cases C rule: cplace.cases)
  case (2 d c a k s C')
  then have t: "trep h (plug C' (nd d c t a k s))"
    using assms by simp
  obtain n where n: "rb_load h a = Some n" "child n d = ptr t" "child n (\<not> d) = ptr s" "a \<noteq> NULL"
    using trep_load [OF t] by blast
  have "ptr t \<noteq> ptr s"
    using trep_ptr_neq [OF t] assms(2) by simp
  then have "(right n = ptr t) = d"
    using n by (auto simp: child_def split: if_splits)
  with 2 n show ?thesis by simp
qed (use assms in simp)

text \<open>Writing a pointer into the hole of a context, inside a tree and at the top of one.\<close>

lemma assign_sub_hole:
  assumes "ctxrep (rb_store h) q C x" and "C \<noteq> []"
    and "distinct (map fst (fst (cinorder C) @ snd (cinorder C)))"
  obtains h' where "assign (cplace C) y h = Some h'" "rb_frame h h'"
    "ctxrep (rb_store h') q C y" "rb_root h' = rb_root h"
    "\<And>b. b \<noteq> cpar C \<Longrightarrow> rb_store h' b = rb_store h b"
proof (cases C rule: cplace.cases)
  case (2 d c a k s C')
  obtain n where n: "rb_load h a = Some n" "rb_store h a = Some n" "meta n = mk_meta (cparent q C') c"
      "fd n = k" "a \<noteq> NULL" "aligned a"
      "left n = (if d then ptr s else x)" "right n = (if d then x else ptr s)"
    using assms(1) 2 by (auto simp: node_at_def rb_load_def)
  let ?h = "h\<lparr>rb_store := (rb_store h)(a \<mapsto> set_child d y n)\<rparr>"
  have dist: "a \<notin> addrs s" "a \<notin> caddrs C'"
    using assms(3) 2 by (cases "cinorder C'"; auto simp: caddrs_cinorder split: if_splits)+
  have u: "assign (cplace C) y h = Some ?h"
    using 2 n by (simp add: rb_update_def)
  moreover have "rb_frame h ?h"
    using u 2 by (auto intro: rb_frame_update)
  moreover have "ctxrep (rb_store ?h) q C y"
    using assms(1) 2 n dist by (auto simp: node_at_def set_child_def)
  ultimately show ?thesis
    using that [of ?h] 2 by simp
qed (use assms(2) in simp)

lemma assign_hole:
  assumes "ctxrep (rb_store h) NULL C x" and "rb_root h = croot C x"
    and "distinct (map fst (fst (cinorder C) @ snd (cinorder C)))"
  obtains h' where "assign (cplace C) y h = Some h'" "rb_frame h h'"
    "ctxrep (rb_store h') NULL C y" "rb_root h' = croot C y"
    "\<And>b. b \<noteq> cpar C \<Longrightarrow> rb_store h' b = rb_store h b"
proof (cases "C = []")
  case True
  then show ?thesis
    using that [of "h\<lparr>rb_root := y\<rparr>"] by (auto simp: rb_frame_def)
next
  case False
  then show ?thesis
    using assign_sub_hole [OF assms(1) False assms(3)] assms(2) that croot_Cons [OF False] by metis
qed

lemma rep_cong: "(\<And>b. b \<in> addrs t \<Longrightarrow> s' b = s b) \<Longrightarrow> rep s' p t \<longleftrightarrow> rep s p t"
  by (induction t arbitrary: p) (auto simp: node_at_def image_Un)

lemma rep_agree: "rep s p t \<Longrightarrow> (\<And>b. b \<in> addrs t \<Longrightarrow> s' b = s b) \<Longrightarrow> rep s' p t"
  using rep_cong [of t s' s p] by simp

lemma ctxrep_cong: "(\<And>b. b \<in> caddrs C \<Longrightarrow> s' b = s b) \<Longrightarrow> ctxrep s' q C x \<longleftrightarrow> ctxrep s q C x"
proof (induction s q C x rule: ctxrep.induct)
  case (2 s q d c a k t C x)
  have "rep s' a t \<longleftrightarrow> rep s a t"
    using 2(2) by (intro rep_cong) auto
  with 2 show ?case by (auto simp: node_at_def)
qed simp

lemma ctxrep_agree: "ctxrep s q C x \<Longrightarrow> (\<And>b. b \<in> caddrs C \<Longrightarrow> s' b = s b) \<Longrightarrow> ctxrep s' q C x"
  using ctxrep_cong [of C s' s q x] by simp

text \<open>Giving a subtree, possibly empty, a new parent.\<close>

lemma reparent_subtree:
  assumes "rep (rb_store h) p t" and "aligned p" and "distinct (map fst (inorder t))"
  obtains h' where "(if ptr t \<noteq> NULL then set_parent (ptr t) q h else Some h) = Some h'"
    "rb_frame h h'" "rep (rb_store h') q t" "rb_root h' = rb_root h"
    "\<And>b. b \<notin> addrs t \<Longrightarrow> rb_store h' b = rb_store h b"
proof (cases t)
  case Lf
  then show ?thesis using that [of h] by simp
next
  case (Nd c l a k r)
  obtain n where n: "rb_store h a = Some n" "meta n = mk_meta p c" "a \<noteq> NULL"
    using assms(1) Nd by (auto simp: node_at_def)
  let ?n = "n\<lparr>meta := meta_set_parent (meta n) q\<rparr>"
  let ?h = "h\<lparr>rb_store := (rb_store h)(a \<mapsto> ?n)\<rparr>"
  have u: "set_parent a q h = Some ?h"
    using n by (simp add: set_parent_def rb_update_def rb_load_def)
  have "rb_frame h ?h"
    using n by (intro rb_frame_store) auto
  moreover have "rep (rb_store ?h) q t"
    using assms n Nd by (auto simp: node_at_def)
  ultimately show ?thesis
    using that [of ?h] u n Nd by simp
qed

section \<open>Rotation\<close>

text \<open>The nodes around a rotation are apart from each other and from the context.\<close>

lemma rotate_apart:
  assumes t: "trep h (plug C (nd d c A a k (nd d c' B b m E)))"
  shows "a \<noteq> b" "a \<notin> addrs A \<union> addrs B \<union> addrs E \<union> caddrs C" "b \<notin> addrs A \<union> addrs B \<union> addrs E \<union> caddrs C"
    "caddrs C \<inter> addrs B = {}" "addrs A \<inter> addrs B = {}" "addrs E \<inter> addrs B = {}"
    "cpar C \<noteq> a" "cpar C \<noteq> b" "cpar C \<notin> addrs A \<union> addrs B \<union> addrs E"
proof -
  show d: "a \<noteq> b" "a \<notin> addrs A \<union> addrs B \<union> addrs E \<union> caddrs C"
      "b \<notin> addrs A \<union> addrs B \<union> addrs E \<union> caddrs C"
      "caddrs C \<inter> addrs B = {}" "addrs A \<inter> addrs B = {}" "addrs E \<inter> addrs B = {}"
    using t by (auto simp: trep_plug distinct_plug distinct_nd)
  have reps: "rep (rb_store h) a A" "rep (rb_store h) b B" "rep (rb_store h) b E" "a \<noteq> NULL" "b \<noteq> NULL"
    using t by (auto simp: trep_plug rep_nd node_at_def)
  have "cpar C \<in> insert NULL (caddrs C)"
    by (cases C rule: cplace.cases) auto
  moreover have "caddrs C \<inter> (addrs A \<union> addrs B \<union> addrs E) = {}"
    using t by (auto simp: trep_plug distinct_plug)
  ultimately show "cpar C \<noteq> a" "cpar C \<noteq> b" "cpar C \<notin> addrs A \<union> addrs B \<union> addrs E"
    using d reps(4,5) reps(1-3) [THEN rep_not_NULL] by auto
qed

text \<open>The memory after a rotation: the two nodes, the subtree that changed sides and the link
  from above are rewritten, everything else is untouched.\<close>

lemma rotate_exec:
  assumes t: "trep h (plug C (nd d c A a k (nd d c' B b m E)))"
    and na: "rb_store h a = Some na" and nb: "rb_store h b = Some nb"
  obtains h' where "rb_rotate a d Root_ref h = Some h'" "rb_frame h h'"
    "rb_store h' a = Some ((set_child (\<not> d) (ptr B) na)\<lparr>meta := mk_meta b c\<rparr>)"
    "rb_store h' b = Some (set_child d a (nb\<lparr>meta := mk_meta (cpar C) c'\<rparr>))"
    "rep (rb_store h') a B" "ctxrep (rb_store h') NULL C b" "rb_root h' = croot C b"
    "\<And>x. x \<noteq> a \<Longrightarrow> x \<noteq> b \<Longrightarrow> x \<notin> addrs B \<Longrightarrow> x \<noteq> cpar C \<Longrightarrow> rb_store h' x = rb_store h x"
proof -
  note ne = rotate_apart [OF t]
  have t2: "trep h (plug (Fr (\<not> d) c a k A # C) (nd d c' B b m E))"
    using t by (simp add: nd_flip)
  have al: "aligned (cpar C)" "aligned a" "aligned b" "a \<noteq> NULL" "b \<noteq> NULL"
    using trep_aligned_cpar [OF t] t by (auto simp: trep_plug rep_nd node_at_def)
  have lds: "rb_load h a = Some na" "meta na = mk_meta (cpar C) c" "child na (\<not> d) = b"
      "rb_load h b = Some nb" "meta nb = mk_meta a c'" "child nb d = ptr B"
    using trep_load [OF t] trep_load [OF t2] na nb by auto
  have dist: "distinct (map fst (inorder B))" "distinct (map fst (fst (cinorder C) @ snd (cinorder C)))"
    and reps: "rep (rb_store h) b B" "ctxrep (rb_store h) NULL C a" "rb_root h = croot C a"
    using t by (auto simp: trep_plug distinct_plug distinct_nd rep_nd)
  define h1 where "h1 = h\<lparr>rb_store := (rb_store h)(b \<mapsto> nb\<lparr>meta := mk_meta (cpar C) c'\<rparr>)\<rparr>"
  have r1: "set_parent b (cpar C) h = Some h1" and f1: "rb_frame h h1"
    using lds al nb by (auto simp: set_parent_def rb_update_def h1_def intro: rb_frame_store)
  obtain h2 where h2: "assign (cplace C) b h1 = Some h2" "rb_frame h1 h2"
      "ctxrep (rb_store h2) NULL C b" "rb_root h2 = croot C b"
      "\<And>x. x \<noteq> cpar C \<Longrightarrow> rb_store h2 x = rb_store h1 x"
    using assign_hole [of h1 C a b] reps dist(2) ne by (auto simp: h1_def)
  define na2 where "na2 = set_child (\<not> d) (ptr B) na"
  define h3 where "h3 = h2\<lparr>rb_store := (rb_store h2)(a \<mapsto> na2)\<rparr>"
  have s2: "rb_store h2 a = Some na"
    using h2(5) [of a] ne na by (simp add: h1_def)
  then have r3: "rb_update a (set_child (\<not> d) (ptr B)) h2 = Some h3" and f3: "rb_frame h2 h3"
    using al by (auto simp: rb_update_def rb_load_def h3_def na2_def intro: rb_frame_store)
  have s3: "rb_store h3 x = rb_store h x" if "x \<noteq> a" "x \<noteq> b" "x \<noteq> cpar C" for x
    using that h2(5) [of x] by (simp add: h3_def h1_def)
  have s3b: "rb_store h3 b = Some (nb\<lparr>meta := mk_meta (cpar C) c'\<rparr>)"
    using h2(5) [of b] ne by (simp add: h3_def h1_def)
  have "rep (rb_store h3) b B"
    by (rule rep_agree [OF reps(1)], rule s3) (use ne in auto)
  then obtain h4 where h4: "(if ptr B \<noteq> NULL then set_parent (ptr B) a h3 else Some h3) = Some h4"
      "rb_frame h3 h4" "rep (rb_store h4) a B" "rb_root h4 = rb_root h3"
      "\<And>x. x \<notin> addrs B \<Longrightarrow> rb_store h4 x = rb_store h3 x"
    using reparent_subtree al(3) dist(1) by metis
  define nb2 where "nb2 = set_child d a (nb\<lparr>meta := mk_meta (cpar C) c'\<rparr>)"
  define h5 where "h5 = h4\<lparr>rb_store := (rb_store h4)(b \<mapsto> nb2)\<rparr>"
  have s4: "rb_store h4 b = Some (nb\<lparr>meta := mk_meta (cpar C) c'\<rparr>)" "rb_store h4 a = Some na2"
    using h4(5) ne s3b by (simp_all add: h3_def)
  have r5: "rb_update b (set_child d a) h4 = Some h5"
    using s4 al by (simp add: rb_update_def rb_load_def h5_def nb2_def)
  define h6 where "h6 = h5\<lparr>rb_store := (rb_store h5)(a \<mapsto> na2\<lparr>meta := mk_meta b c\<rparr>)\<rparr>"
  have r6: "set_parent a b h5 = Some h6"
    using s4 ne al lds
    by (simp add: set_parent_def rb_update_def rb_load_def h6_def h5_def na2_def set_child_def)
  have "rb_frame h4 h5" "rb_frame h5 h6"
    using rb_frame_store [OF s4(1), of nb2] rb_frame_store [of h5 a na2] s4(2) ne(1)
    by (simp_all add: h6_def h5_def nb2_def)
  then have f: "rb_frame h h6"
    using f1 h2(2) f3 h4(2) rb_frame_trans by blast
  have "rb_rotate a d Root_ref h = Some h6"
    using parent_link [OF t, unfolded ptr_nd] lds r1 h2(1) r3 h4(1) r5 r6 trep_get_parent [OF t]
    by (simp add: rb_rotate_def Let_def split del: if_split cong: if_cong)
  moreover have "rep (rb_store h6) a B"
    by (rule rep_agree [OF h4(3)]) (use ne in \<open>auto simp: h6_def h5_def\<close>)
  moreover have "ctxrep (rb_store h6) NULL C b"
    by (rule ctxrep_agree [OF h2(3)]) (use ne h4(5) in \<open>auto simp: h6_def h5_def h3_def disjoint_iff\<close>)
  moreover have "rb_root h6 = croot C b"
    using h2(4) h4(4) by (simp add: h6_def h5_def h3_def)
  moreover have "rb_store h6 x = rb_store h x" if "x \<noteq> a" "x \<noteq> b" "x \<notin> addrs B" "x \<noteq> cpar C" for x
    using that s3 [of x] h4(5) [of x] by (simp add: h6_def h5_def)
  ultimately show ?thesis
    using that [of h6] f ne by (simp add: h6_def h5_def na2_def nb2_def)
qed

text \<open>
  Rotating towards \<open>d\<close>: the child on the other side takes the node's place. In-order sequence,
  colours and payload stay.
\<close>

lemma runs_rotate:
  assumes t: "trep h (plug C (nd d c A a k (nd d c' B b m E)))"
  shows "runs (rb_rotate a d Root_ref h) h (\<lambda>T. T = plug C (nd d c' (nd d c A a k B) b m E))"
proof -
  note ne = rotate_apart [OF t]
  have t2: "trep h (plug (Fr (\<not> d) c a k A # C) (nd d c' B b m E))"
    using t by (simp add: nd_flip)
  obtain na where na: "rb_store h a = Some na" "fd na = k" "child na d = ptr A" "a \<noteq> NULL" "aligned a"
    using trep_load [OF t] by auto
  obtain nb where nb: "rb_store h b = Some nb" "fd nb = m" "child nb (\<not> d) = ptr E" "b \<noteq> NULL" "aligned b"
    using trep_load [OF t2] by auto
  obtain h' where h': "rb_rotate a d Root_ref h = Some h'" "rb_frame h h'"
    "rb_store h' a = Some ((set_child (\<not> d) (ptr B) na)\<lparr>meta := mk_meta b c\<rparr>)"
    "rb_store h' b = Some (set_child d a (nb\<lparr>meta := mk_meta (cpar C) c'\<rparr>))"
    "rep (rb_store h') a B" "ctxrep (rb_store h') NULL C b" "rb_root h' = croot C b"
    "\<And>x. x \<noteq> a \<Longrightarrow> x \<noteq> b \<Longrightarrow> x \<notin> addrs B \<Longrightarrow> x \<noteq> cpar C \<Longrightarrow> rb_store h' x = rb_store h x"
    using rotate_exec [OF t na(1) nb(1)] by metis
  have reps: "rep (rb_store h) a A" "rep (rb_store h) b E"
    using t by (auto simp: trep_plug rep_nd)
  have "rep (rb_store h') a A"
    by (rule rep_agree [OF reps(1)], rule h'(8)) (use ne in auto)
  moreover have "rep (rb_store h') b E"
    by (rule rep_agree [OF reps(2)], rule h'(8)) (use ne in auto)
  moreover have "distinct (map fst (inorder (plug C (nd d c' (nd d c A a k B) b m E))))"
    using t by (simp add: trep_def inorder_plug inorder_nd split: if_splits)
  ultimately have "trep h' (plug C (nd d c' (nd d c A a k B) b m E))"
    using na nb h' by (auto simp: trep_plug rep_nd node_at_def set_child_def child_def)
  with h'(1,2) show ?thesis
    by (auto simp: runs_def)
qed

end
