(* ===== verification/Rbtree_Insert.thy ===== *)
theory Rbtree_Insert
  imports Rbtree_Rep
begin

text \<open>
  Search and insertion: \<open>rb_probe\<close> finds the node of a descriptor or the empty place where it
  belongs, and \<open>rb_insert\<close> keeps the colour and black-height invariants, the search order and
  every other node's contents. \<open>zigzag\<close> names the one situation in which the place that was
  probed before the insertion no longer holds the new node afterwards.
\<close>

section \<open>Red-black invariants\<close>

fun bh :: "rbt \<Rightarrow> nat" where
  "bh Lf = 0"
| "bh (Nd c l a k r) = bh l + (if c then 0 else 1)"

fun invc :: "rbt \<Rightarrow> bool" where
  "invc Lf = True"
| "invc (Nd c l a k r) = ((c \<longrightarrow> \<not> red l \<and> \<not> red r) \<and> invc l \<and> invc r)"

fun invh :: "rbt \<Rightarrow> bool" where
  "invh Lf = True"
| "invh (Nd c l a k r) = (bh l = bh r \<and> invh l \<and> invh r)"

fun blacken :: "rbt \<Rightarrow> rbt" where
  "blacken Lf = Lf"
| "blacken (Nd c l a k r) = Nd False l a k r"

definition keys :: "rbt \<Rightarrow> int list" where
  "keys T = map snd (inorder T)"

definition rb_ok :: "rbt \<Rightarrow> bool" where
  "rb_ok T \<longleftrightarrow> invc T \<and> invh T \<and> \<not> red T \<and> sorted_wrt (<) (keys T)"

text \<open>The context of a position of black height \<open>n\<close>.\<close>

fun ctx_red :: "frame list \<Rightarrow> bool" where
  "ctx_red [] = False"
| "ctx_red (Fr d c a k s # C) = c"

fun ctx_ok :: "frame list \<Rightarrow> nat \<Rightarrow> bool" where
  "ctx_ok [] n = True"
| "ctx_ok (Fr d c a k s # C) n =
     (invc s \<and> invh s \<and> bh s = n \<and> (c \<longrightarrow> \<not> red s \<and> \<not> ctx_red C) \<and> ctx_ok C (n + (if c then 0 else 1)))"

lemma invc_nd [simp]:
  "invc (nd d c t a k s) \<longleftrightarrow> (c \<longrightarrow> \<not> red t \<and> \<not> red s) \<and> invc t \<and> invc s"
  by (auto simp: nd_def)

lemma invh_nd [simp]: "invh (nd d c t a k s) \<longleftrightarrow> bh t = bh s \<and> invh t \<and> invh s"
  by (auto simp: nd_def)

lemma bh_nd: "bh t = bh s \<Longrightarrow> bh (nd d c t a k s) = bh t + (if c then 0 else 1)"
  by (simp add: nd_def)

lemma blacken_nd [simp]: "blacken (nd d c t a k s) = nd d False t a k s"
  by (simp add: nd_def)

lemma plug_inv:
  "invc (plug C t) \<and> invh (plug C t) \<longleftrightarrow>
     ctx_ok C (bh t) \<and> invc t \<and> invh t \<and> (red t \<longrightarrow> \<not> ctx_red C)"
proof (induction C t rule: plug.induct)
  case (2 d c a k s C t)
  then show ?case
    by (cases "bh t = bh s") (auto simp: bh_nd)
qed simp

lemma blacken_simps [simp]:
  "inorder (blacken t) = inorder t"
  "\<not> red (blacken t)"
  "invh (blacken t) = invh t"
  "ptr (blacken t) = ptr t"
  "blacken t = Lf \<longleftrightarrow> t = Lf"
  by (cases t; simp)+

lemma invc_blacken: "invc t \<Longrightarrow> invc (blacken t)"
  by (cases t) auto

lemma bh_blacken: "red t \<Longrightarrow> bh (blacken t) = Suc (bh t)"
  by (cases t) auto

lemma blacken_black: "\<not> red t \<Longrightarrow> blacken t = t"
  by (cases t) auto

section \<open>Rebalancing after an insertion\<close>

text \<open>The new node and its parent hang on opposite sides and the uncle is not red: the only
  case in which the node leaves the place it was inserted at.\<close>

fun zigzag :: "frame list \<Rightarrow> bool" where
  "zigzag (Fr d c a k s # Fr e c' b m u # C) = (c \<and> d \<noteq> e \<and> \<not> red u)"
| "zigzag _ = False"

text \<open>What rebalancing from the red node \<open>nd d True l a k r\<close> at context \<open>C\<close> achieves.\<close>

definition fixed :: "frame list \<Rightarrow> rbt \<Rightarrow> rbt \<Rightarrow> rbt \<Rightarrow> rbt \<Rightarrow> bool" where
  "fixed C t l r T \<longleftrightarrow> inorder T = inorder (plug C t) \<and> invc (blacken T) \<and> invh T
     \<and> (\<exists>E. T = plug E l) \<and> (\<exists>E. T = plug E r)
     \<and> (\<not> zigzag C \<longrightarrow> (\<exists>E. T = plug E t \<and> cplace E = cplace C))"

lemma plug_sub: "\<exists>E. plug C (nd d c t a k s) = plug E t" "\<exists>E. plug C (nd d c t a k s) = plug E s"
  using plug.simps(2) [of d c a k s C t] plug.simps(2) [of "\<not> d" c a k t C s] nd_flip by metis+

lemma fixed_stop:
  assumes "t = nd d True l a k r" and "ctx_ok C (bh t)" "invc t" "invh t"
    and "\<not> ctx_red C \<or> (\<exists>e b m s. C = [Fr e True b m s])"
  shows "fixed C t l r (plug C t)"
proof -
  have "invc (blacken (plug C t)) \<and> invh (plug C t)"
  proof (cases "ctx_red C")
    case False
    then have "invc (plug C t) \<and> invh (plug C t)"
      using assms(2-4) plug_inv by simp
    then show ?thesis by (simp add: invc_blacken)
  next
    case True
    with assms show ?thesis by auto
  qed
  then show ?thesis
    using plug_sub assms(1) by (auto simp: fixed_def)
qed

text \<open>The red uncle: colours move up and the loop continues at the grandparent.\<close>

lemma fixed_recolour:
  assumes "fixed C t2 (nd d False t b m s) u' T"
    and "t = nd d0 c0 l a k r" and "inorder u' = inorder u"
    and "t2 = nd e True (nd d False t b m s) g n u'"
    and "red u"
  shows "fixed (Fr d True b m s # Fr e False g n u # C) t l r T"
proof -
  obtain E where E: "T = plug E (nd d False t b m s)"
    using assms(1) by (auto simp: fixed_def)
  then have T: "T = plug (Fr d False b m s # E) t" by simp
  have "\<exists>F. T = plug F l" "\<exists>F. T = plug F r"
    using T plug_sub assms(2) by metis+
  moreover have "\<exists>F. T = plug F t \<and> cplace F = cplace (Fr d True b m s # Fr e False g n u # C)"
    using T by (intro exI [of _ "Fr d False b m s # E"]) simp
  ultimately show ?thesis
    using assms by (auto simp: fixed_def inorder_plug inorder_nd)
qed

text \<open>The loop reads the colours and directions the context describes.\<close>

lemma parent_dir:
  assumes "trep h (plug C (nd e c P g n u))" and "P \<noteq> Lf"
  obtains gn where "rb_load h g = Some gn" "(child gn True = ptr P) = e" "child gn (\<not> e) = ptr u"
    "child gn e = ptr P"
proof -
  obtain gn where gn: "rb_load h g = Some gn" "child gn e = ptr P" "child gn (\<not> e) = ptr u"
    using trep_load [OF assms(1)] by blast
  moreover have "ptr P \<noteq> ptr u"
    using trep_ptr_neq [OF assms(1)] assms(2) by simp
  ultimately show ?thesis
    using that [of gn] by (cases e) (auto simp: child_def)
qed

lemma fix_insert_unfold:
  assumes t: "trep h (plug (Fr d True b m s # Fr e False g n u # C) t)" and tn: "t \<noteq> Lf"
  shows "fix_insert (ptr t) b Root_ref h =
    (if red u
     then do { h \<leftarrow> set_black (ptr u) h; h \<leftarrow> set_black b h; h \<leftarrow> set_red g h;
               p \<leftarrow> get_parent h g; fix_insert g p Root_ref h }
     else do { (q, h) \<leftarrow> (if e \<noteq> d
                 then do { h \<leftarrow> rb_rotate b e Root_ref h; Some (ptr t, h) } else Some (b, h));
               h \<leftarrow> rb_rotate g (\<not> e) Root_ref h;
               h \<leftarrow> set_red g h;
               set_black q h })"
proof -
  have tb: "trep h (plug (Fr e False g n u # C) (nd d True t b m s))"
    and tg: "trep h (plug C (nd e False (nd d True t b m s) g n u))"
    using t by simp_all
  have tu: "trep h (plug (Fr (\<not> e) False g n (nd d True t b m s) # C) u)"
    using tg by (simp add: nd_flip)
  have red: "is_red h b = Some True"
    using trep_is_red [OF tb] by simp
  have gp: "get_parent h b = Some g" "g \<noteq> NULL"
    using trep_get_parent [OF tb] trep_load [OF tg] by auto
  obtain gn where gn: "rb_load h g = Some gn" "(child gn True = b) = e" "child gn (\<not> e) = ptr u"
    using parent_dir [OF tg] by auto
  obtain bn where bn: "rb_load h b = Some bn" "(child bn True = ptr t) = d"
    using parent_dir [OF tb tn] by auto
  show ?thesis
    by (subst fix_insert.simps)
      (simp add: red gp gn bn trep_is_red [OF tu] Let_def split del: if_split cong: if_cong)
qed

lemma fix_insert_red_uncle:
  assumes t: "trep h (plug (Fr d True b m s # Fr e False g n (nd True True x u y z) # C) t)"
    and IH: "\<And>h1. trep h1 (plug C (nd e True (nd d False t b m s) g n (nd True False x u y z))) \<Longrightarrow>
      runs (fix_insert g (cpar C) Root_ref h1) h1 P"
    and tn: "t \<noteq> Lf"
  shows "runs (fix_insert (ptr t) b Root_ref h) h P"
proof -
  let ?P = "\<lambda>c. nd d c t b m s"
  let ?u = "\<lambda>c. nd True c x u y z"
  have s1: "runs (set_black u h) h (\<lambda>T. T = plug C (nd e False (?P True) g n (?u False)))"
    using runs_set_black [of h "Fr (\<not> e) False g n (?P True) # C"] t by (simp add: nd_flip)
  have s2: "runs (set_black b h1) h1 (\<lambda>T. T = plug C (nd e False (?P False) g n (?u False)))"
    if "trep h1 (plug C (nd e False (?P True) g n (?u False)))" for h1
    using runs_set_black [of h1 "Fr e False g n (?u False) # C"] that by simp
  have s3: "runs (set_red g h2) h2 (\<lambda>T. T = plug C (nd e True (?P False) g n (?u False)))"
    if "trep h2 (plug C (nd e False (?P False) g n (?u False)))" for h2
    using runs_set_red that by simp
  have s4: "runs (do { p \<leftarrow> get_parent h3 g; fix_insert g p Root_ref h3 }) h3 P"
    if "trep h3 (plug C (nd e True (?P False) g n (?u False)))" for h3
    using IH [OF that] trep_get_parent [OF that] by simp
  show ?thesis
    unfolding fix_insert_unfold [OF t tn]
    by (simp, rule runs_bind [OF s1], rule runs_bind [OF s2], assumption, rule runs_bind [OF s3],
        assumption, rule s4)
qed

lemma fix_insert_straight:
  assumes t: "trep h (plug (Fr e True b m s # Fr e False g n u # C) t)" and u: "\<not> red u"
    and tn: "t \<noteq> Lf"
  shows "runs (fix_insert (ptr t) b Root_ref h) h
    (\<lambda>T. T = plug C (nd e False t b m (nd e True s g n u)))"
proof -
  have s1: "runs (rb_rotate g (\<not> e) Root_ref h) h (\<lambda>T. T = plug C (nd e True t b m (nd e False s g n u)))"
    using runs_rotate [of h C "\<not> e" False u g n True s b m t] t by (simp add: nd_flip)
  have s2: "runs (set_red g h1) h1 (\<lambda>T. T = plug C (nd e True t b m (nd e True s g n u)))"
    if "trep h1 (plug C (nd e True t b m (nd e False s g n u)))" for h1
    using runs_set_red [of h1 "Fr (\<not> e) True b m t # C"] that by (simp add: nd_flip)
  have s3: "runs (set_black b h2) h2 (\<lambda>T. T = plug C (nd e False t b m (nd e True s g n u)))"
    if "trep h2 (plug C (nd e True t b m (nd e True s g n u)))" for h2
    using runs_set_black that by simp
  show ?thesis
    unfolding fix_insert_unfold [OF t tn]
    using u by (simp, intro runs_bind [OF s1] runs_bind [OF s2] s3)
qed

lemma fix_insert_zigzag:
  assumes t: "trep h (plug (Fr (\<not> e) True b m s # Fr e False g n u # C) (nd e True x a k y))"
    and u: "\<not> red u"
  shows "runs (fix_insert a b Root_ref h) h
    (\<lambda>T. T = plug C (nd e False (nd e True s b m x) a k (nd e True y g n u)))"
proof -
  let ?b = "nd e True s b m x"
  have s0: "runs (rb_rotate b e Root_ref h) h
      (\<lambda>T. T = plug C (nd e False (nd e True ?b a k y) g n u))"
    using runs_rotate [of h "Fr e False g n u # C" e True s b m True x a k y] t by (simp add: nd_flip)
  have s1: "runs (rb_rotate g (\<not> e) Root_ref h1) h1
      (\<lambda>T. T = plug C (nd e True ?b a k (nd e False y g n u)))"
    if "trep h1 (plug C (nd e False (nd e True ?b a k y) g n u))" for h1
    using runs_rotate [of h1 C "\<not> e" False u g n True y a k ?b] that by (simp add: nd_flip)
  have s2: "runs (set_red g h1) h1 (\<lambda>T. T = plug C (nd e True ?b a k (nd e True y g n u)))"
    if "trep h1 (plug C (nd e True ?b a k (nd e False y g n u)))" for h1
    using runs_set_red [of h1 "Fr (\<not> e) True a k ?b # C"] that by (simp add: nd_flip)
  have s3: "runs (set_black a h2) h2 (\<lambda>T. T = plug C (nd e False ?b a k (nd e True y g n u)))"
    if "trep h2 (plug C (nd e True ?b a k (nd e True y g n u)))" for h2
    using runs_set_black that by simp
  have "fix_insert a b Root_ref h = do { h \<leftarrow> rb_rotate b e Root_ref h;
      h \<leftarrow> rb_rotate g (\<not> e) Root_ref h; h \<leftarrow> set_red g h; set_black a h }"
    using fix_insert_unfold [OF t] u by (simp add: bind_assoc)
  then show ?thesis
    using runs_bind [OF s0 runs_bind [OF s1 runs_bind [OF s2 s3]]] by simp
qed

text \<open>The rotations restore the invariant at once.\<close>

lemma fixed_straight:
  assumes "ctx_ok (Fr e True b m s # Fr e False g n u # C) (bh t)" "\<not> red u"
    and t: "t = nd d True l a k r" "invc t" "invh t"
  shows "fixed (Fr e True b m s # Fr e False g n u # C) t l r
    (plug C (nd e False t b m (nd e True s g n u)))"
proof -
  let ?T = "plug C (nd e False t b m (nd e True s g n u))"
  have "invc ?T \<and> invh ?T"
    using assms by (subst plug_inv) (auto simp: bh_nd)
  moreover have "?T = plug (Fr e False b m (nd e True s g n u) # C) t" by simp
  then have "\<exists>E. ?T = plug E t \<and> cplace E = Child_ref b e"
    by (metis cplace.simps(2))
  moreover have "\<exists>E. ?T = plug E l" "\<exists>E. ?T = plug E r"
    using \<open>?T = plug _ t\<close> plug_sub t(1) by metis+
  ultimately show ?thesis
    by (auto simp: fixed_def invc_blacken inorder_plug inorder_nd)
qed

lemma fixed_zigzag:
  assumes "ctx_ok (Fr (\<not> e) True b m s # Fr e False g n u # C) (bh t)" "\<not> red u"
    and t: "t = nd e True x a k y" "invc t" "invh t"
  shows "fixed (Fr (\<not> e) True b m s # Fr e False g n u # C) t x y
    (plug C (nd e False (nd e True s b m x) a k (nd e True y g n u)))"
proof -
  let ?b = "nd e True s b m x"
  let ?g = "nd e True y g n u"
  let ?T = "plug C (nd e False ?b a k ?g)"
  have "invc ?T \<and> invh ?T"
    using assms by (subst plug_inv) (auto simp: bh_nd)
  moreover have "?T = plug (Fr e False a k ?g # C) ?b" "?T = plug (Fr (\<not> e) False a k ?b # C) ?g"
    by (simp_all add: nd_flip)
  then have "\<exists>E. ?T = plug E x" "\<exists>E. ?T = plug E y"
    using plug_sub by metis+
  ultimately show ?thesis
    using assms(2) by (auto simp: fixed_def invc_blacken inorder_plug inorder_nd t(1))
qed

lemma trep_cpar_red: "trep h (plug C t) \<Longrightarrow> is_red h (cpar C) = Some (ctx_red C)"
proof (cases C rule: ctx_red.cases)
  case (2 d c a k s C')
  assume "trep h (plug C t)"
  with 2 show ?thesis
    using trep_is_red [of h C' "nd d c t a k s"] by simp
qed (simp add: is_red_def)

lemma ctx_cases:
  obtains (stop) "\<not> ctx_red C" | (root) e b m s where "C = [Fr e True b m s]"
    | (up) d1 b m s e c g n u C' where "C = Fr d1 True b m s # Fr e c g n u # C'"
proof (cases "ctx_red C")
  case True
  then obtain d1 b m s C1 where C: "C = Fr d1 True b m s # C1"
    by (cases C rule: ctx_red.cases) auto
  then show ?thesis
    using root up by (cases C1 rule: ctx_red.cases) auto
qed (rule stop)

lemma fix_insert_runs:
  assumes "trep h (plug C t)" and "t = nd d True l a k r" and "ctx_ok C (bh t)" "invc t" "invh t"
  shows "runs (fix_insert a (cpar C) Root_ref h) h (fixed C t l r)"
  using assms
proof (induction "length C" arbitrary: C t d l a k r h rule: less_induct)
  case less
  note t = less.prems(1) and td = less.prems(2) and ok = less.prems(3-5)
  have tn: "t \<noteq> Lf" "ptr t = a"
    using td by simp_all
  show ?case
  proof (cases C rule: ctx_cases)
    case stop
    have "is_red h (cpar C) = Some False"
      using stop trep_cpar_red [OF t] by simp
    then have "fix_insert a (cpar C) Root_ref h = Some h"
      by (subst fix_insert.simps) simp
    then show ?thesis
      using runs_Some [OF t, of "fixed C t l r"] fixed_stop [OF td ok] stop by simp
  next
    case (root e b m s)
    then have b: "trep h (plug [] (nd e True t b m s))"
      using t by simp
    have "is_red h b = Some True" "get_parent h b = Some NULL"
      using trep_is_red [OF b] trep_get_parent [OF b] by simp_all
    then have "fix_insert a (cpar C) Root_ref h = Some h"
      using root by (subst fix_insert.simps) simp
    then show ?thesis
      using runs_Some [OF t, of "fixed C t l r"] fixed_stop [OF td ok] root by simp
  next
    case (up d1 b m s e c g n u C')
    then have c: "c = False" and bu: "bh u = bh t"
      using ok(1) by auto
    have t': "trep h (plug (Fr d1 True b m s # Fr e False g n u # C') t)"
      using t up c by simp
    have ok': "ctx_ok (Fr d1 True b m s # Fr e False g n u # C') (bh t)"
      using ok(1) up c by simp
    show ?thesis
    proof (cases "red u")
      case True
      then obtain x ua uk z where u: "u = nd True True x ua uk z"
        by (rule red_exhaust)
      let ?u = "nd True False x ua uk z"
      let ?P = "nd d1 False t b m s"
      let ?t = "nd e True ?P g n ?u"
      have "runs (fix_insert g (cpar C') Root_ref h1) h1
          (fixed (Fr d1 True b m s # Fr e False g n u # C') t l r)"
        if "trep h1 (plug C' ?t)" for h1
      proof -
        have "runs (fix_insert g (cpar C') Root_ref h1) h1 (fixed C' ?t ?P ?u)"
          by (rule less.hyps [OF _ that refl]) (use up ok' ok(2,3) bu u in \<open>auto simp: bh_nd\<close>)
        then show ?thesis
          by (rule runs_mono) (rule fixed_recolour [OF _ td _ refl True], assumption, simp add: u inorder_nd)
      qed
      then show ?thesis
        using fix_insert_red_uncle [OF t' [unfolded u] _ tn(1)] up c tn(2) u by simp
    next
      case black: False
      show ?thesis
      proof (cases "d1 = e")
        case True
        have "runs (fix_insert a b Root_ref h) h (\<lambda>T. T = plug C' (nd e False t b m (nd e True s g n u)))"
          using fix_insert_straight [OF t' [unfolded True] black tn(1)] tn(2) by simp
        then show ?thesis
          using fixed_straight [OF ok' [unfolded True] black td ok(2,3)] up c True
          by (auto elim: runs_mono)
      next
        case False
        then have d1: "d1 = (\<not> e)" by auto
        obtain x y where xy: "t = nd e True x a k y" "(x, y) = (l, r) \<or> (x, y) = (r, l)"
          using td nd_flip [of e] by (cases "d = e") auto
        have "runs (fix_insert a b Root_ref h) h
            (\<lambda>T. T = plug C' (nd e False (nd e True s b m x) a k (nd e True y g n u)))"
          using fix_insert_zigzag t' black xy(1) d1 by simp
        moreover have "fixed C t x y (plug C' (nd e False (nd e True s b m x) a k (nd e True y g n u)))"
          using fixed_zigzag [OF ok' [unfolded d1] black xy(1) ok(2,3)] up c d1 by simp
        ultimately have "runs (fix_insert a b Root_ref h) h (fixed C t x y)"
          by (auto elim!: runs_mono)
        then show ?thesis
          using xy(2) up by (auto simp: fixed_def elim!: runs_mono)
      qed
    qed
  qed
qed

section \<open>Search\<close>

text \<open>The position \<open>rb_probe\<close> walks to, with the parent it reports.\<close>

fun locate :: "int \<Rightarrow> frame list \<Rightarrow> addr \<Rightarrow> rbt \<Rightarrow> frame list \<times> addr \<times> rbt" where
  "locate key C p Lf = (C, p, Lf)"
| "locate key C p (Nd c l a k r) =
     (if k = key then (C, p, Nd c l a k r)
      else if key > k then locate key (Fr True c a k l # C) a r
      else locate key (Fr False c a k r # C) a l)"

lemma probe_loop_locate:
  assumes "trep h (plug C t)" and "locate key C p t = (C', p', t')"
  shows "probe_loop h (cplace C) p key = Some (cplace C', p')"
  using assms
proof (induction t arbitrary: C p)
  case Lf
  then show ?case
    using trep_deref [OF Lf.prems(1)] by (subst probe_loop.simps) simp
next
  case (Nd c l a k r)
  have l: "trep h (plug (Fr False c a k r # C) l)" and r: "trep h (plug (Fr True c a k l # C) r)"
    using Nd.prems(1) by (simp_all add: nd_def)
  obtain n where n: "rb_load h a = Some n" "fd n = k" "a \<noteq> NULL"
    using trep_load [of h C False c l a k r] Nd.prems(1) by (auto simp: nd_def)
  have "deref h (cplace C) = Some a"
    using trep_deref [OF Nd.prems(1)] by simp
  then show ?case
    using n Nd.IH(1) [OF l] Nd.IH(2) [OF r] Nd.prems(2)
    by (subst probe_loop.simps) (auto split: if_splits)
qed

lemma locate_plug: "locate key C p t = (C', p', t') \<Longrightarrow> plug C' t' = plug C t"
  by (induction key C p t rule: locate.induct) (auto simp: nd_def split: if_splits)

lemma locate_parent:
  "locate key C p t = (C', p', t') \<Longrightarrow> p = cpar C \<Longrightarrow> p' = cpar C'"
  by (induction key C p t rule: locate.induct) (auto split: if_splits)

text \<open>On a search tree the walk ends at the key, or at the gap between its neighbours.\<close>

definition between :: "int \<Rightarrow> frame list \<Rightarrow> bool" where
  "between key C \<longleftrightarrow> (\<forall>x \<in> set (fst (cinorder C)). snd x < key) \<and> (\<forall>x \<in> set (snd (cinorder C)). key < snd x)"

lemma locate_between:
  assumes "sorted_wrt (<) (keys (plug C t))" and "between key C" and "locate key C p t = (C', p', t')"
  shows "between key C' \<and> (t' = Lf \<or> (\<exists>c l a r. t' = Nd c l a key r))"
  using assms
proof (induction t arbitrary: C p)
  case (Nd c l a k r)
  have s: "sorted_wrt (<) (keys (plug (Fr False c a k r # C) l))"
      "sorted_wrt (<) (keys (plug (Fr True c a k l # C) r))"
    using Nd.prems(1) by (simp_all add: nd_def)
  have lt: "\<forall>x \<in> set (inorder l). snd x < k" "\<forall>x \<in> set (inorder r). k < snd x"
    using Nd.prems(1) by (auto simp: keys_def inorder_plug sorted_wrt_append)
  have "between key (Fr False c a k r # C)" if "key < k"
    using Nd.prems(2) lt that by (fastforce simp: between_def split: prod.splits)
  moreover have "between key (Fr True c a k l # C)" if "k < key"
    using Nd.prems(2) lt that by (fastforce simp: between_def split: prod.splits)
  ultimately show ?case
    using Nd.IH(1) [OF s(1)] Nd.IH(2) [OF s(2)] Nd.prems(2,3) by (auto split: if_splits)
qed auto

definition rb_tree :: "rb_heap \<Rightarrow> rbt \<Rightarrow> bool" where
  "rb_tree h T \<longleftrightarrow> trep h T \<and> rb_ok T"

lemma rb_probe_total:
  assumes "rb_tree h T"
  obtains C t where "T = plug C t" "rb_probe h Root_ref key = Some (cplace C, cpar C)" "between key C"
    "t = Lf \<or> (\<exists>c l a r. t = Nd c l a key r)" "deref h (cplace C) = Some (ptr t)"
proof -
  obtain C p t where loc: "locate key [] (cpar []) T = (C, p, t)"
    by (cases "locate key [] (cpar []) T") auto
  have T: "trep h (plug [] T)" "sorted_wrt (<) (keys (plug [] T))"
    using assms by (auto simp: rb_tree_def rb_ok_def)
  have pl: "T = plug C t" "p = cpar C"
    using locate_plug [OF loc] locate_parent [OF loc refl] by simp_all
  moreover have "rb_probe h Root_ref key = Some (cplace C, cpar C)"
    using probe_loop_locate [OF T(1)] loc pl by (simp add: rb_probe_def)
  moreover have "between key C \<and> (t = Lf \<or> (\<exists>c l a r. t = Nd c l a key r))"
    using locate_between [OF T(2) _ loc] by (simp add: between_def)
  moreover have "deref h (cplace C) = Some (ptr t)"
    using trep_deref T(1) pl by simp
  ultimately show ?thesis
    using that by blast
qed

lemma between_keys: "between key C \<Longrightarrow> key \<notin> set (keys (plug C Lf))"
  by (fastforce simp: between_def keys_def inorder_plug)

section \<open>Insertion\<close>

text \<open>Linking a fresh red node into the empty place that was probed.\<close>

lemma runs_attach:
  assumes t: "trep h (plug C Lf)" and a: "rb_store h a = Some n" "meta n = 1" "left n = NULL" "right n = NULL"
    and fresh: "a \<noteq> NULL" "aligned a" "a \<notin> addrs (plug C Lf)"
  shows "runs (do { h \<leftarrow> assign (cplace C) a h; set_parent a (cpar C) h }) h
    (\<lambda>T. T = plug C (Nd True Lf a (fd n) Lf))"
proof -
  have notin: "a \<notin> caddrs C" and cp: "cpar C \<noteq> a"
    using fresh by (cases C rule: cplace.cases; auto simp: addrs_plug)+
  obtain h1 where h1: "assign (cplace C) a h = Some h1" "rb_frame h h1"
      "ctxrep (rb_store h1) NULL C a" "rb_root h1 = croot C a"
      "\<And>b. b \<noteq> cpar C \<Longrightarrow> rb_store h1 b = rb_store h b"
    using assign_hole [of h C NULL a] t by (auto simp: trep_plug distinct_plug)
  have n1: "rb_store h1 a = Some n"
    using h1(5) [of a] cp a by simp
  let ?n = "n\<lparr>meta := mk_meta (cpar C) True\<rparr>"
  let ?h = "h1\<lparr>rb_store := (rb_store h1)(a \<mapsto> ?n)\<rparr>"
  have "meta_set_parent 1 (cpar C) = mk_meta (cpar C) True"
    using meta_set_parent_mk [of NULL True "cpar C"] by (simp add: mk_meta_fresh)
  then have "set_parent a (cpar C) h1 = Some ?h"
    using n1 fresh a(2) by (simp add: set_parent_def rb_update_def rb_load_def)
  moreover have "rb_frame h1 ?h"
    using n1 by (intro rb_frame_store) auto
  moreover have "trep ?h (plug C (Nd True Lf a (fd n) Lf))"
    using h1(3,4) t fresh notin a by (auto simp: trep_plug node_at_def distinct_plug)
  ultimately show ?thesis
    using h1(1,2) by (auto simp: runs_def intro: rb_frame_trans)
qed

lemma blacken_plug:
  "E \<noteq> [] \<Longrightarrow> \<exists>F. blacken (plug E t) = plug F t \<and> cplace F = cplace E"
proof (induction E t rule: plug.induct)
  case (2 d c a k s C t)
  show ?case
  proof (cases C)
    case Nil
    then show ?thesis by (intro exI [of _ "[Fr d False a k s]"]) simp
  next
    case Cons
    then obtain F where "blacken (plug C (nd d c t a k s)) = plug F (nd d c t a k s)"
      using 2 by auto
    then show ?thesis by (intro exI [of _ "Fr d c a k s # F"]) simp
  qed
qed simp

lemma runs_blacken_root:
  assumes "trep h T" and "T \<noteq> Lf"
  shows "runs (do { r \<leftarrow> deref h Root_ref; set_black r h }) h (\<lambda>T'. T' = blacken T)"
proof -
  obtain c x a k y where T: "T = nd False c x a k y"
    using assms(2) nd_exhaust [where t = T and d = False] by metis
  then have "rb_root h = a"
    using assms(1) by (simp add: trep_def)
  with T show ?thesis
    using runs_set_black [of h "[]" False c x a k y] assms(1) by simp
qed

lemma rb_insert_runs:
  assumes T: "rb_tree h (plug C Lf)"
    and a: "rb_store h a = Some n" "meta n = 1" "left n = NULL" "right n = NULL"
    and fresh: "a \<noteq> NULL" "aligned a" "a \<notin> addrs (plug C Lf)"
  shows "runs (rb_insert a (cplace C) (cpar C) Root_ref h) h
    (\<lambda>T. inorder T = fst (cinorder C) @ (a, fd n) # snd (cinorder C) \<and> invc T \<and> invh T \<and> \<not> red T
      \<and> (\<not> zigzag C \<longrightarrow> (\<exists>E t. T = plug E t \<and> cplace E = cplace C \<and> ptr t = a)))"
    (is "runs _ _ ?Q")
proof -
  let ?t = "nd False True Lf a (fd n) Lf"
  have nt: "Nd True Lf a (fd n) Lf = ?t"
    by (simp add: nd_def)
  have inv: "ctx_ok C (bh ?t)" "invc ?t" "invh ?t"
    using T plug_inv [of C Lf] by (auto simp: rb_tree_def rb_ok_def nd_def)
  have att: "runs (do { h \<leftarrow> assign (cplace C) a h; set_parent a (cpar C) h }) h (\<lambda>T. T = plug C ?t)"
    using runs_attach [OF _ a fresh] T by (simp add: rb_tree_def nt)
  have fx: "runs (do { red \<leftarrow> is_red h1 (cpar C);
      if red then fix_insert a (cpar C) Root_ref h1 else Some h1 }) h1 (fixed C ?t Lf Lf)"
    if h1: "trep h1 (plug C ?t)" for h1
    using fix_insert_runs [OF h1 refl inv] fixed_stop [OF refl inv] trep_cpar_red [OF h1] runs_Some [OF h1]
    by auto
  have fin: "runs (do { r \<leftarrow> deref h2 Root_ref; set_black r h2 }) h2 ?Q"
    if h2: "trep h2 T" and f: "fixed C ?t Lf Lf T" for h2 T
  proof -
    have "T \<noteq> Lf"
      using f by (auto simp: fixed_def inorder_plug inorder_nd)
    moreover have "\<exists>E t. blacken T = plug E t \<and> cplace E = cplace C \<and> ptr t = a" if "\<not> zigzag C"
    proof -
      obtain E where E: "T = plug E ?t" "cplace E = cplace C"
        using f \<open>\<not> zigzag C\<close> by (auto simp: fixed_def)
      show ?thesis
      proof (cases "E = []")
        case True
        then show ?thesis using E by (intro exI [of _ "[]"] exI [of _ "blacken T"]) simp
      next
        case False
        then show ?thesis using E blacken_plug [OF False, of ?t] by (metis ptr_nd)
      qed
    qed
    ultimately show ?thesis
      using runs_blacken_root [OF h2] f
      by (auto simp: fixed_def inorder_plug inorder_nd elim!: runs_mono)
  qed
  have "runs (do { h2 \<leftarrow> (do { red \<leftarrow> is_red h1 (cpar C);
      if red then fix_insert a (cpar C) Root_ref h1 else Some h1 }); r \<leftarrow> deref h2 Root_ref; set_black r h2 }) h1 ?Q"
    if "trep h1 (plug C ?t)" for h1
    by (rule runs_bind_post [OF fx [OF that] fin])
  then show ?thesis
    using runs_bind [OF att, of _ ?Q] by (simp add: rb_insert_def bind_assoc)
qed

end
