(* ===== verification/Rbtree_Delete.thy ===== *)
theory Rbtree_Delete
  imports Rbtree_Insert
begin

text \<open>
  Removal: \<open>fix_delete\<close> restores the black height above a position that has lost one black
  node, and \<open>rb_extract\<close> unlinks a node, keeping the red-black invariants, the search order and
  every other node's contents.
\<close>

section \<open>Rebalancing after a removal\<close>

fun ctop_red :: "frame list \<Rightarrow> bool" where
  "ctop_red [] = False"
| "ctop_red [Fr d c a k s] = c"
| "ctop_red (_ # C) = ctop_red C"

lemma red_plug: "red (plug C t) = (if C = [] then red t else ctop_red C)"
proof (induction C t rule: plug.induct)
  case (2 d c a k s C t)
  then show ?case by (cases C) auto
qed simp

text \<open>The position has black height one less than its context expects.\<close>

definition short :: "frame list \<Rightarrow> rbt \<Rightarrow> bool" where
  "short C t \<longleftrightarrow> invc (blacken t) \<and> invh t \<and> ctx_ok C (Suc (bh t)) \<and> \<not> ctop_red C"

definition repaired :: "frame list \<Rightarrow> rbt \<Rightarrow> rbt \<Rightarrow> bool" where
  "repaired C t T \<longleftrightarrow> inorder T = inorder (plug C t) \<and> invc T \<and> invh T \<and> \<not> red T"

lemma repaired_stop:
  assumes "short C t" and "red t \<or> C = []"
  shows "repaired C t (plug C (blacken t))"
proof -
  have "invc (plug C (blacken t)) \<and> invh (plug C (blacken t))"
    using assms plug_inv [of C "blacken t"] by (auto simp: short_def bh_blacken)
  then show ?thesis
    using assms red_plug [of C "blacken t"] by (auto simp: repaired_def short_def inorder_plug)
qed

lemma fix_delete_stop:
  assumes t: "trep h (plug C t)" and "red t \<or> C = []"
  shows "runs (fix_delete (ptr t) (cpar C) Root_ref h) h (\<lambda>T. T = plug C (blacken t))"
proof (cases "t = Lf")
  case True
  then have "fix_delete (ptr t) (cpar C) Root_ref h = Some h"
    using assms(2) by (subst fix_delete.simps) (simp add: is_red_def)
  then show ?thesis
    using t True by (auto intro: runs_Some)
next
  case False
  obtain c x a k y where n: "t = nd False c x a k y"
    using False nd_exhaust [where t = t and d = False] by metis
  have "fix_delete (ptr t) (cpar C) Root_ref h = set_black (ptr t) h"
    using trep_is_red [OF t] assms trep_ptr_NULL [OF t] False by (subst fix_delete.simps) auto
  then show ?thesis
    using runs_set_black [of h C False c x a k y] t n by simp
qed

lemma fix_delete_unfold:
  assumes t: "trep h (plug (Fr d c b m (nd d cs x a k y) # C) t)" and black: "\<not> red t"
  shows "fix_delete (ptr t) b Root_ref h =
    (if cs
     then do { h \<leftarrow> set_red b h; h \<leftarrow> set_black a h; h \<leftarrow> rb_rotate b d Root_ref h;
               fix_delete (ptr t) b Root_ref h }
     else if \<not> red y \<and> \<not> red x
     then do { h \<leftarrow> set_red a h; p \<leftarrow> get_parent h b; fix_delete b p Root_ref h }
     else do { (q, h) \<leftarrow> (if \<not> red y
                 then do { h \<leftarrow> set_black (ptr x) h; h \<leftarrow> set_red a h;
                           h \<leftarrow> rb_rotate a (\<not> d) Root_ref h;
                           pn \<leftarrow> rb_load h b; Some (child pn (\<not> d), h) }
                 else Some (a, h));
               sn \<leftarrow> rb_load h q;
               h \<leftarrow> set_black (child sn (\<not> d)) h;
               h \<leftarrow> swap_colors b q h;
               rb_rotate b d Root_ref h })"
proof -
  let ?s = "nd d cs x a k y"
  have tb: "trep h (plug C (nd d c t b m ?s))"
    using t by simp
  have ts: "trep h (plug (Fr (\<not> d) c b m t # C) ?s)"
    using tb by (simp add: nd_flip)
  have tx: "trep h (plug (Fr d cs a k y # Fr (\<not> d) c b m t # C) x)"
    and ty: "trep h (plug (Fr (\<not> d) cs a k x # Fr (\<not> d) c b m t # C) y)"
    using ts by (simp_all add: nd_flip)
  obtain bn where bn: "rb_load h b = Some bn" "child bn d = ptr t" "child bn (\<not> d) = a" "b \<noteq> NULL"
    using trep_load [OF tb] by auto
  have "ptr t \<noteq> a"
    using trep_ptr_neq [OF tb] by simp
  then have dir: "(child bn True = ptr t) = d"
    using bn by (cases d) (auto simp: child_def)
  obtain an where an: "rb_load h a = Some an" "child an d = ptr x" "child an (\<not> d) = ptr y"
    using trep_load [OF ts] by auto
  have reds: "is_red h (ptr t) = Some False" "is_red h a = Some cs"
      "is_red h (ptr x) = Some (red x)" "is_red h (ptr y) = Some (red y)"
    using trep_is_red [OF t] trep_is_red [OF ts] trep_is_red [OF tx] trep_is_red [OF ty] black by simp_all
  show ?thesis
    by (subst fix_delete.simps)
      (cases "red y"; simp add: reds bn dir an Let_def split del: if_split cong: if_cong)
qed

text \<open>A red child on the far side of the sibling: one rotation ends the repair.\<close>

lemma fix_delete_far:
  assumes t: "trep h (plug (Fr d c b m (nd d False x a k y) # C) t)" and y: "y = nd e True y1 ya yk y2"
  shows "runs (do { sn \<leftarrow> rb_load h a; h \<leftarrow> set_black (child sn (\<not> d)) h; h \<leftarrow> swap_colors b a h;
                    rb_rotate b d Root_ref h }) h
    (\<lambda>T. T = plug C (nd d c (nd d False t b m x) a k (blacken y)))"
proof -
  have ta: "trep h (plug (Fr (\<not> d) c b m t # C) (nd d False x a k y))"
    using t by (simp add: nd_flip)
  obtain sn where sn: "rb_load h a = Some sn" "child sn (\<not> d) = ya"
    using trep_load [OF ta] y by auto
  have s1: "runs (set_black ya h) h (\<lambda>T. T = plug C (nd d c t b m (nd d False x a k (blacken y))))"
    using runs_set_black [of h "Fr (\<not> d) False a k x # Fr (\<not> d) c b m t # C" e True y1 ya yk y2] ta y
    by (simp add: nd_flip)
  have s2: "runs (swap_colors b a h1) h1 (\<lambda>T. T = plug C (nd d False t b m (nd d c x a k (blacken y))))"
    if "trep h1 (plug C (nd d c t b m (nd d False x a k (blacken y))))" for h1
    using runs_swap_colors that by simp
  have s3: "runs (rb_rotate b d Root_ref h2) h2 (\<lambda>T. T = plug C (nd d c (nd d False t b m x) a k (blacken y)))"
    if "trep h2 (plug C (nd d False t b m (nd d c x a k (blacken y))))" for h2
    using runs_rotate that by simp
  show ?thesis
    using runs_bind [OF s1 runs_bind [OF s2 s3]] sn by simp
qed

text \<open>A red child on the near side only: rotating the sibling first makes it a far one.\<close>

lemma fix_delete_near:
  assumes t: "trep h (plug (Fr d c b m (nd d False (nd d True x1 xa xk x2) a k y) # C) t)"
  obtains h' where "(do { h \<leftarrow> set_black xa h; h \<leftarrow> set_red a h; h \<leftarrow> rb_rotate a (\<not> d) Root_ref h;
      pn \<leftarrow> rb_load h b; Some (child pn (\<not> d), h) }) = Some (xa, h')" "rb_frame h h'"
    "trep h' (plug (Fr d c b m (nd d False x1 xa xk (nd d True x2 a k y)) # C) t)"
proof -
  let ?D = "Fr (\<not> d) c b m t # C"
  have ta: "trep h (plug ?D (nd d False (nd d True x1 xa xk x2) a k y))"
    using t by (simp add: nd_flip)
  have s1: "runs (set_black xa h) h (\<lambda>T. T = plug ?D (nd d False (nd d False x1 xa xk x2) a k y))"
    using runs_set_black [of h "Fr d False a k y # ?D" d True x1 xa xk x2] ta by simp
  have s2: "runs (set_red a h1) h1 (\<lambda>T. T = plug ?D (nd d True (nd d False x1 xa xk x2) a k y))"
    if "trep h1 (plug ?D (nd d False (nd d False x1 xa xk x2) a k y))" for h1
    using runs_set_red [OF that] .
  have s3: "runs (rb_rotate a (\<not> d) Root_ref h2) h2 (\<lambda>T. T = plug ?D (nd d False x1 xa xk (nd d True x2 a k y)))"
    if "trep h2 (plug ?D (nd d True (nd d False x1 xa xk x2) a k y))" for h2
    using runs_rotate [of h2 ?D "\<not> d" True y a k False x2 xa xk x1] that by (simp only: nd_flip)
  obtain h' where h': "(do { h \<leftarrow> set_black xa h; h \<leftarrow> set_red a h; rb_rotate a (\<not> d) Root_ref h }) = Some h'"
      "rb_frame h h'" "trep h' (plug ?D (nd d False x1 xa xk (nd d True x2 a k y)))"
    using runs_bind [OF s1 runs_bind [OF s2 s3]] by (auto simp: runs_def)
  have tb: "trep h' (plug C (nd d c t b m (nd d False x1 xa xk (nd d True x2 a k y))))"
    using h'(3) by (simp add: nd_flip)
  obtain pn where "rb_load h' b = Some pn" "child pn (\<not> d) = xa"
    using trep_load [OF tb] by auto
  then show ?thesis
    using that [of h'] h' tb by (simp add: bind_eq_Some) blast
qed

lemma repaired_far:
  assumes "short (Fr d c b m (nd d False x a k y) # C) t" and "\<not> red t" "red y"
  shows "repaired (Fr d c b m (nd d False x a k y) # C) t (plug C (nd d c (nd d False t b m x) a k (blacken y)))"
proof -
  let ?T = "plug C (nd d c (nd d False t b m x) a k (blacken y))"
  have "invc ?T \<and> invh ?T"
    using assms by (subst plug_inv) (auto simp: short_def bh_nd bh_blacken blacken_black invc_blacken)
  then show ?thesis
    using assms red_plug [of C "nd d c (nd d False t b m x) a k (blacken y)"]
    by (cases C) (auto simp: repaired_def short_def inorder_plug inorder_nd)
qed

text \<open>A black sibling: the rotations, or a black node fewer one level up.\<close>

lemma fix_delete_black_sibling:
  assumes t: "trep h (plug (Fr d c b m (nd d False x a k y) # C) t)" and black: "\<not> red t"
    and short: "short (Fr d c b m (nd d False x a k y) # C) t"
    and cont: "\<And>h1. \<not> red x \<Longrightarrow> \<not> red y \<Longrightarrow> trep h1 (plug C (nd d c t b m (nd d True x a k y))) \<Longrightarrow>
      runs (fix_delete b (cpar C) Root_ref h1) h1 (repaired C (nd d c t b m (nd d True x a k y)))"
  shows "runs (fix_delete (ptr t) b Root_ref h) h (repaired (Fr d c b m (nd d False x a k y) # C) t)"
proof -
  note unf = fix_delete_unfold [OF t black]
  consider (none) "\<not> red y" "\<not> red x" | (far) "red y" | (near) "\<not> red y" "red x" by blast
  then show ?thesis
  proof cases
    case none
    let ?p = "nd d c t b m (nd d True x a k y)"
    have s1: "runs (set_red a h) h (\<lambda>T. T = plug C ?p)"
      using runs_set_red [of h "Fr (\<not> d) c b m t # C" d False x a k y] t by (simp add: nd_flip)
    have s2: "runs (do { p \<leftarrow> get_parent h1 b; fix_delete b p Root_ref h1 }) h1
        (repaired (Fr d c b m (nd d False x a k y) # C) t)" if "trep h1 (plug C ?p)" for h1
      using cont [OF none(2,1) that] trep_get_parent [OF that]
      by (auto simp: repaired_def inorder_plug inorder_nd elim!: runs_mono)
    show ?thesis
      using runs_bind [OF s1 s2] none by (simp add: unf)
  next
    case far
    obtain e y1 ya yk y2 where y: "y = nd e True y1 ya yk y2"
      using far by (rule red_exhaust)
    show ?thesis
      using runs_mono [OF fix_delete_far [OF t y]] repaired_far [OF short black far] far
      by (auto simp: unf)
  next
    case near
    obtain x1 xa xk x2 where x: "x = nd d True x1 xa xk x2"
      using near(2) by (rule red_exhaust)
    let ?C = "Fr d c b m (nd d False x1 xa xk (nd d True x2 a k y)) # C"
    obtain h' where h': "(do { h \<leftarrow> set_black xa h; h \<leftarrow> set_red a h; h \<leftarrow> rb_rotate a (\<not> d) Root_ref h;
        pn \<leftarrow> rb_load h b; Some (child pn (\<not> d), h) }) = Some (xa, h')" "rb_frame h h'" "trep h' (plug ?C t)"
      using fix_delete_near [OF t [unfolded x]] by blast
    have "short ?C t"
      using short near by (cases C) (auto simp: short_def x bh_nd split: if_splits)
    then have "repaired ?C t (plug C (nd d c (nd d False t b m x1) xa xk (nd d False x2 a k y)))"
      using repaired_far [OF _ black] by fastforce
    then have "runs (do { sn \<leftarrow> rb_load h' xa; h \<leftarrow> set_black (child sn (\<not> d)) h';
        h \<leftarrow> swap_colors b xa h; rb_rotate b d Root_ref h }) h' (repaired ?C t)"
      using fix_delete_far [OF h'(3) refl] by (auto elim!: runs_mono)
    then show ?thesis
      using h' near x
      by (auto simp: unf runs_def repaired_def inorder_plug inorder_nd intro: rb_frame_trans)
  qed
qed

lemma fix_delete_runs:
  assumes "trep h (plug C t)" and "short C t"
  shows "runs (fix_delete (ptr t) (cpar C) Root_ref h) h (repaired C t)"
  using assms
proof (induction "length C" arbitrary: C t h rule: less_induct)
  case less
  note t = less.prems(1) and sh = less.prems(2)
  show ?case
  proof (cases "red t \<or> C = []")
    case True
    then show ?thesis
      using runs_mono [OF fix_delete_stop [OF t True]] repaired_stop [OF sh True] by blast
  next
    case False
    then obtain d c b m s C' where C: "C = Fr d c b m s # C'" and black: "\<not> red t"
      by (cases C rule: cplace.cases) auto
    have bt: "blacken t = t"
      using black by (rule blacken_black)
    obtain cs x a k y where s: "s = nd d cs x a k y"
      using sh C nd_exhaust [where t = s and d = d] by (fastforce simp: short_def)
    show ?thesis
    proof (cases cs)
      case False
      have "runs (fix_delete b (cpar C') Root_ref h1) h1 (repaired C' (nd d c t b m (nd d True x a k y)))"
        if "\<not> red x" "\<not> red y" "trep h1 (plug C' (nd d c t b m (nd d True x a k y)))" for h1
      proof -
        have "short C' (nd d c t b m (nd d True x a k y))"
          using sh C s False that(1,2) bt
          by (cases C') (auto simp: short_def bh_nd split: if_splits)
        then show ?thesis
          using less.hyps [OF _ that(3)] C by simp
      qed
      then show ?thesis
        using fix_delete_black_sibling [of h d c b m x a k y C' t] t C s False black sh by simp
    next
      case True
      then have c: "\<not> c" and xs: "\<not> red x" "bh x = Suc (bh t)" "bh y = Suc (bh t)"
        using sh C s by (auto simp: short_def bh_nd)
      then obtain x1 xa xk x2 where x: "x = nd d False x1 xa xk x2"
        using nd_exhaust [where t = x and d = d] by (metis bh.simps(1) nat.distinct(1) red_nd)
      let ?D = "Fr d False a k y # C'"
      let ?E = "Fr d True b m x # ?D"
      have s1: "runs (set_red b h) h (\<lambda>T. T = plug C' (nd d True t b m (nd d True x a k y)))"
        using runs_set_red [of h C' d c t b m s] t C s True by simp
      have s2: "runs (set_black a h1) h1 (\<lambda>T. T = plug C' (nd d True t b m (nd d False x a k y)))"
        if "trep h1 (plug C' (nd d True t b m (nd d True x a k y)))" for h1
        using runs_set_black [of h1 "Fr (\<not> d) True b m t # C'" d True x a k y] that by (simp add: nd_flip)
      have s3: "runs (rb_rotate b d Root_ref h2) h2 (\<lambda>T. T = plug ?E t)"
        if "trep h2 (plug C' (nd d True t b m (nd d False x a k y)))" for h2
        using runs_rotate [OF that] by simp
      have shE: "short ?E t"
        using sh C s True c xs by (cases C') (auto simp: short_def bh_nd)
      have s4: "runs (fix_delete (ptr t) b Root_ref h3) h3 (repaired ?E t)" if h3: "trep h3 (plug ?E t)" for h3
      proof -
        have "runs (fix_delete b (cpar ?D) Root_ref h4) h4 (repaired ?D (nd d True t b m (nd d True x1 xa xk x2)))"
          if "\<not> red x1" "\<not> red x2" "trep h4 (plug ?D (nd d True t b m (nd d True x1 xa xk x2)))" for h4
        proof -
          have "short ?D (nd d True t b m (nd d True x1 xa xk x2))"
            using shE that(1,2) x bt by (auto simp: short_def bh_nd)
          then have "repaired ?D (nd d True t b m (nd d True x1 xa xk x2))
              (plug ?D (blacken (nd d True t b m (nd d True x1 xa xk x2))))"
            by (rule repaired_stop) simp
          then show ?thesis
            using fix_delete_stop [OF that(3)] by (auto elim!: runs_mono)
        qed
        then show ?thesis
          using fix_delete_black_sibling [of h3 d True b m x1 xa xk x2 ?D t] h3 shE black x by simp
      qed
      have "runs (fix_delete (ptr t) b Root_ref h) h (repaired ?E t)"
        using fix_delete_unfold [of h d c b m cs x a k y C' t] t C s black True
          runs_bind [OF s1 runs_bind [OF s2 runs_bind [OF s3 s4]]] by simp
      then show ?thesis
        using C s by (auto simp: repaired_def inorder_plug inorder_nd elim!: runs_mono)
    qed
  qed
qed

end
