(* ===== verification/Rbtree_Extract.thy ===== *)
theory Rbtree_Extract
  imports Rbtree_Delete
begin

text \<open>
  \<open>rb_extract\<close>: unlinking a node with at most one child, and the exchange of a node that has
  two children with its in-order predecessor. \<open>pred_ok\<close> is the condition under which the code
  removes a node correctly; a black predecessor that is the node's own left child breaks the
  tree, because the probe that follows the exchange reports no parent for it.
\<close>

section \<open>Unlinking a node with at most one child\<close>

lemma rb_update_Some:
  "rb_store h a = Some n \<Longrightarrow> a \<noteq> NULL \<Longrightarrow>
   rb_update a f h = Some (h\<lparr>rb_store := (rb_store h)(a \<mapsto> f n)\<rparr>)"
  by (simp add: rb_update_def rb_load_def)

definition only_child :: "rbt \<Rightarrow> rbt \<Rightarrow> rbt" where
  "only_child l r = (if l \<noteq> Lf then l else r)"

lemma splice_exec:
  assumes t: "trep h (plug C (Nd c l a k r))" and one: "l = Lf \<or> r = Lf"
  obtains h' where "rb_splice (cplace C) (cpar C) (ptr (only_child l r)) h = Some h'" "rb_frame h h'"
    "trep h' (plug C (only_child l r))" "rb_store h' a = rb_store h a"
proof -
  let ?s = "only_child l r"
  have sub: "rep (rb_store h) a ?s" "distinct (map fst (inorder ?s))" "a \<notin> addrs ?s"
      "caddrs C \<inter> addrs ?s = {}" "a \<notin> caddrs C" "a \<noteq> NULL" "aligned a"
      "addrs ?s \<subseteq> addrs (Nd c l a k r)"
    using t by (auto simp: only_child_def trep_plug distinct_plug node_at_def)
  have cp: "cpar C \<noteq> a" "cpar C \<notin> addrs ?s"
    using sub rep_not_NULL [OF sub(1)] by (cases C rule: cplace.cases; auto)+
  obtain h1 where h1: "assign (cplace C) (ptr ?s) h = Some h1" "rb_frame h h1"
      "ctxrep (rb_store h1) NULL C (ptr ?s)" "rb_root h1 = croot C (ptr ?s)"
      "\<And>b. b \<noteq> cpar C \<Longrightarrow> rb_store h1 b = rb_store h b"
    using assign_hole [of h C a "ptr ?s"] t by (auto simp: trep_plug distinct_plug)
  have "rep (rb_store h1) a ?s"
    by (rule rep_agree [OF sub(1)], rule h1(5)) (use cp in auto)
  then obtain h2 where h2: "(if ptr ?s \<noteq> NULL then set_parent (ptr ?s) (cpar C) h1 else Some h1) = Some h2"
      "rb_frame h1 h2" "rep (rb_store h2) (cpar C) ?s" "rb_root h2 = rb_root h1"
      "\<And>b. b \<notin> addrs ?s \<Longrightarrow> rb_store h2 b = rb_store h1 b"
    using reparent_subtree [of h1 a ?s] sub by metis
  have "ctxrep (rb_store h2) NULL C (ptr ?s)"
    by (rule ctxrep_agree [OF h1(3)], rule h2(5)) (use sub in auto)
  moreover have "distinct (map fst (inorder (plug C ?s)))"
    using t sub by (auto simp: trep_plug distinct_plug)
  ultimately have "trep h2 (plug C ?s)"
    using h2 h1(4) by (simp add: trep_plug)
  moreover have "rb_store h2 a = rb_store h a"
    using h2(5) [of a] h1(5) [of a] sub cp by simp
  ultimately show ?thesis
    using that [of h2] h1(1,2) h2(1,2) by (auto simp: rb_splice_def intro: rb_frame_trans)
qed

lemma only_child_short:
  assumes "invc (plug C (Nd False l a k r))" "invh (plug C (Nd False l a k r))"
    "\<not> red (plug C (Nd False l a k r))" and "l = Lf \<or> r = Lf"
  shows "short C (only_child l r)"
proof -
  have "ctx_ok C (bh (Nd False l a k r))" "invc (Nd False l a k r)" "invh (Nd False l a k r)"
    using assms plug_inv by blast+
  moreover have "\<not> ctop_red C"
    using assms(3) by (cases "C = []") (auto simp: red_plug)
  ultimately show ?thesis
    using assms(4) by (auto simp: short_def only_child_def invc_blacken)
qed

lemma only_child_red:
  assumes "invc (plug C (Nd True l a k r))" "invh (plug C (Nd True l a k r))"
    "\<not> red (plug C (Nd True l a k r))" and "l = Lf \<or> r = Lf"
  shows "repaired C (only_child l r) (plug C (only_child l r))"
proof -
  have ok: "ctx_ok C (bh (Nd True l a k r))" "invc (Nd True l a k r)" "invh (Nd True l a k r)" "\<not> ctx_red C"
    using assms plug_inv [of C "Nd True l a k r"] by auto
  then have "invc (plug C (only_child l r)) \<and> invh (plug C (only_child l r))"
    using assms(4) by (subst plug_inv) (auto simp: only_child_def)
  moreover have "\<not> red (plug C (only_child l r))"
    using assms(3) by (auto simp: red_plug)
  ultimately show ?thesis
    by (simp add: repaired_def)
qed

lemma unlink_runs:
  assumes t: "trep h (plug C (Nd c l a k r))" and one: "l = Lf \<or> r = Lf"
    and inv: "invc (plug C (Nd c l a k r))" "invh (plug C (Nd c l a k r))" "\<not> red (plug C (Nd c l a k r))"
  shows "runs (rb_unlink a (cplace C) (cpar C) Root_ref h) h (repaired C (only_child l r))"
proof -
  obtain n where n: "rb_load h a = Some n" "child n False = ptr l" "child n True = ptr r"
      "meta n = mk_meta (cpar C) c" "a \<noteq> NULL" "rb_store h a = Some n"
    using trep_load [of h C False c l a k r] t by (auto simp: nd_def)
  have "ptr l = NULL \<longleftrightarrow> l = Lf"
    using t by (auto simp: trep_plug rep_ptr_NULL)
  then have son: "(if child n LEFT \<noteq> NULL then child n LEFT else child n RIGHT) = ptr (only_child l r)"
    using n by (simp add: only_child_def)
  obtain h1 where h1: "rb_splice (cplace C) (cpar C) (ptr (only_child l r)) h = Some h1" "rb_frame h h1"
      "trep h1 (plug C (only_child l r))" "rb_store h1 a = rb_store h a"
    using splice_exec [OF t one] by metis
  have "is_red h1 a = Some c"
    using h1(4) n trep_aligned_cpar [OF t] by (simp add: is_red_def rb_load_def)
  then have "rb_unlink a (cplace C) (cpar C) Root_ref h =
      (if \<not> c then fix_delete (ptr (only_child l r)) (cpar C) Root_ref h1 else Some h1)"
    using n son h1(1) by (simp add: rb_unlink_def Let_def)
  moreover have "runs (if \<not> c then fix_delete (ptr (only_child l r)) (cpar C) Root_ref h1 else Some h1) h1
      (repaired C (only_child l r))"
    using fix_delete_runs [OF h1(3)] only_child_short [of C l a k r] only_child_red [of C l a k r]
      runs_Some [OF h1(3)] inv one by (cases c) auto
  ultimately show ?thesis
    using h1(2) by (auto simp: runs_def intro: rb_frame_trans)
qed

section \<open>Finding the predecessor\<close>

fun spine :: "frame list \<Rightarrow> bool" where
  "spine [] = True"
| "spine (Fr d c a k s # D) = (d \<and> spine D)"

lemma spine_append [simp]: "spine (C @ D) \<longleftrightarrow> spine C \<and> spine D"
  by (induction C rule: spine.induct) auto

lemma rightmost_spine:
  assumes "trep h (plug C t)" and "t \<noteq> Lf"
  shows "\<exists>D cp pl p kp. t = plug D (Nd cp pl p kp Lf) \<and> spine D \<and> rightmost h (cplace C) = Some (cplace (D @ C))"
  using assms
proof (induction t arbitrary: C)
  case (Nd c l a k r)
  have r: "trep h (plug (Fr True c a k l # C) r)"
    using Nd.prems(1) by (simp add: nd_def)
  obtain n where n: "rb_load h a = Some n" "right n = ptr r"
    using trep_load [of h C False c l a k r] Nd.prems(1) by (auto simp: nd_def child_def)
  have step: "rightmost h (cplace C) = (if ptr r \<noteq> NULL then rightmost h (Child_ref a True) else Some (cplace C))"
    using trep_deref [OF Nd.prems(1)] n by (subst rightmost.simps) simp
  show ?case
  proof (cases "r = Lf")
    case True
    then show ?thesis
      using step by (intro exI [of _ "[]"]) simp
  next
    case False
    then obtain D cp pl p kp where D: "r = plug D (Nd cp pl p kp Lf)" "spine D"
        "rightmost h (cplace (Fr True c a k l # C)) = Some (cplace (D @ Fr True c a k l # C))"
      using Nd.IH(2) [OF r] by metis
    moreover have "ptr r \<noteq> NULL"
      using trep_ptr_NULL [OF r] False by simp
    ultimately show ?thesis
      using step by (intro exI [of _ "D @ [Fr True c a k l]"] exI [of _ cp] exI [of _ pl] exI [of _ p] exI [of _ kp])
        (simp add: plug_append nd_def)
  qed
qed simp

lemma cparent_snoc: "cparent q (D @ [Fr d c a k s]) = cparent a D"
  by (cases D rule: cplace.cases) auto

lemma locate_spine:
  assumes "spine D" and "\<forall>x \<in> set (fst (cinorder D)). snd x < key"
  shows "locate key C q (plug D (Nd c l a key r)) = (D @ C, cparent q D, Nd c l a key r)"
  using assms
proof (induction D arbitrary: C q rule: rev_induct)
  case (snoc f D)
  obtain c' b m s where f: "f = Fr True c' b m s"
    using snoc.prems(1) by (cases f) auto
  have "set (fst (cinorder (D @ [f]))) \<supseteq> insert (b, m) (set (fst (cinorder D)))"
    using snoc.prems(1) f by (induction D rule: spine.induct) (auto split: prod.splits)
  then have "m < key" "\<forall>x \<in> set (fst (cinorder D)). snd x < key"
    using snoc.prems(2) by auto
  then show ?case
    using snoc f by (simp add: plug_append nd_def cparent_snoc)
qed simp

section \<open>The exchange with the predecessor\<close>

text \<open>The tree around a node \<open>a\<close> and its predecessor \<open>p\<close>, and the same tree after the exchange.\<close>

abbreviation with_pred ::
  "frame list \<Rightarrow> bool \<Rightarrow> frame list \<Rightarrow> bool \<Rightarrow> rbt \<Rightarrow> addr \<Rightarrow> int \<Rightarrow> addr \<Rightarrow> int \<Rightarrow> rbt \<Rightarrow> rbt"
where
  "with_pred C c D cp pl p kp a k r \<equiv> plug C (Nd c (plug D (Nd cp pl p kp Lf)) a k r)"

lemma exchange_apart:
  assumes t: "trep h (with_pred C c D cp pl p kp a k r)"
  shows "p \<noteq> a" "p \<notin> addrs pl \<union> addrs r \<union> caddrs D \<union> caddrs C"
    "a \<notin> addrs pl \<union> addrs r \<union> caddrs D \<union> caddrs C"
    "addrs pl \<inter> (addrs r \<union> caddrs D \<union> caddrs C) = {}" "addrs r \<inter> (caddrs D \<union> caddrs C) = {}"
    "caddrs D \<inter> caddrs C = {}"
    "cpar C \<noteq> a" "cpar C \<noteq> p" "cpar C \<notin> addrs pl \<union> addrs r \<union> caddrs D"
    "D \<noteq> [] \<Longrightarrow> cpar D \<in> caddrs D"
    "distinct (map fst (fst (cinorder D) @ snd (cinorder D)))"
    "distinct (map fst (fst (cinorder C) @ snd (cinorder C)))"
    "distinct (map fst (inorder pl))" "distinct (map fst (inorder r))"
proof -
  let ?X = "Nd cp pl p kp Lf"
  have d: "distinct (map fst (inorder (plug C (Nd c (plug D ?X) a k r))))"
    using t by (simp add: trep_def)
  show dd: "p \<noteq> a" "p \<notin> addrs pl \<union> addrs r \<union> caddrs D \<union> caddrs C"
    "a \<notin> addrs pl \<union> addrs r \<union> caddrs D \<union> caddrs C"
    "addrs pl \<inter> (addrs r \<union> caddrs D \<union> caddrs C) = {}" "addrs r \<inter> (caddrs D \<union> caddrs C) = {}"
    "caddrs D \<inter> caddrs C = {}"
    "distinct (map fst (fst (cinorder D) @ snd (cinorder D)))"
    "distinct (map fst (fst (cinorder C) @ snd (cinorder C)))"
    "distinct (map fst (inorder pl))" "distinct (map fst (inorder r))"
    using d distinct_plug [of D ?X] by (auto simp: distinct_plug addrs_plug)
  show "D \<noteq> [] \<Longrightarrow> cpar D \<in> caddrs D"
    by (cases D rule: cplace.cases) auto
  have "NULL \<notin> addrs (plug C (Nd c (plug D ?X) a k r))"
    using t rep_not_NULL by (auto simp: trep_def)
  moreover have "cpar C \<in> insert NULL (caddrs C)"
    by (cases C rule: cplace.cases) auto
  ultimately show "cpar C \<noteq> a" "cpar C \<noteq> p" "cpar C \<notin> addrs pl \<union> addrs r \<union> caddrs D"
    using dd by (auto simp: addrs_plug)
qed

text \<open>The memory after the colours, the parents and the links from above have been exchanged.\<close>

lemma swap_colors_store:
  assumes "rb_store h a = Some na" "meta na = mk_meta q c" "rb_store h p = Some np" "meta np = mk_meta q' c'"
    and "aligned q" "aligned q'" "a \<noteq> NULL" "p \<noteq> NULL" "p \<noteq> a"
  shows "swap_colors p a h = Some (h\<lparr>rb_store := (rb_store h)
    (p \<mapsto> np\<lparr>meta := mk_meta q' c\<rparr>, a \<mapsto> na\<lparr>meta := mk_meta q c'\<rparr>)\<rparr>)"
  using assms by (simp add: swap_colors_def rb_update_def rb_load_def Let_def)

lemma rb_frame_store2:
  "rb_store h a = Some n \<Longrightarrow> rb_store h b = Some m \<Longrightarrow> payload n' = payload n \<Longrightarrow> payload m' = payload m \<Longrightarrow>
   rb_frame h (h\<lparr>rb_store := (rb_store h)(a \<mapsto> n', b \<mapsto> m')\<rparr>)"
  by (auto simp: rb_frame_def fun_eq_iff)

text \<open>Half-way through, both nodes' left sides are in place and \<open>r\<close> still hangs below \<open>a\<close>.\<close>

definition half_swapped ::
  "rb_heap \<Rightarrow> frame list \<Rightarrow> bool \<Rightarrow> frame list \<Rightarrow> bool \<Rightarrow> rbt \<Rightarrow> addr \<Rightarrow> int \<Rightarrow> addr \<Rightarrow> int \<Rightarrow> rbt \<Rightarrow> bool"
where
  "half_swapped h C c D cp pl p kp a k r \<longleftrightarrow>
     ctxrep (rb_store h) NULL C p \<and> rb_root h = croot C p
     \<and> node_at (rb_store h) p (cpar C) c kp (ptr (plug D (Nd cp pl a k r))) NULL
     \<and> rep (rb_store h) p (plug D (Nd cp pl a k r))"

lemma swap_right_exec:
  assumes t: "trep h0 (with_pred C c D cp pl p kp a k r)" and half: "half_swapped h C c D cp pl p kp a k r"
  obtains h' where "swap_right a p h = Some h'" "rb_frame h h'"
    "trep h' (with_pred C c D cp pl a k p kp r)"
proof -
  note ap = exchange_apart [OF t]
  let ?s = "rb_store h"
  have pieces: "ctxrep ?s p D a" "rep ?s a pl" "rep ?s a r" "node_at ?s a (cparent p D) cp k (ptr pl) (ptr r)"
      "ctxrep ?s NULL C p" "node_at ?s p (cpar C) c kp (croot D a) NULL"
    using half by (auto simp: half_swapped_def rep_plug ptr_plug)
  obtain na np where n: "?s a = Some na" "right na = ptr r" "a \<noteq> NULL" "aligned a" "?s p = Some np" "p \<noteq> NULL"
    using pieces(4,6) by (auto simp: node_at_def)
  define h1 where "h1 = h\<lparr>rb_store := ?s(a \<mapsto> na\<lparr>right := NULL\<rparr>, p \<mapsto> np\<lparr>right := ptr r\<rparr>)\<rparr>"
  have f1: "rb_frame h h1"
    unfolding h1_def by (rule rb_frame_store2) (use n in auto)
  have s1: "ctxrep (rb_store h1) p D a" "rep (rb_store h1) a pl" "rep (rb_store h1) a r"
      "node_at (rb_store h1) a (cparent p D) cp k (ptr pl) NULL" "ctxrep (rb_store h1) NULL C p"
      "node_at (rb_store h1) p (cpar C) c kp (croot D a) (ptr r)"
    using pieces ap n by (auto simp: h1_def node_at_def)
  obtain h2 where h2: "(if ptr r \<noteq> NULL then set_parent (ptr r) p h1 else Some h1) = Some h2" "rb_frame h1 h2"
      "rep (rb_store h2) p r" "rb_root h2 = rb_root h1"
      "\<And>b. b \<notin> addrs r \<Longrightarrow> rb_store h2 b = rb_store h1 b"
    using reparent_subtree [of h1 a r p] s1(3) ap n by metis
  have same: "rb_store h2 b = rb_store h1 b" if "b \<in> insert a (insert p (addrs pl \<union> caddrs D \<union> caddrs C))" for b
    using that ap by (intro h2(5)) auto
  have "rep (rb_store h2) p (plug D (Nd cp pl a k Lf))"
    using ctxrep_agree [OF s1(1), of "rb_store h2"] rep_agree [OF s1(2), of "rb_store h2"] s1(4) same [of a] same
    by (auto simp: rep_plug node_at_def)
  moreover have "ctxrep (rb_store h2) NULL C p"
    using ctxrep_agree [OF s1(5)] same by simp
  moreover have "node_at (rb_store h2) p (cpar C) c kp (croot D a) (ptr r)"
    using s1(6) same [of p] by (simp add: node_at_def)
  moreover have "distinct (map fst (inorder (with_pred C c D cp pl a k p kp r)))"
    using t by (auto simp: trep_plug inorder_plug)
  ultimately have "trep h2 (with_pred C c D cp pl a k p kp r)"
    using h2(3,4) half by (simp add: trep_plug ptr_plug half_swapped_def h1_def)
  moreover have "swap_right a p h = Some h2"
    using n h2(1) [unfolded h1_def] ap(1)
    by (auto simp: swap_right_def rb_update_def rb_load_def Let_def split: if_splits)
  ultimately show ?thesis
    using that f1 h2(2) rb_frame_trans by metis
qed

text \<open>The predecessor is further down than the left child: first the parents and the links from above.\<close>

lemma pred_pieces:
  assumes t: "trep h (with_pred C c D cp pl p kp a k r)" and D: "D \<noteq> []"
  obtains na np where "ctxrep (rb_store h) a D p" "rep (rb_store h) a r" "rep (rb_store h) p pl"
    "ctxrep (rb_store h) NULL C a" "rb_root h = croot C a"
    "rb_store h a = Some na" "meta na = mk_meta (cpar C) c" "fd na = k" "left na = croot D p" "right na = ptr r"
    "rb_store h p = Some np" "meta np = mk_meta (cpar D) cp" "fd np = kp" "left np = ptr pl" "right np = NULL"
    "aligned (cpar C)" "aligned (cpar D)" "aligned a" "aligned p" "a \<noteq> NULL" "p \<noteq> NULL"
proof -
  have pD: "cparent a D = cpar D"
    using D by (cases D rule: cplace.cases) simp_all
  have c: "ctxrep (rb_store h) a D p" "rep (rb_store h) a r" "rep (rb_store h) p pl"
      "ctxrep (rb_store h) NULL C a" "rb_root h = croot C a"
      "node_at (rb_store h) a (cpar C) c k (croot D p) (ptr r)"
      "node_at (rb_store h) p (cpar D) cp kp (ptr pl) NULL"
    using t by (auto simp: trep_plug rep_plug ptr_plug pD)
  moreover have "aligned (cpar C)" "aligned (cpar D)"
    using ctxrep_cparent [OF c(4)] ctxrep_cparent [OF c(1)] c(6) pD by (auto simp: node_at_def)
  ultimately show ?thesis
    using that by (auto simp: node_at_def)
qed

lemma swap_apart_links:
  assumes t: "trep h0 (with_pred C c D cp pl p kp a k r)" and D: "D \<noteq> []"
    and na: "rb_store h0 a = Some na" and np: "rb_store h0 p = Some np"
    and h: "h = h0\<lparr>rb_store := (rb_store h0)
      (p \<mapsto> np\<lparr>meta := mk_meta (cpar D) c\<rparr>, a \<mapsto> na\<lparr>meta := mk_meta (cpar C) cp\<rparr>)\<rparr>"
  obtains h' where "do { pp \<leftarrow> get_parent h p; h \<leftarrow> set_parent a pp h; h \<leftarrow> set_parent p (cpar C) h;
      h \<leftarrow> assign (cplace C) p h; assign (cplace D) a h } = Some h'" "rb_frame h h'"
    "ctxrep (rb_store h') NULL C p" "rb_root h' = croot C p" "ctxrep (rb_store h') a D a"
    "rb_store h' a = Some (na\<lparr>meta := mk_meta (cpar D) cp\<rparr>)"
    "rb_store h' p = Some (np\<lparr>meta := mk_meta (cpar C) c\<rparr>)"
    "rep (rb_store h') a r" "rep (rb_store h') p pl"
proof -
  note ap = exchange_apart [OF t]
  have pieces: "ctxrep (rb_store h0) a D p" "rep (rb_store h0) a r" "rep (rb_store h0) p pl"
      "ctxrep (rb_store h0) NULL C a" "rb_root h0 = croot C a"
    and al: "aligned (cpar C)" "aligned (cpar D)" "a \<noteq> NULL" "p \<noteq> NULL"
    by (rule pred_pieces [OF t D], assumption)+
  define h2 where "h2 = h0\<lparr>rb_store := (rb_store h0)
    (p \<mapsto> np\<lparr>meta := mk_meta (cpar C) c\<rparr>, a \<mapsto> na\<lparr>meta := mk_meta (cpar D) cp\<rparr>)\<rparr>"
  have "rb_frame h h0" "rb_frame h0 h2"
    using rb_frame_store2 [OF np na] by (simp_all add: h h2_def rb_frame_def)
  then have f2: "rb_frame h h2"
    by (rule rb_frame_trans)
  have r2: "do { pp \<leftarrow> get_parent h p; h \<leftarrow> set_parent a pp h; set_parent p (cpar C) h } = Some h2"
    using al ap(1) na np
    by (auto simp: h h2_def get_parent_def set_parent_def rb_update_def rb_load_def fun_upd_twist)
  have s2: "ctxrep (rb_store h2) NULL C a" "rb_root h2 = croot C a" "ctxrep (rb_store h2) a D p"
      "rep (rb_store h2) a r" "rep (rb_store h2) p pl"
    using pieces ap(2,3) by (auto simp: h2_def)
  obtain h3 where h3: "assign (cplace C) p h2 = Some h3" "rb_frame h2 h3" "ctxrep (rb_store h3) NULL C p"
      "rb_root h3 = croot C p" "\<And>b. b \<noteq> cpar C \<Longrightarrow> rb_store h3 b = rb_store h2 b"
    using assign_hole [OF s2(1,2) ap(12)] by metis
  have same3: "rb_store h3 b = rb_store h2 b" if "b \<in> insert a (insert p (addrs pl \<union> addrs r \<union> caddrs D))" for b
    using that ap(7-9) by (intro h3(5)) auto
  have "ctxrep (rb_store h3) a D p"
    using same3 by (intro ctxrep_agree [OF s2(3)]) auto
  then obtain h4 where h4: "assign (cplace D) a h3 = Some h4" "rb_frame h3 h4" "ctxrep (rb_store h4) a D a"
      "rb_root h4 = rb_root h3" "\<And>b. b \<noteq> cpar D \<Longrightarrow> rb_store h4 b = rb_store h3 b"
    using assign_sub_hole [OF _ D ap(11)] by metis
  have same4: "rb_store h4 b = rb_store h3 b" if "b \<notin> caddrs D" for b
    using that ap(10) [OF D] by (intro h4(5)) auto
  have same: "rb_store h4 b = rb_store h2 b" if "b \<in> insert a (insert p (addrs pl \<union> addrs r))" for b
    using that same3 same4 ap(2-5) by (subst same4) auto
  have "ctxrep (rb_store h4) NULL C p"
    using same4 ap(6) by (intro ctxrep_agree [OF h3(3)]) auto
  moreover have "rep (rb_store h4) a r" "rep (rb_store h4) p pl"
    using same by (auto intro: rep_agree [OF s2(4)] rep_agree [OF s2(5)])
  moreover have "rb_frame h h4"
    using f2 h3(2) h4(2) rb_frame_trans by blast
  ultimately show ?thesis
    using that [of h4] r2 h3(1,4) h4(1,3,4) same [of a] same [of p] ap(1)
    by (auto simp: h2_def bind_eq_Some)
qed

text \<open>Then the left children and their parents.\<close>

lemma swap_apart_split:
  "swap_apart a p pred_loc place parent h =
     do { h \<leftarrow> do { pp \<leftarrow> get_parent h p; h \<leftarrow> set_parent a pp h; h \<leftarrow> set_parent p parent h;
                  h \<leftarrow> assign place p h; assign pred_loc a h };
          cn \<leftarrow> rb_load h a;
          pn \<leftarrow> rb_load h p;
          h \<leftarrow> rb_update a (\<lambda>n. n\<lparr>left := left pn\<rparr>) h;
          h \<leftarrow> rb_update p (\<lambda>n. n\<lparr>left := left cn\<rparr>) h;
          cn' \<leftarrow> rb_load h a;
          h \<leftarrow> (if left cn' \<noteq> NULL then set_parent (left cn') a h else Some h);
          set_parent (left cn) p h }"
  by (simp add: swap_apart_def Let_def)

lemma croot_caddrs: "D \<noteq> [] \<Longrightarrow> croot D x \<in> caddrs D"
proof (induction D x rule: croot.induct)
  case (2 d c a k t C x)
  then show ?case by (cases C) auto
qed simp

lemma exchange_left:
  assumes t: "trep h (with_pred C c D cp pl p kp a k r)" and D: "D \<noteq> []"
  shows "ptr (plug D (Nd cp pl a k r)) = croot D p" "a \<in> addrs (plug D (Nd cp pl a k r))"
    "p \<notin> addrs (plug D (Nd cp pl a k r))" "caddrs C \<inter> addrs (plug D (Nd cp pl a k r)) = {}"
    "distinct (map fst (inorder (plug D (Nd cp pl a k r))))" "ptr (plug D (Nd cp pl a k r)) \<noteq> NULL"
    "croot D p \<noteq> p"
proof -
  note ap = exchange_apart [OF t]
  show r: "ptr (plug D (Nd cp pl a k r)) = croot D p"
    using croot_Cons [OF D] by (simp add: ptr_plug)
  have c: "croot D p \<in> caddrs D"
    by (rule croot_caddrs [OF D])
  have "NULL \<notin> addrs (with_pred C c D cp pl p kp a k r)"
    using t rep_not_NULL by (metis trep_def)
  then have "NULL \<notin> caddrs D"
    by (simp add: addrs_plug)
  with c r ap show "ptr (plug D (Nd cp pl a k r)) \<noteq> NULL" "croot D p \<noteq> p"
    by auto
  show "a \<in> addrs (plug D (Nd cp pl a k r))" "p \<notin> addrs (plug D (Nd cp pl a k r))"
    "caddrs C \<inter> addrs (plug D (Nd cp pl a k r)) = {}"
    "distinct (map fst (inorder (plug D (Nd cp pl a k r))))"
    using ap by (auto simp: addrs_plug distinct_plug)
qed

lemma swap_apart_exec:
  assumes t: "trep h0 (with_pred C c D cp pl p kp a k r)" and D: "D \<noteq> []"
    and na: "rb_store h0 a = Some na" and np: "rb_store h0 p = Some np"
    and h: "h = h0\<lparr>rb_store := (rb_store h0)
      (p \<mapsto> np\<lparr>meta := mk_meta (cpar D) c\<rparr>, a \<mapsto> na\<lparr>meta := mk_meta (cpar C) cp\<rparr>)\<rparr>"
  obtains h' where "swap_apart a p (cplace D) (cplace C) (cpar C) h = Some h'" "rb_frame h h'"
    "half_swapped h' C c D cp pl p kp a k r"
proof -
  note ap = exchange_apart [OF t]
  have n: "fd na = k" "left na = croot D p" "right na = ptr r" "fd np = kp" "left np = ptr pl" "right np = NULL"
      "aligned a" "aligned p" "a \<noteq> NULL" "p \<noteq> NULL" "ptr pl \<noteq> NULL \<longleftrightarrow> pl \<noteq> Lf"
    by (rule pred_pieces [OF t D], use na np in \<open>simp add: rep_ptr_NULL\<close>)+
  obtain h4 where r4: "do { pp \<leftarrow> get_parent h p; h \<leftarrow> set_parent a pp h; h \<leftarrow> set_parent p (cpar C) h;
      h \<leftarrow> assign (cplace C) p h; assign (cplace D) a h } = Some h4" "rb_frame h h4"
    and c4: "ctxrep (rb_store h4) NULL C p" "rb_root h4 = croot C p" "ctxrep (rb_store h4) a D a"
    and s4: "rb_store h4 a = Some (na\<lparr>meta := mk_meta (cpar D) cp\<rparr>)"
      "rb_store h4 p = Some (np\<lparr>meta := mk_meta (cpar C) c\<rparr>)"
      "rep (rb_store h4) a r" "rep (rb_store h4) p pl"
    by (rule swap_apart_links [OF t D na np h])
  let ?L = "plug D (Nd cp pl a k r)"
  have L: "ptr ?L = croot D p" "a \<in> addrs ?L" "p \<notin> addrs ?L" "caddrs C \<inter> addrs ?L = {}"
      "distinct (map fst (inorder ?L))" "ptr ?L \<noteq> NULL"
    using exchange_left [OF t D] by blast+
  define h5 where "h5 = h4\<lparr>rb_store := (rb_store h4)(a \<mapsto> na\<lparr>meta := mk_meta (cpar D) cp, left := ptr pl\<rparr>,
    p \<mapsto> np\<lparr>meta := mk_meta (cpar C) c, left := croot D p\<rparr>)\<rparr>"
  have f5: "rb_frame h4 h5"
    unfolding h5_def by (rule rb_frame_store2 [OF s4(1,2)]) simp_all
  have "rep (rb_store h5) p pl"
    using s4(4) ap(2,3) by (simp add: h5_def)
  then obtain h6 where h6: "(if ptr pl \<noteq> NULL then set_parent (ptr pl) a h5 else Some h5) = Some h6" "rb_frame h5 h6"
      "rep (rb_store h6) a pl" "rb_root h6 = rb_root h5" "\<And>b. b \<notin> addrs pl \<Longrightarrow> rb_store h6 b = rb_store h5 b"
    using reparent_subtree [of h5 p pl a] n(8) ap(13) by metis
  have same6: "rb_store h6 b = rb_store h4 b" if "b \<in> addrs r \<union> caddrs D \<union> caddrs C" for b
    using that ap(2-4) by (subst h6(5)) (auto simp: h5_def)
  have same6': "rb_store h6 b = rb_store h5 b" if "b \<in> {a, p}" for b
    using that ap(2,3) by (intro h6(5)) auto
  have "cparent a D = cpar D"
    using D by (cases D rule: cplace.cases) simp_all
  then have "rep (rb_store h6) a ?L"
    using ctxrep_agree [OF c4(3), of "rb_store h6"] rep_agree [OF s4(3), of "rb_store h6"] same6 same6' [of a]
      h6(3) n ap(1) by (auto simp: rep_plug node_at_def h5_def)
  then obtain h7 where h7: "set_parent (ptr ?L) p h6 = Some h7" "rb_frame h6 h7" "rep (rb_store h7) p ?L"
      "rb_root h7 = rb_root h6" "\<And>b. b \<notin> addrs ?L \<Longrightarrow> rb_store h7 b = rb_store h6 b"
    using reparent_subtree [of h6 a ?L p] n(7) L by metis
  have "ctxrep (rb_store h7) NULL C p"
    using h7(5) same6 L(4) by (intro ctxrep_agree [OF c4(1)]) (auto simp: disjoint_iff)
  moreover have "node_at (rb_store h7) p (cpar C) c kp (ptr ?L) NULL"
    using h7(5) [of p] L same6' [of p] n by (simp add: node_at_def h5_def)
  ultimately have "half_swapped h7 C c D cp pl p kp a k r"
    using h7(3,4) h6(4) c4(2) by (simp add: half_swapped_def h5_def)
  moreover have "swap_apart a p (cplace D) (cplace C) (cpar C) h = Some h7"
    using s4(1,2) n h6(1) [unfolded h5_def] h7(1) ap(1) L(1)
    by (auto simp: swap_apart_split r4(1) rb_update_def rb_load_def Let_def split: if_splits)
  moreover have "rb_frame h h7"
    using r4(2) f5 h6(2) h7(2) rb_frame_trans by blast
  ultimately show ?thesis
    by (rule that [rotated 2])
qed

text \<open>The predecessor is the left child itself.\<close>

lemma swap_adjacent_exec:
  assumes t: "trep h0 (with_pred C c [] cp pl p kp a k r)"
    and na: "rb_store h0 a = Some na" and np: "rb_store h0 p = Some np"
    and h: "h = h0\<lparr>rb_store := (rb_store h0)
      (p \<mapsto> np\<lparr>meta := mk_meta a c\<rparr>, a \<mapsto> na\<lparr>meta := mk_meta (cpar C) cp\<rparr>)\<rparr>"
  obtains h' where "swap_adjacent a p (cplace C) (cpar C) h = Some h'" "rb_frame h h'"
    "half_swapped h' C c [] cp pl p kp a k r"
proof -
  note ap = exchange_apart [OF t]
  have n: "fd na = k" "right na = ptr r" "fd np = kp" "left np = ptr pl" "right np = NULL"
      "aligned a" "aligned p" "a \<noteq> NULL" "p \<noteq> NULL" "aligned (cpar C)"
    and c0: "ctxrep (rb_store h0) NULL C a" "rb_root h0 = croot C a"
      "rep (rb_store h0) a r" "rep (rb_store h0) p pl"
    using t na np trep_aligned_cpar [OF t] by (auto simp: trep_plug node_at_def)
  have "ctxrep (rb_store h) NULL C a" "rb_root h = croot C a"
    using c0 ap(2,3) by (auto simp: h)
  then obtain h1 where h1: "assign (cplace C) p h = Some h1" "rb_frame h h1" "ctxrep (rb_store h1) NULL C p"
      "rb_root h1 = croot C p" "\<And>b. b \<noteq> cpar C \<Longrightarrow> rb_store h1 b = rb_store h b"
    using assign_hole [OF _ _ ap(12)] by metis
  have same1: "rb_store h1 b = rb_store h b" if "b \<in> insert a (insert p (addrs pl \<union> addrs r))" for b
    using that ap(7-9) by (intro h1(5)) auto
  define h2 where "h2 = h1\<lparr>rb_store := (rb_store h1)(p \<mapsto> np\<lparr>meta := mk_meta (cpar C) c, left := a\<rparr>,
    a \<mapsto> na\<lparr>meta := mk_meta p cp, left := ptr pl\<rparr>)\<rparr>"
  have f2: "rb_frame h1 h2"
    using rb_frame_store2 [of h1 p _ a] same1 [of p] same1 [of a] h ap(1) by (simp add: h2_def)
  have "rep (rb_store h) a r" "rep (rb_store h) p pl"
    using c0 ap(2,3) by (simp_all add: h)
  then have "rep (rb_store h1) a r" "rep (rb_store h1) p pl"
    using same1 by (auto elim: rep_agree)
  then have s2: "rep (rb_store h2) a r" "rep (rb_store h2) p pl"
    using ap(2,3) by (simp_all add: h2_def)
  obtain h3 where h3: "(if ptr pl \<noteq> NULL then set_parent (ptr pl) a h2 else Some h2) = Some h3" "rb_frame h2 h3"
      "rep (rb_store h3) a pl" "rb_root h3 = rb_root h2" "\<And>b. b \<notin> addrs pl \<Longrightarrow> rb_store h3 b = rb_store h2 b"
    using reparent_subtree [of h2 p pl a] s2(2) n(7) ap(13) by metis
  have "rep (rb_store h3) a r"
    using h3(5) ap(4) by (intro rep_agree [OF s2(1)]) auto
  moreover have "rb_store h3 b = rb_store h1 b" if "b \<in> caddrs C" for b
  proof -
    have "b \<notin> addrs pl" "b \<noteq> a" "b \<noteq> p"
      using that ap(2-4) by auto
    with h3(5) [of b] show ?thesis by (simp add: h2_def)
  qed
  then have "ctxrep (rb_store h3) NULL C p"
    by (rule ctxrep_agree [OF h1(3)])
  ultimately have "half_swapped h3 C c [] cp pl p kp a k r"
    using h3(3,4) h1(4) h3(5) [of a] h3(5) [of p] ap(1-3) n
    by (auto simp: half_swapped_def h2_def node_at_def)
  moreover have "swap_adjacent a p (cplace C) (cpar C) h = Some h3"
    using h1(1) same1 [of a] same1 [of p] n h3(1) [unfolded h2_def] ap(1)
    by (auto simp: swap_adjacent_def set_parent_def rb_update_def rb_load_def Let_def h fun_upd_twist
        split: if_splits)
  moreover have "rb_frame h h3"
    using h1(2) f2 h3(2) rb_frame_trans by blast
  ultimately show ?thesis
    by (rule that [rotated 2])
qed

lemma swap_with_pred_exec:
  assumes t: "trep h (plug C (Nd c l a k r))" and "l \<noteq> Lf"
  obtains D cp pl p kp h' where "l = plug D (Nd cp pl p kp Lf)" "spine D"
    "swap_with_pred a (cplace C) (cpar C) h = Some (p, h')" "rb_frame h h'"
    "trep h' (with_pred C c D cp pl a k p kp r)"
proof -
  let ?F = "Fr False c a k r # C"
  have tl: "trep h (plug ?F l)"
    using t by (simp add: nd_def)
  obtain D cp pl p kp where l: "l = plug D (Nd cp pl p kp Lf)" "spine D"
      and pr: "predecessor h a = Some (cplace (D @ ?F))"
    using rightmost_spine [OF tl assms(2)] by (auto simp: predecessor_def)
  have tp: "trep h (plug (D @ ?F) (Nd cp pl p kp Lf))"
    using tl l by (simp add: plug_append)
  have wp: "trep h (with_pred C c D cp pl p kp a k r)"
    using t l by simp
  note ap = exchange_apart [OF wp]
  obtain na where na: "rb_store h a = Some na" "meta na = mk_meta (cpar C) c" "a \<noteq> NULL" "aligned a"
      "left na = ptr l"
    using trep_load [of h C False c l a k r] t by (auto simp: nd_def child_def)
  obtain np where np: "rb_store h p = Some np" "meta np = mk_meta (cpar (D @ ?F)) cp" "p \<noteq> NULL"
    using trep_load [of h "D @ ?F" False cp pl p kp Lf] tp by (auto simp: nd_def)
  let ?h = "h\<lparr>rb_store := (rb_store h)(p \<mapsto> np\<lparr>meta := mk_meta (cpar (D @ ?F)) c\<rparr>,
    a \<mapsto> na\<lparr>meta := mk_meta (cpar C) cp\<rparr>)\<rparr>"
  have sw: "swap_colors p a h = Some ?h"
    using swap_colors_store na np trep_aligned_cpar [OF t] trep_aligned_cpar [OF tp] ap(1) by blast
  have f1: "rb_frame h ?h"
    by (rule rb_frame_store2) (use na np in auto)
  have "\<exists>h2. (if left na = p then swap_adjacent a p (cplace C) (cpar C) ?h
      else swap_apart a p (cplace (D @ ?F)) (cplace C) (cpar C) ?h) = Some h2 \<and> rb_frame ?h h2
      \<and> half_swapped h2 C c D cp pl p kp a k r"
  proof (cases "D = []")
    case True
    then show ?thesis
      using swap_adjacent_exec [OF wp [unfolded True] na(1) np(1)] na(5) l by (auto; metis)
  next
    case False
    have "left na \<noteq> p"
      using exchange_left [OF wp False] na(5) l by (simp add: ptr_plug)
    moreover have "cplace (D @ ?F) = cplace D" "cpar (D @ ?F) = cpar D"
      using False by (cases D rule: cplace.cases; simp)+
    ultimately show ?thesis
      using swap_apart_exec [OF wp False na(1) np(1)] by (auto; metis)
  qed
  then obtain h2 where h2: "(if left na = p then swap_adjacent a p (cplace C) (cpar C) ?h
      else swap_apart a p (cplace (D @ ?F)) (cplace C) (cpar C) ?h) = Some h2" "rb_frame ?h h2"
      "half_swapped h2 C c D cp pl p kp a k r" by blast
  obtain h' where h': "swap_right a p h2 = Some h'" "rb_frame h2 h'" "trep h' (with_pred C c D cp pl a k p kp r)"
    using swap_right_exec [OF wp h2(3)] by metis
  have "swap_with_pred a (cplace C) (cpar C) h = Some (p, h')"
    using pr trep_deref [OF tp] sw h2(1) h'(1) na(3)
    by (simp add: swap_with_pred_def rb_load_def split del: if_split cong: if_cong)
  moreover have "rb_frame h h'"
    using f1 h2(2) h'(2) rb_frame_trans by blast
  ultimately show ?thesis
    using that l h'(3) by blast
qed

section \<open>Extraction\<close>

text \<open>The shapes of a node's subtrees for which the exchange is harmless.\<close>

fun pred_ok :: "rbt \<Rightarrow> rbt \<Rightarrow> bool" where
  "pred_ok (Nd c l a k Lf) (Nd _ _ _ _ _) = c"
| "pred_ok _ _ = True"

lemma rb_extract_unlink:
  assumes "deref h place = Some a" "rb_load h a = Some n" and "left n = NULL \<or> right n = NULL"
  shows "rb_extract place parent Root_ref h = map_option (Pair a) (rb_unlink a place parent Root_ref h)"
  using assms by (cases "rb_unlink a place parent Root_ref h") (auto simp: rb_extract_def)

lemma rb_extract_exchange:
  assumes "deref h place = Some a" "rb_load h a = Some n" "left n \<noteq> NULL" "right n \<noteq> NULL"
    and "swap_with_pred a place parent h = Some (p, h1)"
    and "rb_probe h1 (Child_ref p LEFT) (fd n) = Some (place', parent')"
  shows "rb_extract place parent Root_ref h = map_option (Pair a) (rb_unlink a place' parent' Root_ref h1)"
  using assms by (cases "rb_unlink a place' parent' Root_ref h1") (auto simp: rb_extract_def)

lemma plug_shape:
  "bh t = bh u \<Longrightarrow> red t = red u \<Longrightarrow> bh (plug D t) = bh (plug D u) \<and> red (plug D t) = red (plug D u)"
proof (induction D t arbitrary: u rule: plug.induct)
  case (2 d c a k s C t)
  have "bh (nd d c t a k s) = bh (nd d c u a k s)"
    using "2.prems" by (simp add: nd_def)
  then show ?case
    using "2.IH" [of "nd d c u a k s"] by simp
qed simp

lemma exchange_inv:
  assumes "invc (with_pred C c D cp pl p kp a k r)" "invh (with_pred C c D cp pl p kp a k r)"
    "\<not> red (with_pred C c D cp pl p kp a k r)"
  shows "invc (with_pred C c D cp pl a k p kp r) \<and> invh (with_pred C c D cp pl a k p kp r)"
    "\<not> red (with_pred C c D cp pl a k p kp r)"
proof -
  let ?X = "Nd cp pl p kp Lf" and ?Y = "Nd cp pl a k Lf"
  have sh: "bh (plug D ?Y) = bh (plug D ?X)" "red (plug D ?Y) = red (plug D ?X)"
    using plug_shape [of ?Y ?X D] by simp_all
  have "ctx_ok C (bh (Nd c (plug D ?X) a k r)) \<and> invc (Nd c (plug D ?X) a k r) \<and> invh (Nd c (plug D ?X) a k r)
      \<and> (c \<longrightarrow> \<not> ctx_red C)"
    using assms plug_inv [of C "Nd c (plug D ?X) a k r"] by (cases c) auto
  moreover from this have "invc (plug D ?Y) \<and> invh (plug D ?Y)"
    using plug_inv [of D ?X] plug_inv [of D ?Y] by (cases cp) auto
  ultimately show "invc (with_pred C c D cp pl a k p kp r) \<and> invh (with_pred C c D cp pl a k p kp r)"
    by (subst plug_inv) (auto simp: sh)
  show "\<not> red (with_pred C c D cp pl a k p kp r)"
    using assms(3) by (auto simp: red_plug)
qed

lemma keys_spine_less:
  assumes "sorted_wrt (<) (keys (with_pred C c D cp pl p kp a k r))"
  shows "\<forall>x \<in> set (fst (cinorder D)). snd x < k"
  using assms by (auto simp: keys_def inorder_plug sorted_wrt_append)

lemma spine_cinorder: "spine D \<Longrightarrow> snd (cinorder D) = []"
  by (induction D rule: spine.induct) (auto split: prod.splits)

text \<open>After the exchange the probe finds the node again, with its parent unless it is \<open>p\<close> itself.\<close>

lemma probe_exchanged:
  assumes t: "trep h (with_pred C c D cp pl a k p kp r)" and "spine D"
    and less: "\<forall>x \<in> set (fst (cinorder D)). snd x < k"
  shows "rb_probe h (Child_ref p LEFT) k = Some (cplace (D @ Fr False c p kp r # C), cpar D)"
proof -
  have "trep h (plug (Fr False c p kp r # C) (plug D (Nd cp pl a k Lf)))"
    using t by (simp add: nd_def)
  from probe_loop_locate [OF this locate_spine [OF assms(2,3)]] show ?thesis
    by (simp add: rb_probe_def)
qed

text \<open>A red leaf needs no parent to be unlinked.\<close>

lemma rb_unlink_red_leaf:
  assumes "trep h (plug C (Nd True Lf a k Lf))"
  shows "rb_unlink a (cplace C) q Root_ref h = rb_unlink a (cplace C) (cpar C) Root_ref h"
proof -
  obtain n where n: "rb_load h a = Some n" "child n False = NULL" "child n True = NULL"
    using trep_load [of h C False True Lf a k Lf] assms by (auto simp: nd_def)
  obtain h1 where h1: "rb_splice (cplace C) (cpar C) NULL h = Some h1" "rb_store h1 a = rb_store h a"
    using splice_exec [OF assms] by (auto simp: only_child_def)
  have "is_red h1 a = is_red h a"
    using h1(2) by (simp add: is_red_def rb_load_def)
  then have "is_red h1 a = Some True"
    using trep_is_red [OF assms] by simp
  then show ?thesis
    using n h1(1) by (simp add: rb_unlink_def rb_splice_def Let_def)
qed

definition extracted :: "frame list \<Rightarrow> rbt \<Rightarrow> rbt \<Rightarrow> rb_heap \<Rightarrow> addr \<Rightarrow> (addr \<times> rb_heap) option \<Rightarrow> bool" where
  "extracted C l r h a res \<longleftrightarrow> (\<exists>h' T. res = Some (a, h') \<and> rb_frame h h' \<and> rb_tree h' T
     \<and> inorder T = fst (cinorder C) @ inorder l @ inorder r @ snd (cinorder C))"

lemma extractedI:
  assumes "runs m h (repaired E s)" and "sorted_wrt (<) (keys (plug C (Nd c l a k r)))"
    and "inorder (plug E s) = fst (cinorder C) @ inorder l @ inorder r @ snd (cinorder C)"
  shows "extracted C l r h a (map_option (Pair a) m)"
proof -
  obtain h' T where T: "m = Some h'" "rb_frame h h'" "trep h' T" "repaired E s T"
    using assms(1) by (auto simp: runs_def)
  moreover from T(4) assms(2,3) have "sorted_wrt (<) (keys T)"
    by (simp add: keys_def repaired_def inorder_plug sorted_wrt_append)
  ultimately show ?thesis
    using assms(3) by (auto simp: extracted_def rb_tree_def rb_ok_def repaired_def)
qed

lemma rb_extract_two_children:
  assumes T: "rb_tree h (plug C (Nd c l a k r))" and two: "l \<noteq> Lf" "r \<noteq> Lf" and ok: "pred_ok l r"
  shows "extracted C l r h a (rb_extract (cplace C) (cpar C) Root_ref h)"
proof -
  have t: "trep h (plug C (Nd c l a k r))" and srt: "sorted_wrt (<) (keys (plug C (Nd c l a k r)))"
    and inv: "invc (plug C (Nd c l a k r))" "invh (plug C (Nd c l a k r))" "\<not> red (plug C (Nd c l a k r))"
    using T by (auto simp: rb_tree_def rb_ok_def)
  obtain n where n: "rb_load h a = Some n" "left n \<noteq> NULL" "right n \<noteq> NULL" "fd n = k"
    using t two by (auto simp: trep_plug node_at_def rb_load_def rep_ptr_NULL)
  obtain D cp pl p kp h1 where l: "l = plug D (Nd cp pl p kp Lf)" "spine D"
    and sw: "swap_with_pred a (cplace C) (cpar C) h = Some (p, h1)" "rb_frame h h1"
      "trep h1 (with_pred C c D cp pl a k p kp r)"
    using swap_with_pred_exec [OF t two(1)] by metis
  let ?E = "D @ Fr False c p kp r # C"
  have E: "plug ?E s = plug C (Nd c (plug D s) p kp r)" for s
    by (simp add: plug_append nd_def)
  have tE: "trep h1 (plug ?E (Nd cp pl a k Lf))"
    using sw(3) E by simp
  have invE: "invc (plug ?E (Nd cp pl a k Lf))" "invh (plug ?E (Nd cp pl a k Lf))" "\<not> red (plug ?E (Nd cp pl a k Lf))"
    using exchange_inv [of C c D cp pl p kp a k r] inv l(1) E by simp_all
  have ext: "rb_extract (cplace C) (cpar C) Root_ref h =
      map_option (Pair a) (rb_unlink a (cplace ?E) (cpar D) Root_ref h1)"
    using rb_extract_exchange [OF _ n(1-3) sw(1)] probe_exchanged [OF sw(3) l(2)] keys_spine_less srt l(1)
      trep_deref [OF t] n(4) by simp
  have "rb_unlink a (cplace ?E) (cpar D) Root_ref h1 = rb_unlink a (cplace ?E) (cpar ?E) Root_ref h1"
  proof (cases "D = []")
    case True
    with l ok two have "cp" by (cases r) auto
    moreover from this True invE plug_inv [of ?E "Nd cp pl a k Lf"] have "pl = Lf"
      by (cases pl) auto
    ultimately show ?thesis
      using rb_unlink_red_leaf [of h1 ?E a k "cpar D"] tE by simp
  next
    case False
    then have "cpar ?E = cpar D" by (cases D rule: cplace.cases) simp_all
    then show ?thesis by simp
  qed
  moreover have "runs (rb_unlink a (cplace ?E) (cpar ?E) Root_ref h1) h (repaired ?E (only_child pl Lf))"
    using unlink_runs [OF tE _ invE] sw(2) by (auto simp: runs_def intro: rb_frame_trans)
  moreover have "inorder (plug ?E (only_child pl Lf)) = fst (cinorder C) @ inorder l @ inorder r @ snd (cinorder C)"
    using l by (auto simp: E inorder_plug only_child_def spine_cinorder)
  ultimately show ?thesis
    using extractedI srt by (simp add: ext)
qed

lemma rb_extract_runs:
  assumes T: "rb_tree h (plug C (Nd c l a k r))" and ok: "pred_ok l r"
  shows "extracted C l r h a (rb_extract (cplace C) (cpar C) Root_ref h)"
proof (cases "l = Lf \<or> r = Lf")
  case True
  have t: "trep h (plug C (Nd c l a k r))" and srt: "sorted_wrt (<) (keys (plug C (Nd c l a k r)))"
    and inv: "invc (plug C (Nd c l a k r))" "invh (plug C (Nd c l a k r))" "\<not> red (plug C (Nd c l a k r))"
    using T by (auto simp: rb_tree_def rb_ok_def)
  obtain n where n: "rb_load h a = Some n" "left n = NULL \<or> right n = NULL"
    using t True by (auto simp: trep_plug node_at_def rb_load_def)
  have "inorder (plug C (only_child l r)) = fst (cinorder C) @ inorder l @ inorder r @ snd (cinorder C)"
    using True by (auto simp: inorder_plug only_child_def)
  then show ?thesis
    using extractedI [OF unlink_runs [OF t True inv] srt] rb_extract_unlink [OF _ n] trep_deref [OF t] by simp
qed (use rb_extract_two_children assms in auto)

end
