(* ===== verification/Rbtree_Props.thy ===== *)
theory Rbtree_Props
  imports Rbtree_Extract
begin

text \<open>
  The contract of the descriptor tree in terms of its operations alone: search, insertion and
  removal by key on a memory that holds a red-black search tree. \<open>extract_safe\<close> is the condition
  under which a removal is correct, read off the memory. The locale \<open>fd_map\<close> states the map the
  tree implements, and \<open>rbm\<close> interprets it.
\<close>

section \<open>Contents\<close>

text \<open>The finite map a tree represents, from descriptors to node addresses.\<close>

definition tree_map :: "rbt \<Rightarrow> int \<rightharpoonup> addr" where
  "tree_map T = map_of (map (\<lambda>(a, k). (k, a)) (inorder T))"

lemma keys_distinct: "sorted_wrt (<) (keys T) \<Longrightarrow> distinct (keys T)"
  using strict_sorted_iff by auto

lemma tree_map_in:
  assumes "rb_ok T" and "(a, k) \<in> set (inorder T)"
  shows "tree_map T k = Some a"
proof -
  have "distinct (map fst (map (\<lambda>(a, k). (k, a)) (inorder T)))"
    using keys_distinct assms(1) by (simp add: rb_ok_def keys_def comp_def case_prod_beta)
  then show ?thesis
    using assms(2) by (force simp: tree_map_def map_of_eq_Some_iff)
qed

lemma tree_map_None: "tree_map T k = None \<longleftrightarrow> k \<notin> set (keys T)"
  by (force simp: tree_map_def keys_def map_of_eq_None_iff)

lemma tree_map_eqI:
  assumes "rb_ok T" and "rb_ok T'"
    and "\<And>a m. (a, m) \<in> set (inorder T') \<longleftrightarrow> f m = Some a"
  shows "tree_map T' = f"
proof
  fix k
  show "tree_map T' k = f k"
  proof (cases "f k")
    case None
    then have "k \<notin> set (keys T')"
      using assms(3) by (auto simp: keys_def)
    with None show ?thesis by (simp add: tree_map_None)
  next
    case (Some a)
    with assms(3) have "(a, k) \<in> set (inorder T')" by simp
    from tree_map_in [OF assms(2) this] Some show ?thesis by simp
  qed
qed

lemma tree_map_iff: "rb_ok T \<Longrightarrow> (a, k) \<in> set (inorder T) \<longleftrightarrow> tree_map T k = Some a"
proof
  assume "rb_ok T" "tree_map T k = Some a"
  then show "(a, k) \<in> set (inorder T)"
    by (auto simp: tree_map_def dest!: map_of_SomeD)
qed (rule tree_map_in)

section \<open>Search, insertion, removal\<close>

lemma probe_result:
  assumes "rb_tree h T" and "rb_probe h Root_ref key = Some (place, parent)"
  obtains C t where "T = plug C t" "place = cplace C" "parent = cpar C" "between key C"
    "deref h place = Some (ptr t)" "t = Lf \<longleftrightarrow> tree_map T key = None"
    "\<And>c l a k r. t = Nd c l a k r \<Longrightarrow> k = key \<and> tree_map T key = Some a"
proof -
  obtain C t where C: "T = plug C t" "rb_probe h Root_ref key = Some (cplace C, cpar C)" "between key C"
    "t = Lf \<or> (\<exists>c l a r. t = Nd c l a key r)" "deref h (cplace C) = Some (ptr t)"
    using rb_probe_total [OF assms(1)] by metis
  have ok: "rb_ok T" using assms(1) by (simp add: rb_tree_def)
  have "tree_map T key = None" if "t = Lf"
    using between_keys [OF C(3)] C(1) that by (simp add: tree_map_None)
  moreover have "tree_map T key = Some a" if "t = Nd c l a key r" for c l a r
    using tree_map_in [OF ok, of a key] C(1) that by (simp add: inorder_plug)
  ultimately show ?thesis
    using that [of C t] C assms(2) by (cases t) auto
qed

lemma probe_finds:
  assumes "rb_tree h T"
  shows "\<exists>place parent. rb_probe h Root_ref key = Some (place, parent)
    \<and> deref h place = Some (case tree_map T key of None \<Rightarrow> NULL | Some a \<Rightarrow> a)"
proof -
  obtain C where pr: "rb_probe h Root_ref key = Some (cplace C, cpar C)"
    using rb_probe_total [OF assms] by metis
  show ?thesis
  proof (rule probe_result [OF assms pr])
    fix C' t
    assume "deref h (cplace C) = Some (ptr t)" "t = Lf \<longleftrightarrow> tree_map T key = None"
      "\<And>c l a k r. t = Nd c l a k r \<Longrightarrow> k = key \<and> tree_map T key = Some a"
    then show ?thesis
      using pr by (cases t) auto
  qed
qed

text \<open>A node as \<open>make_rbnode\<close> and the reservation of an event leave it, not yet in the tree.\<close>

definition fresh_node :: "rb_heap \<Rightarrow> rbt \<Rightarrow> addr \<Rightarrow> int \<Rightarrow> bool" where
  "fresh_node h T a key \<longleftrightarrow> a \<noteq> NULL \<and> aligned a \<and> a \<notin> addrs T
     \<and> (\<exists>n. rb_store h a = Some n \<and> meta n = 1 \<and> left n = NULL \<and> right n = NULL \<and> fd n = key)"

lemma insert_adds:
  assumes T: "rb_tree h T" and pr: "rb_probe h Root_ref key = Some (place, parent)"
    and new: "tree_map T key = None" and fr: "fresh_node h T a key"
  shows "\<exists>h' T'. rb_insert a place parent Root_ref h = Some h' \<and> rb_tree h' T'
    \<and> tree_map T' = (tree_map T)(key \<mapsto> a) \<and> rb_frame h h'"
proof -
  obtain C where C: "T = plug C Lf" "place = cplace C" "parent = cpar C" "between key C"
    using probe_result [OF T pr] new by metis
  obtain n where n: "rb_store h a = Some n" "meta n = 1" "left n = NULL" "right n = NULL" "fd n = key"
      "a \<noteq> NULL" "aligned a" "a \<notin> addrs (plug C Lf)"
    using fr C(1) by (auto simp: fresh_node_def)
  obtain h' T' where r: "rb_insert a place parent Root_ref h = Some h'" "rb_frame h h'" "trep h' T'"
      "inorder T' = fst (cinorder C) @ (a, key) # snd (cinorder C)" "invc T'" "invh T'" "\<not> red T'"
    using rb_insert_runs [of h C a n] T C n by (auto simp: runs_def)
  have ok: "rb_ok T" using T by (simp add: rb_tree_def)
  then have "sorted_wrt (<) (keys T')"
    using C(1,4) r(4) by (auto simp: rb_ok_def keys_def inorder_plug sorted_wrt_append between_def)
  with r have ok': "rb_ok T'" by (simp add: rb_ok_def)
  have "tree_map T' = (tree_map T)(key \<mapsto> a)"
    using C(1) r(4) new tree_map_iff [OF ok] tree_map_None [of T key]
    by (intro tree_map_eqI [OF ok ok']) (auto simp: inorder_plug keys_def)
  then show ?thesis
    using r ok' by (auto simp: rb_tree_def)
qed

text \<open>The left child of a node with two children has a right child, or is red.\<close>

definition extract_safe :: "rb_heap \<Rightarrow> addr \<Rightarrow> bool" where
  "extract_safe h a =
     (case rb_load h a of None \<Rightarrow> False | Some n \<Rightarrow>
        left n = NULL \<or> right n = NULL
        \<or> (case rb_load h (left n) of None \<Rightarrow> False | Some m \<Rightarrow> right m \<noteq> NULL \<or> meta_red (meta m)))"

lemma extract_safe_pred_ok:
  assumes "trep h (plug C (Nd c l a k r))" and "extract_safe h a"
  shows "pred_ok l r"
proof (cases "l = Lf \<or> r = Lf")
  case True
  then show ?thesis by (cases l; cases r) auto
next
  case False
  then obtain cl ll b m rl where l: "l = Nd cl ll b m rl" by (cases l) auto
  have "node_at (rb_store h) a (cpar C) c k b (ptr r)" "node_at (rb_store h) b a cl m (ptr ll) (ptr rl)" "r \<noteq> Lf"
    and rr: "rep (rb_store h) a r" "rep (rb_store h) b rl" "aligned a"
    using assms(1) l False by (auto simp: trep_plug node_at_def)
  then have "rl \<noteq> Lf \<or> cl"
    using assms(2) rep_ptr_NULL [OF rr(1)] rep_ptr_NULL [OF rr(2)]
    by (auto simp: extract_safe_def node_at_def rb_load_def)
  then show ?thesis
    using l by (cases rl; cases r) auto
qed

lemma extract_removes:
  assumes T: "rb_tree h T" and pr: "rb_probe h Root_ref key = Some (place, parent)"
    and key: "tree_map T key = Some a" and safe: "extract_safe h a"
  shows "\<exists>h' T'. rb_extract place parent Root_ref h = Some (a, h') \<and> rb_tree h' T'
    \<and> tree_map T' = (tree_map T)(key := None) \<and> rb_frame h h'"
proof -
  obtain C t where C: "T = plug C t" "place = cplace C" "parent = cpar C" "t \<noteq> Lf"
    "\<And>c l b k r. t = Nd c l b k r \<Longrightarrow> k = key \<and> tree_map T key = Some b"
    using probe_result [OF T pr] key by (metis option.distinct(1))
  then obtain c l r where t: "t = Nd c l a key r"
    using key by (cases t) auto
  have ok: "rb_ok T" using T by (simp add: rb_tree_def)
  have "extracted C l r h a (rb_extract place parent Root_ref h)"
    using rb_extract_runs T C(1-3) t extract_safe_pred_ok safe by (auto simp: rb_tree_def)
  then obtain h' T' where r: "rb_extract place parent Root_ref h = Some (a, h')" "rb_frame h h'" "rb_tree h' T'"
      "inorder T' = fst (cinorder C) @ inorder l @ inorder r @ snd (cinorder C)"
    by (auto simp: extracted_def)
  have ok': "rb_ok T'" using r(3) by (simp add: rb_tree_def)
  have dist: "distinct (keys T)"
    using ok keys_distinct by (auto simp: rb_ok_def)
  have "(b, m) \<in> set (inorder T') \<longleftrightarrow> m \<noteq> key \<and> (b, m) \<in> set (inorder T)" for b m
    using dist r(4) C(1) t by (auto simp: inorder_plug keys_def image_iff)
  then have "tree_map T' = (tree_map T)(key := None)"
    using tree_map_iff [OF ok] by (intro tree_map_eqI [OF ok ok']) auto
  with r show ?thesis by blast
qed

section \<open>The map contract\<close>

text \<open>
  What the service relies on: \<open>holds s m\<close> says that the structure \<open>s\<close> holds the map \<open>m\<close> from
  descriptors to nodes. \<open>fresh\<close> and \<open>safe\<close> are the caller's obligations.
\<close>

locale fd_map =
  fixes holds :: "'s \<Rightarrow> (int \<rightharpoonup> addr) \<Rightarrow> bool"
    and lookup :: "'s \<Rightarrow> int \<Rightarrow> addr option option"
    and add :: "int \<Rightarrow> addr \<Rightarrow> 's \<Rightarrow> 's option"
    and remove :: "int \<Rightarrow> 's \<Rightarrow> (addr \<times> 's) option"
    and fresh :: "'s \<Rightarrow> addr \<Rightarrow> int \<Rightarrow> bool"
    and safe :: "'s \<Rightarrow> addr \<Rightarrow> bool"
  assumes lookup_law: "holds s m \<Longrightarrow> lookup s k = Some (m k)"
    and add_law: "holds s m \<Longrightarrow> m k = None \<Longrightarrow> a \<notin> ran m \<Longrightarrow> fresh s a k \<Longrightarrow>
      \<exists>s'. add k a s = Some s' \<and> holds s' (m(k \<mapsto> a))"
    and remove_law: "holds s m \<Longrightarrow> m k = Some a \<Longrightarrow> safe s a \<Longrightarrow>
      \<exists>s'. remove k s = Some (a, s') \<and> holds s' (m(k := None))"
begin

lemma lookup_add:
  assumes "holds s m" "m k = None" "a \<notin> ran m" "fresh s a k"
  shows "\<exists>s'. add k a s = Some s' \<and> lookup s' k = Some (Some a) \<and> (\<forall>j. j \<noteq> k \<longrightarrow> lookup s' j = lookup s j)"
  using add_law [OF assms] lookup_law [OF assms(1)] lookup_law by fastforce

lemma lookup_remove:
  assumes "holds s m" "m k = Some a" "safe s a"
  shows "\<exists>s'. remove k s = Some (a, s') \<and> lookup s' k = Some None \<and> (\<forall>j. j \<noteq> k \<longrightarrow> lookup s' j = lookup s j)"
  using remove_law [OF assms] lookup_law [OF assms(1)] lookup_law by fastforce

text \<open>Adding a descriptor and taking it away again leaves every lookup as it was.\<close>

lemma add_remove:
  assumes "holds s m" "m k = None" "a \<notin> ran m" "fresh s a k"
    and "\<And>s'. add k a s = Some s' \<Longrightarrow> safe s' a"
  shows "\<exists>s' s''. add k a s = Some s' \<and> remove k s' = Some (a, s'') \<and> (\<forall>j. lookup s'' j = lookup s j)"
proof -
  obtain s' where s': "add k a s = Some s'" "holds s' (m(k \<mapsto> a))"
    using add_law [OF assms(1-4)] by blast
  obtain s'' where "remove k s' = Some (a, s'')" "holds s'' (m(k \<mapsto> a, k := None))"
    using remove_law [OF s'(2), of k a] assms(5) [OF s'(1)] by auto
  moreover have "m(k \<mapsto> a, k := None) = m"
    using assms(2) by auto
  ultimately show ?thesis
    using s'(1) lookup_law assms(1) by auto
qed

end

text \<open>The sequences of calls the service makes: probe, then look, insert or extract at that place.\<close>

definition fd_lookup :: "rb_heap \<Rightarrow> int \<Rightarrow> addr option option" where
  "fd_lookup h key =
     do { (place, _) \<leftarrow> rb_probe h Root_ref key; a \<leftarrow> deref h place; Some (if a = NULL then None else Some a) }"

definition fd_insert :: "int \<Rightarrow> addr \<Rightarrow> rb_heap \<Rightarrow> rb_heap option" where
  "fd_insert key a h = do { (place, parent) \<leftarrow> rb_probe h Root_ref key; rb_insert a place parent Root_ref h }"

definition fd_extract :: "int \<Rightarrow> rb_heap \<Rightarrow> (addr \<times> rb_heap) option" where
  "fd_extract key h = do { (place, parent) \<leftarrow> rb_probe h Root_ref key; rb_extract place parent Root_ref h }"

definition tree_holds :: "rb_heap \<Rightarrow> (int \<rightharpoonup> addr) \<Rightarrow> bool" where
  "tree_holds h m \<longleftrightarrow> (\<exists>T. rb_tree h T \<and> tree_map T = m)"

definition unlinked_node :: "rb_heap \<Rightarrow> addr \<Rightarrow> int \<Rightarrow> bool" where
  "unlinked_node h a key \<longleftrightarrow> a \<noteq> NULL \<and> aligned a
     \<and> (\<exists>n. rb_store h a = Some n \<and> meta n = 1 \<and> left n = NULL \<and> right n = NULL \<and> fd n = key)"

lemma addrs_ran: "rb_ok T \<Longrightarrow> addrs T = ran (tree_map T)"
proof -
  assume ok: "rb_ok T"
  have "a \<in> addrs T \<longleftrightarrow> (\<exists>k. (a, k) \<in> set (inorder T))" for a
    by (force simp flip: addrs_inorder)
  then show ?thesis
    using tree_map_iff [OF ok] by (auto simp: ran_def)
qed

lemma tree_map_nonnull: "rb_tree h T \<Longrightarrow> tree_map T k = Some a \<Longrightarrow> a \<noteq> NULL"
proof -
  assume T: "rb_tree h T" and a: "tree_map T k = Some a"
  then have "a \<in> addrs T"
    using addrs_ran by (auto simp: rb_tree_def ran_def)
  with T show ?thesis
    using rep_not_NULL by (auto simp: rb_tree_def trep_def)
qed

interpretation rbm: fd_map tree_holds fd_lookup fd_insert fd_extract unlinked_node extract_safe
proof unfold_locales
  show "fd_lookup h k = Some (m k)" if m: "tree_holds h m" for h m k
  proof -
    obtain T where T: "rb_tree h T" "tree_map T = m"
      using m by (auto simp: tree_holds_def)
    then show ?thesis
      using probe_finds [OF T(1), of k] tree_map_nonnull [OF T(1), of k]
      by (auto simp: fd_lookup_def split: option.splits)
  qed
  show "\<exists>h'. fd_insert k a h = Some h' \<and> tree_holds h' (m(k \<mapsto> a))"
    if m: "tree_holds h m" "m k = None" "a \<notin> ran m" "unlinked_node h a k" for h m k a
  proof -
    obtain T where T: "rb_tree h T" "tree_map T = m"
      using m(1) by (auto simp: tree_holds_def)
    obtain place parent where pr: "rb_probe h Root_ref k = Some (place, parent)"
      using probe_finds [OF T(1)] by blast
    have "fresh_node h T a k"
      using m(3,4) T addrs_ran by (auto simp: fresh_node_def unlinked_node_def rb_tree_def)
    with insert_adds [OF T(1) pr, of a] m(2) T(2) pr show ?thesis
      by (auto simp: fd_insert_def tree_holds_def)
  qed
  show "\<exists>h'. fd_extract k h = Some (a, h') \<and> tree_holds h' (m(k := None))"
    if m: "tree_holds h m" "m k = Some a" "extract_safe h a" for h m k a
  proof -
    obtain T where T: "rb_tree h T" "tree_map T = m"
      using m(1) by (auto simp: tree_holds_def)
    obtain place parent where pr: "rb_probe h Root_ref k = Some (place, parent)"
      using probe_finds [OF T(1)] by blast
    with extract_removes [OF T(1) pr] m T(2) show ?thesis
      by (auto simp: fd_extract_def tree_holds_def)
  qed
qed

section \<open>Properties\<close>

text \<open>A memory with one black node at \<open>8\<close> and a red right child at \<open>16\<close>, and two nodes not yet linked.\<close>

definition demo_heap :: rb_heap where
  "demo_heap = \<lparr>rb_root = 8, rb_store =
     [8 \<mapsto> (make_rbnode 10)\<lparr>meta := 0, right := 16\<rparr>, 16 \<mapsto> (make_rbnode 20)\<lparr>meta := 9\<rparr>,
      24 \<mapsto> make_rbnode 15]\<rparr>"

definition demo_tree :: rbt where
  "demo_tree = Nd False Lf 8 10 (Nd True Lf 16 20 Lf)"

lemma demo_heap_tree: "rb_tree demo_heap demo_tree"
  by (simp add: rb_tree_def trep_def demo_heap_def demo_tree_def node_at_def aligned_def mk_meta_def
      make_rbnode_def rb_ok_def keys_def)

lemma demo_tree_map: "tree_map demo_tree = [10 \<mapsto> 8, 20 \<mapsto> 16]"
  by (auto simp: tree_map_def demo_tree_def)

lemma demo_fresh: "fresh_node demo_heap demo_tree 24 15"
  by (simp add: fresh_node_def demo_heap_def demo_tree_def aligned_def make_rbnode_def)

text \<open>
  C17. Searching the descriptor tree always ends: from the root, \<open>rb_probe\<close> returns a place
  that holds the node of the descriptor, and the null pointer exactly when no node has it.
\<close>

theorem rb_probe_correct:
  assumes "rb_tree h T"
  shows "\<exists>place parent. rb_probe h Root_ref key = Some (place, parent)
    \<and> deref h place = Some (case tree_map T key of None \<Rightarrow> NULL | Some a \<Rightarrow> a)"
  using assms by (rule probe_finds)

theorem rb_probe_correct_witness:
  "\<exists>place parent. rb_probe demo_heap Root_ref 20 = Some (place, parent)
    \<and> deref demo_heap place = Some (case tree_map demo_tree 20 of None \<Rightarrow> NULL | Some a \<Rightarrow> a)"
  by (rule rb_probe_correct [OF demo_heap_tree])

text \<open>
  C15. Insertion: linking a fresh node at the place its descriptor was probed to returns a memory
  that again holds a red-black search tree, whose contents are the old ones with the new
  descriptor added; no node's event data change.
\<close>

theorem rb_insert_correct:
  assumes "rb_tree h T" and "rb_probe h Root_ref key = Some (place, parent)"
    and "tree_map T key = None" and "fresh_node h T a key"
  shows "\<exists>h' T'. rb_insert a place parent Root_ref h = Some h' \<and> rb_tree h' T'
    \<and> tree_map T' = (tree_map T)(key \<mapsto> a) \<and> rb_frame h h'"
  using assms by (rule insert_adds)

theorem rb_insert_correct_witness:
  "\<exists>h' T'. rb_insert 24 (Child_ref 16 False) 16 Root_ref demo_heap = Some h' \<and> rb_tree h' T'
    \<and> tree_map T' = [10 \<mapsto> 8, 20 \<mapsto> 16, 15 \<mapsto> 24] \<and> rb_frame demo_heap h'"
proof -
  have "rb_probe demo_heap Root_ref 15 = Some (Child_ref 16 False, 16)" by code_simp
  from rb_insert_correct [OF demo_heap_tree this _ demo_fresh] show ?thesis
    by (simp add: demo_tree_map)
qed

text \<open>
  C16. Removal: extracting the node of a descriptor at its probed place returns that node and a
  memory that again holds a red-black search tree without it, all other event data unchanged,
  provided the node's left child is not a black node without right child while the node has
  two children.
\<close>

theorem rb_extract_correct:
  assumes "rb_tree h T" and "rb_probe h Root_ref key = Some (place, parent)"
    and "tree_map T key = Some a" and "extract_safe h a"
  shows "\<exists>h' T'. rb_extract place parent Root_ref h = Some (a, h') \<and> rb_tree h' T'
    \<and> tree_map T' = (tree_map T)(key := None) \<and> rb_frame h h'"
  using assms by (rule extract_removes)

theorem rb_extract_correct_witness:
  "\<exists>h' T'. rb_extract Root_ref 0 Root_ref demo_heap = Some (8, h') \<and> rb_tree h' T'
    \<and> tree_map T' = [20 \<mapsto> 16] \<and> rb_frame demo_heap h'"
proof -
  have "rb_probe demo_heap Root_ref 10 = Some (Root_ref, 0)" by code_simp
  moreover have "extract_safe demo_heap 8" by code_simp
  ultimately show ?thesis
    using rb_extract_correct [OF demo_heap_tree, of 10 Root_ref 0 8] by (simp add: demo_tree_map)
qed

end
