(* ===== verification/Dynarray.thy ===== *)
theory Dynarray
  imports Prelude
begin

text \<open>
  The growable array of \<open>src/dynarray.c\<close> and \<open>src/dynarray.h\<close>.

  \<open>data\<close> is the allocated block, one entry per element slot; \<open>None\<close> is a slot whose bytes are
  indeterminate (fresh memory of \<open>realloc\<close>). An element pointer is the element's index. The
  block's length is \<open>capacity\<close>; a null \<open>data\<close> is the empty block.
  The locale \<open>vector\<close> states what the service relies on, and \<open>dyn\<close> interprets it.
\<close>

section \<open>The array and its operations\<close>

record 'a dynarray =
  d_data :: "'a option list"
  d_nelems :: nat
  d_capacity :: nat
  d_obj_size :: nat

definition DYNARR_MIN_CAPACITY :: nat where
  "DYNARR_MIN_CAPACITY = 1"

definition mx :: "nat \<Rightarrow> nat \<Rightarrow> nat" where
  "mx a b = (if a < b then b else a)"

definition dynarr_init :: "nat \<Rightarrow> 'a dynarray" where
  "dynarr_init obj_size =
     \<lparr>d_data = [], d_nelems = 0, d_capacity = 0, d_obj_size = obj_size\<rparr>"

text \<open>\<open>dynarr_delete\<close> frees the block; reading it afterwards is a fault.\<close>

definition dynarr_delete :: "'a dynarray \<Rightarrow> 'a dynarray" where
  "dynarr_delete dar = dar\<lparr>d_data := []\<rparr>"

definition dynarr_size :: "'a dynarray \<Rightarrow> nat" where
  "dynarr_size dar = d_nelems dar"

definition dynarr_empty :: "'a dynarray \<Rightarrow> bool" where
  "dynarr_empty dar \<longleftrightarrow> d_nelems dar = 0"

text \<open>Pointers into the array are indices: \<open>dynarr_at\<close>, \<open>dynarr_front\<close>, \<open>dynarr_back\<close> and
  \<open>dynarr_end\<close> only compute a position.\<close>

definition dynarr_at :: "'a dynarray \<Rightarrow> nat \<Rightarrow> nat" where
  "dynarr_at dar idx = idx"

definition dynarr_front :: "'a dynarray \<Rightarrow> nat" where
  "dynarr_front dar = 0"

definition dynarr_back :: "'a dynarray \<Rightarrow> nat" where
  "dynarr_back dar = dynarr_at dar (size_dec (d_nelems dar))"

definition dynarr_end :: "'a dynarray \<Rightarrow> nat" where
  "dynarr_end dar = dynarr_at dar (d_nelems dar)"

definition dynarr_pop_back :: "'a dynarray \<Rightarrow> 'a dynarray" where
  "dynarr_pop_back dar = dar\<lparr>d_nelems := size_dec (d_nelems dar)\<rparr>"

definition dynarr_clear :: "'a dynarray \<Rightarrow> 'a dynarray" where
  "dynarr_clear dar = dar\<lparr>d_nelems := 0\<rparr>"

text \<open>
  \<open>dynarr_emplace_back\<close> returns the pointer to the new, uninitialised slot, or \<open>None\<close> for the
  null pointer when \<open>realloc\<close> fails; \<open>realloc_ok\<close> is the outcome of that call.
\<close>

definition dynarr_emplace_back :: "bool \<Rightarrow> 'a dynarray \<Rightarrow> nat option \<times> 'a dynarray" where
  "dynarr_emplace_back realloc_ok dar =
     (let grow = (d_nelems dar = d_capacity dar);
          new_capacity = mx (2 * d_capacity dar) DYNARR_MIN_CAPACITY
      in if grow \<and> \<not> realloc_ok then (None, dar)
         else let dar' = (if grow
                then dar\<lparr>d_data := d_data dar @ replicate (new_capacity - length (d_data dar)) None,
                         d_capacity := new_capacity\<rparr>
                else dar)
              in (Some (dynarr_end dar'), dar'\<lparr>d_nelems := Suc (d_nelems dar')\<rparr>))"

text \<open>Reading and writing through an element pointer.\<close>

definition dynarr_get :: "'a dynarray \<Rightarrow> nat \<Rightarrow> 'a option" where
  "dynarr_get dar i = (if i < length (d_data dar) then d_data dar ! i else None)"

definition dynarr_set :: "'a dynarray \<Rightarrow> nat \<Rightarrow> 'a \<Rightarrow> 'a dynarray option" where
  "dynarr_set dar i v =
     (if i < length (d_data dar) then Some (dar\<lparr>d_data := (d_data dar)[i := Some v]\<rparr>) else None)"

section \<open>Abstraction and invariant\<close>

definition dynarr_inv :: "'a dynarray \<Rightarrow> bool" where
  "dynarr_inv dar \<longleftrightarrow> length (d_data dar) = d_capacity dar \<and> d_nelems dar \<le> d_capacity dar
     \<and> (\<forall>i < d_nelems dar. d_data dar ! i \<noteq> None)"

definition dynarr_list :: "'a dynarray \<Rightarrow> 'a list" where
  "dynarr_list dar = map the (take (d_nelems dar) (d_data dar))"

lemma length_dynarr_list [simp]: "dynarr_inv dar \<Longrightarrow> length (dynarr_list dar) = d_nelems dar"
  by (simp add: dynarr_list_def dynarr_inv_def)

lemma dynarr_inv_init [simp]: "dynarr_inv (dynarr_init n)"
  by (simp add: dynarr_inv_def dynarr_init_def)

lemma dynarr_list_init [simp]: "dynarr_list (dynarr_init n) = []"
  by (simp add: dynarr_list_def dynarr_init_def)

lemma dynarr_size_list: "dynarr_inv dar \<Longrightarrow> dynarr_size dar = length (dynarr_list dar)"
  by (simp add: dynarr_size_def)

lemma dynarr_empty_list: "dynarr_inv dar \<Longrightarrow> dynarr_empty dar \<longleftrightarrow> dynarr_list dar = []"
  by (simp add: dynarr_empty_def flip: length_0_conv)

lemma dynarr_get_list:
  "dynarr_inv dar \<Longrightarrow> i < length (dynarr_list dar) \<Longrightarrow> dynarr_get dar i = Some (dynarr_list dar ! i)"
  by (auto simp: dynarr_get_def dynarr_list_def dynarr_inv_def)

lemma dynarr_set_list:
  assumes "dynarr_inv dar" and "i < length (dynarr_list dar)"
  obtains dar' where "dynarr_set dar i v = Some dar'" "dynarr_inv dar'"
    "dynarr_list dar' = (dynarr_list dar)[i := v]"
proof
  let ?d = "dar\<lparr>d_data := (d_data dar)[i := Some v]\<rparr>"
  have i: "i < d_nelems dar" "i < length (d_data dar)"
    using assms by (auto simp: dynarr_inv_def dynarr_list_def)
  then show "dynarr_set dar i v = Some ?d"
    by (simp add: dynarr_set_def)
  show "dynarr_inv ?d"
    using assms(1) i by (auto simp: dynarr_inv_def nth_list_update)
  show "dynarr_list ?d = (dynarr_list dar)[i := v]"
    using i by (simp add: dynarr_list_def take_update_swap map_update)
qed

lemma dynarr_pop_back_list:
  assumes "dynarr_inv dar" and "dynarr_list dar \<noteq> []"
  shows "dynarr_inv (dynarr_pop_back dar)"
    and "dynarr_list (dynarr_pop_back dar) = butlast (dynarr_list dar)"
proof -
  have n: "0 < d_nelems dar" "d_nelems dar \<le> length (d_data dar)"
    using assms by (auto simp: dynarr_list_def dynarr_inv_def)
  show "dynarr_inv (dynarr_pop_back dar)"
    using assms(1) n by (auto simp: dynarr_inv_def dynarr_pop_back_def)
  show "dynarr_list (dynarr_pop_back dar) = butlast (dynarr_list dar)"
    using n by (simp add: dynarr_list_def dynarr_pop_back_def butlast_take map_butlast [symmetric])
qed

lemma dynarr_clear_list [simp]:
  "dynarr_list (dynarr_clear dar) = []"
  "dynarr_inv dar \<Longrightarrow> dynarr_inv (dynarr_clear dar)"
  by (simp_all add: dynarr_list_def dynarr_clear_def dynarr_inv_def)

text \<open>Growing copies every initialised slot and leaves room for one more.\<close>

lemma dynarr_emplace_back_fail:
  "fst (dynarr_emplace_back ok dar) = None \<longleftrightarrow> d_nelems dar = d_capacity dar \<and> \<not> ok"
  "fst (dynarr_emplace_back ok dar) = None \<Longrightarrow> snd (dynarr_emplace_back ok dar) = dar"
  by (auto simp: dynarr_emplace_back_def Let_def split: if_splits)

lemma dynarr_emplace_back_ok:
  assumes inv: "dynarr_inv dar" and r: "dynarr_emplace_back ok dar = (Some p, dar')"
  shows "p = length (dynarr_list dar)"
    and "d_nelems dar' = Suc (d_nelems dar)"
    and "p < length (d_data dar')"
    and "length (d_data dar') = d_capacity dar'"
    and "\<forall>i < p. d_data dar' ! i = d_data dar ! i"
    and "d_obj_size dar' = d_obj_size dar"
  using inv r
  by (auto simp: dynarr_emplace_back_def dynarr_end_def dynarr_at_def dynarr_inv_def Let_def mx_def
      DYNARR_MIN_CAPACITY_def nth_append split: if_splits)

text \<open>Writing the slot that \<open>dynarr_emplace_back\<close> returned appends the value.\<close>

lemma dynarr_emplace_set:
  assumes inv: "dynarr_inv dar" and r: "dynarr_emplace_back ok dar = (Some p, dar')"
  obtains dar'' where "dynarr_set dar' p v = Some dar''" "dynarr_inv dar''"
    "dynarr_list dar'' = dynarr_list dar @ [v]"
proof
  let ?d = "dar'\<lparr>d_data := (d_data dar')[p := Some v]\<rparr>"
  note e = dynarr_emplace_back_ok [OF inv r]
  have p: "p = d_nelems dar"
    using e(1) inv by simp
  show "dynarr_set dar' p v = Some ?d"
    using e(3) by (simp add: dynarr_set_def)
  show "dynarr_inv ?d"
    using e(2,3,4,5) inv p by (auto simp: dynarr_inv_def nth_list_update less_Suc_eq)
  show "dynarr_list ?d = dynarr_list dar @ [v]"
  proof (rule nth_equalityI)
    show len: "length (dynarr_list ?d) = length (dynarr_list dar @ [v])"
      using e(2,3,4) inv p by (simp add: dynarr_list_def dynarr_inv_def)
    fix i assume "i < length (dynarr_list ?d)"
    with len inv p have "i < Suc p" by simp
    then show "dynarr_list ?d ! i = (dynarr_list dar @ [v]) ! i"
      using e(2,3,5) inv p
      by (auto simp: dynarr_list_def dynarr_inv_def nth_append nth_list_update less_Suc_eq)
  qed
qed

text \<open>Taking the new slot away again restores the contents: the roll-back of a failed
  registration.\<close>

lemma dynarr_emplace_pop:
  assumes inv: "dynarr_inv dar" and r: "dynarr_emplace_back ok dar = (Some p, dar')"
  shows "dynarr_inv (dynarr_pop_back dar')" and "dynarr_list (dynarr_pop_back dar') = dynarr_list dar"
proof -
  note e = dynarr_emplace_back_ok [OF inv r]
  have p: "p = d_nelems dar"
    using e(1) inv by simp
  show "dynarr_inv (dynarr_pop_back dar')"
    using e(2-5) inv by (auto simp: dynarr_inv_def dynarr_pop_back_def p)
  show "dynarr_list (dynarr_pop_back dar') = dynarr_list dar"
    using e(2-5) inv
    by (auto simp: dynarr_list_def dynarr_pop_back_def dynarr_inv_def p intro!: nth_equalityI)
qed

section \<open>The vector contract\<close>

text \<open>
  What the service relies on: reads and writes below the size act on a list, the last
  element can be dropped, and a fresh slot appends once it is written.
\<close>

locale vector =
  fixes inv :: "'v \<Rightarrow> bool"
    and contents :: "'v \<Rightarrow> 'a list"
    and get :: "'v \<Rightarrow> nat \<Rightarrow> 'a option"
    and put :: "'v \<Rightarrow> nat \<Rightarrow> 'a \<Rightarrow> 'v option"
    and pop :: "'v \<Rightarrow> 'v"
    and emplace :: "bool \<Rightarrow> 'v \<Rightarrow> nat option \<times> 'v"
  assumes get_law: "inv v \<Longrightarrow> i < length (contents v) \<Longrightarrow> get v i = Some (contents v ! i)"
    and put_law: "inv v \<Longrightarrow> i < length (contents v) \<Longrightarrow>
      \<exists>v'. put v i x = Some v' \<and> inv v' \<and> contents v' = (contents v)[i := x]"
    and pop_law: "inv v \<Longrightarrow> contents v \<noteq> [] \<Longrightarrow> inv (pop v) \<and> contents (pop v) = butlast (contents v)"
    and emplace_law: "inv v \<Longrightarrow> emplace ok v = (Some p, v') \<Longrightarrow>
      p = length (contents v) \<and> (\<exists>v''. put v' p x = Some v'' \<and> inv v'' \<and> contents v'' = contents v @ [x])"
    and rollback_law: "inv v \<Longrightarrow> emplace ok v = (Some p, v') \<Longrightarrow>
      inv (pop v') \<and> contents (pop v') = contents v"
begin

text \<open>Exchanging two elements through their pointers.\<close>

lemma exchange:
  assumes "inv v" and "i < length (contents v)" and "j < length (contents v)"
  shows "\<exists>v'. do { x \<leftarrow> get v i; y \<leftarrow> get v j; v1 \<leftarrow> put v i y; put v1 j x } = Some v'
    \<and> inv v' \<and> contents v' = list_swap (contents v) i j"
proof -
  obtain v1 where v1: "put v i (contents v ! j) = Some v1" "inv v1"
      "contents v1 = (contents v)[i := contents v ! j]"
    using put_law [OF assms(1,2)] by blast
  obtain v2 where "put v1 j (contents v ! i) = Some v2" "inv v2"
      "contents v2 = list_swap (contents v) i j"
    using put_law [OF v1(2), of j] assms(3) v1(3) by (auto simp: list_swap_def)
  with v1 assms show ?thesis
    by (simp add: get_law)
qed

text \<open>Removing an element by moving the last one into its place.\<close>

lemma swap_remove:
  assumes "inv v" and "i < length (contents v)"
  shows "\<exists>v'. do { x \<leftarrow> get v (length (contents v) - 1); put v i x } = Some v'
    \<and> inv (pop v') \<and> contents (pop v') = butlast ((contents v)[i := last (contents v)])"
proof -
  have ne: "contents v \<noteq> []"
    using assms(2) by auto
  obtain v1 where v1: "put v i (last (contents v)) = Some v1" "inv v1"
      "contents v1 = (contents v)[i := last (contents v)]"
    using put_law [OF assms] by blast
  moreover have "contents v1 \<noteq> []"
    using v1(3) ne by simp
  ultimately show ?thesis
    using ne assms pop_law [OF v1(2)] by (simp add: get_law last_conv_nth)
qed

end

interpretation dyn: vector dynarr_inv dynarr_list dynarr_get dynarr_set dynarr_pop_back
  dynarr_emplace_back
proof unfold_locales
  show "\<exists>d'. dynarr_set d i x = Some d' \<and> dynarr_inv d' \<and> dynarr_list d' = (dynarr_list d)[i := x]"
    if "dynarr_inv d" "i < length (dynarr_list d)" for d :: "'a dynarray" and i x
    using dynarr_set_list [OF that] by metis
  show "p = length (dynarr_list d) \<and> (\<exists>d''. dynarr_set d' p x = Some d'' \<and> dynarr_inv d''
      \<and> dynarr_list d'' = dynarr_list d @ [x])"
    if "dynarr_inv d" "dynarr_emplace_back ok d = (Some p, d')" for d d' :: "'a dynarray" and ok p x
    using dynarr_emplace_set [OF that] dynarr_emplace_back_ok(1) [OF that] by metis
qed (use dynarr_emplace_pop in \<open>auto simp: dynarr_get_list dynarr_pop_back_list\<close>)

section \<open>Properties\<close>

text \<open>
  C30. Appending to the array fails exactly when it is full and cannot be enlarged, and then changes
  nothing. Otherwise, once the new slot is written, the array holds the old elements and the new one,
  every one of them reads back, dropping the slot again restores the old contents, and the block is
  never more than twice as large as the number of elements it was enlarged for.
\<close>

theorem dynarr_append:
  assumes inv: "dynarr_inv d"
  shows "(case dynarr_emplace_back ok d of
      (None, d1) \<Rightarrow> d1 = d \<and> d_nelems d = d_capacity d \<and> \<not> ok
    | (Some p, d1) \<Rightarrow>
        (\<exists>d2. dynarr_set d1 p x = Some d2 \<and> dynarr_inv d2 \<and> dynarr_list d2 = dynarr_list d @ [x]
           \<and> (\<forall>i \<le> length (dynarr_list d). dynarr_get d2 i = Some ((dynarr_list d @ [x]) ! i)))
        \<and> dynarr_list (dynarr_pop_back d1) = dynarr_list d
        \<and> d_capacity d1 \<le> max (d_capacity d) (2 * d_nelems d1))"
proof (cases "dynarr_emplace_back ok d")
  case (Pair r d1)
  show ?thesis
  proof (cases r)
    case None
    then show ?thesis
      using Pair dynarr_emplace_back_fail [of ok d] by auto
  next
    case (Some p)
    then have p: "dynarr_emplace_back ok d = (Some p, d1)" using Pair by simp
    obtain d2 where d2: "dynarr_set d1 p x = Some d2" "dynarr_inv d2" "dynarr_list d2 = dynarr_list d @ [x]"
      using dynarr_emplace_set [OF inv p] by metis
    have "dynarr_get d2 i = Some ((dynarr_list d @ [x]) ! i)" if "i \<le> length (dynarr_list d)" for i
      using dyn.get_law [OF d2(2), of i] that d2(3) by (simp del: length_dynarr_list)
    moreover have "d_capacity d1 \<le> max (d_capacity d) (2 * d_nelems d1)"
      using p by (auto simp: dynarr_emplace_back_def Let_def mx_def DYNARR_MIN_CAPACITY_def split: if_splits)
    ultimately show ?thesis
      using p d2 dyn.rollback_law [OF inv p] by auto
  qed
qed

theorem dynarr_append_witness:
  "\<exists>p d1 d2. dynarr_emplace_back True (dynarr_init 8) = (Some p, d1) \<and> dynarr_set d1 p (7 :: int) = Some d2
     \<and> dynarr_list d2 = [7] \<and> d_capacity d1 \<le> 2"
proof -
  obtain p d1 where "dynarr_emplace_back True (dynarr_init 8 :: int dynarray) = (Some p, d1)" "d_nelems d1 = 1"
    by (auto simp: dynarr_emplace_back_def dynarr_init_def Let_def)
  moreover have "d_capacity (dynarr_init 8 :: int dynarray) = 0"
    by (simp add: dynarr_init_def)
  ultimately show ?thesis
    using dynarr_append [of "dynarr_init 8" True "7 :: int"] by auto
qed

end
