(* ===== verification/Cbuffer.thy ===== *)
theory Cbuffer
  imports Prelude
begin

text \<open>
  The circular buffer of \<open>src/cbuffer.c\<close> and \<open>src/cbuffer.h\<close>, the queue of synchronous
  handlers.

  The code works with \<open>char\<close> pointers into one block. A pointer is its byte offset from
  \<open>data\<close>, so \<open>data\<close> itself is offset \<open>0\<close>; \<open>c_alloc\<close> says whether \<open>data\<close> is non-null. The
  block maps the byte offset at which an object was stored to that object. The locale
  \<open>fifo\<close> is the queue contract; \<open>cbq\<close> interprets it on this buffer.
\<close>

section \<open>The buffer and its operations\<close>

record 'a cbuffer =
  c_alloc :: bool
  c_data :: "nat \<rightharpoonup> 'a"
  c_limit :: nat
  c_nelems :: nat
  c_obj_size :: nat
  c_begin :: nat
  c_end :: nat

definition cbuf_init :: "nat \<Rightarrow> 'a cbuffer" where
  "cbuf_init obj_size = \<lparr>c_alloc = False, c_data = Map.empty, c_limit = 0, c_nelems = 0,
     c_obj_size = obj_size, c_begin = 0, c_end = 0\<rparr>"

definition cbuf_delete :: "'a cbuffer \<Rightarrow> 'a cbuffer" where
  "cbuf_delete cbuf = cbuf\<lparr>c_data := Map.empty\<rparr>"

definition cbuf_size :: "'a cbuffer \<Rightarrow> nat" where
  "cbuf_size cbuf = c_nelems cbuf"

definition cbuf_empty :: "'a cbuffer \<Rightarrow> bool" where
  "cbuf_empty cbuf \<longleftrightarrow> c_nelems cbuf = 0"

definition cbuf_front :: "'a cbuffer \<Rightarrow> nat" where
  "cbuf_front cbuf = c_begin cbuf"

definition cbuf_pop :: "'a cbuffer \<Rightarrow> 'a cbuffer" where
  "cbuf_pop cbuf =
     (let b = c_begin cbuf + c_obj_size cbuf
      in cbuf\<lparr>c_nelems := size_dec (c_nelems cbuf),
              c_begin := (if b = c_limit cbuf then 0 else b)\<rparr>)"

definition cbuf_clear :: "'a cbuffer \<Rightarrow> 'a cbuffer" where
  "cbuf_clear cbuf = cbuf\<lparr>c_nelems := 0, c_begin := 0, c_end := 0\<rparr>"

definition mx_bytes :: "nat \<Rightarrow> nat \<Rightarrow> nat" where
  "mx_bytes a b = (if a < b then b else a)"

text \<open>The two \<open>memmove\<close> calls: the part from \<open>begin\<close> to the limit first, then the part that
  had wrapped around.\<close>

definition cbuf_relocate :: "nat \<Rightarrow> nat \<Rightarrow> nat \<Rightarrow> (nat \<rightharpoonup> 'a) \<Rightarrow> (nat \<rightharpoonup> 'a)" where
  "cbuf_relocate begin fst_copy scd_copy data =
     (\<lambda>q. if q < fst_copy then data (begin + q)
          else if q < fst_copy + scd_copy then data (q - fst_copy)
          else None)"

text \<open>Moving the queue into a block of twice the size.\<close>

definition cbuf_grow :: "'a cbuffer \<Rightarrow> 'a cbuffer" where
  "cbuf_grow cbuf =
     (let new_capacity = mx_bytes (c_obj_size cbuf) (2 * c_limit cbuf);
          fst_copy_size = c_limit cbuf - c_begin cbuf;
          scd_copy_size = c_end cbuf
      in cbuf\<lparr>c_alloc := True,
              c_data := cbuf_relocate (c_begin cbuf) fst_copy_size scd_copy_size (c_data cbuf),
              c_limit := new_capacity,
              c_begin := 0,
              c_end := fst_copy_size + scd_copy_size\<rparr>)"

text \<open>
  \<open>cbuf_push\<close> returns the pointer to the new slot, \<open>None\<close> when the \<open>malloc\<close> of a larger block
  fails (\<open>malloc_ok\<close>).
\<close>

definition cbuf_must_grow :: "'a cbuffer \<Rightarrow> bool" where
  "cbuf_must_grow cbuf \<longleftrightarrow> \<not> c_alloc cbuf \<or> (c_begin cbuf = c_end cbuf \<and> c_nelems cbuf \<noteq> 0)"

definition cbuf_push :: "bool \<Rightarrow> 'a cbuffer \<Rightarrow> nat option \<times> 'a cbuffer" where
  "cbuf_push malloc_ok cbuf =
     (if cbuf_must_grow cbuf \<and> \<not> malloc_ok then (None, cbuf)
      else let cb = (if cbuf_must_grow cbuf then cbuf_grow cbuf else cbuf);
               e = c_end cb + c_obj_size cb
           in (Some (c_end cb),
               cb\<lparr>c_nelems := Suc (c_nelems cb), c_end := (if e = c_limit cb then 0 else e)\<rparr>))"

text \<open>Reading and writing an object through a pointer into the block.\<close>

definition cbuf_load :: "'a cbuffer \<Rightarrow> nat \<Rightarrow> 'a option" where
  "cbuf_load cbuf p = c_data cbuf p"

definition cbuf_store :: "'a cbuffer \<Rightarrow> nat \<Rightarrow> 'a \<Rightarrow> 'a cbuffer" where
  "cbuf_store cbuf p x = cbuf\<lparr>c_data := (c_data cbuf)(p \<mapsto> x)\<rparr>"

section \<open>Abstraction and invariant\<close>

text \<open>Byte offset of the \<open>i\<close>-th queued object: the block wraps around at the limit.\<close>

definition cbuf_off :: "'a cbuffer \<Rightarrow> nat \<Rightarrow> nat" where
  "cbuf_off cbuf i =
     (let q = c_begin cbuf + i * c_obj_size cbuf
      in if q < c_limit cbuf then q else q - c_limit cbuf)"

definition cbuf_list :: "'a cbuffer \<Rightarrow> 'a list" where
  "cbuf_list cbuf = map (\<lambda>i. the (c_data cbuf (cbuf_off cbuf i))) [0..<c_nelems cbuf]"

definition cbuf_inv :: "'a cbuffer \<Rightarrow> bool" where
  "cbuf_inv cbuf \<longleftrightarrow> 0 < c_obj_size cbuf \<and> c_obj_size cbuf dvd c_limit cbuf
     \<and> c_obj_size cbuf dvd c_begin cbuf
     \<and> c_nelems cbuf * c_obj_size cbuf \<le> c_limit cbuf
     \<and> (if c_alloc cbuf then c_begin cbuf < c_limit cbuf else c_limit cbuf = 0 \<and> c_begin cbuf = 0)
     \<and> c_end cbuf = cbuf_off cbuf (c_nelems cbuf)
     \<and> (\<forall>i < c_nelems cbuf. c_data cbuf (cbuf_off cbuf i) \<noteq> None)"

lemma cbuf_inv_init: "0 < n \<Longrightarrow> cbuf_inv (cbuf_init n)"
  by (simp add: cbuf_inv_def cbuf_init_def cbuf_off_def)

lemma cbuf_list_init [simp]: "cbuf_list (cbuf_init n) = []"
  by (simp add: cbuf_list_def cbuf_init_def)

lemma length_cbuf_list [simp]: "length (cbuf_list cbuf) = c_nelems cbuf"
  by (simp add: cbuf_list_def)

lemma nth_cbuf_list [simp]:
  "i < c_nelems cbuf \<Longrightarrow> cbuf_list cbuf ! i = the (c_data cbuf (cbuf_off cbuf i))"
  by (simp add: cbuf_list_def)

lemma cbuf_empty_list: "cbuf_empty cbuf \<longleftrightarrow> cbuf_list cbuf = []"
  by (simp add: cbuf_empty_def flip: length_0_conv)

section \<open>Slots\<close>

text \<open>Everything is a multiple of the object size, so distinct slots do not overlap.\<close>

lemma dvd_less_step: "(k::nat) dvd a \<Longrightarrow> k dvd b \<Longrightarrow> a < b \<Longrightarrow> a + k \<le> b"
  by (metis dvd_diff_nat dvd_imp_le le_diff_conv2 less_imp_le_nat zero_less_diff add.commute)

lemma cbuf_off_dvd:
  assumes "c_obj_size cb dvd c_limit cb" and "c_obj_size cb dvd c_begin cb"
  shows "c_obj_size cb dvd cbuf_off cb i"
  using assms by (auto simp: cbuf_off_def Let_def intro: dvd_diff_nat)

lemma wrap_inj:
  "(b::nat) < l \<Longrightarrow> x < l \<Longrightarrow> y < l \<Longrightarrow>
   (if b + x < l then b + x else b + x - l) = (if b + y < l then b + y else b + y - l) \<Longrightarrow> x = y"
  by (auto split: if_splits)

lemma cbuf_off_inj:
  assumes "0 < c_obj_size cb" and "c_begin cb < c_limit cb"
    and "i * c_obj_size cb < c_limit cb" and "j * c_obj_size cb < c_limit cb"
    and "cbuf_off cb i = cbuf_off cb j"
  shows "i = j"
proof -
  have "i * c_obj_size cb = j * c_obj_size cb"
    using assms(2-5) unfolding cbuf_off_def Let_def by (rule wrap_inj)
  with assms(1) show ?thesis by simp
qed

lemma cbuf_full_end:
  assumes "cbuf_inv cb" and "c_alloc cb"
  shows "c_nelems cb * c_obj_size cb = c_limit cb \<longleftrightarrow> c_begin cb = c_end cb \<and> c_nelems cb \<noteq> 0"
proof
  assume "c_nelems cb * c_obj_size cb = c_limit cb"
  with assms show "c_begin cb = c_end cb \<and> c_nelems cb \<noteq> 0"
    by (auto simp: cbuf_inv_def cbuf_off_def intro!: Nat.gr0I)
next
  assume "c_begin cb = c_end cb \<and> c_nelems cb \<noteq> 0"
  with assms show "c_nelems cb * c_obj_size cb = c_limit cb"
    by (auto simp: cbuf_inv_def cbuf_off_def Let_def split: if_splits)
qed

text \<open>A queue with room for one more object.\<close>

definition cbuf_room :: "'a cbuffer \<Rightarrow> bool" where
  "cbuf_room cb \<longleftrightarrow> c_alloc cb \<and> Suc (c_nelems cb) * c_obj_size cb \<le> c_limit cb"

lemma cbuf_room_if:
  assumes inv: "cbuf_inv cb" and "\<not> cbuf_must_grow cb"
  shows "cbuf_room cb"
proof -
  have a: "c_alloc cb" and "c_nelems cb * c_obj_size cb \<noteq> c_limit cb"
    using assms cbuf_full_end [OF inv] by (auto simp: cbuf_must_grow_def)
  then have "c_nelems cb * c_obj_size cb + c_obj_size cb \<le> c_limit cb"
    using inv by (intro dvd_less_step) (auto simp: cbuf_inv_def)
  with a show ?thesis by (simp add: cbuf_room_def)
qed

lemma cbuf_grow_room:
  assumes inv: "cbuf_inv cb" and "cbuf_must_grow cb"
  shows "cbuf_inv (cbuf_grow cb)" and "cbuf_room (cbuf_grow cb)"
    and "cbuf_list (cbuf_grow cb) = cbuf_list cb"
    and "c_nelems (cbuf_grow cb) = c_nelems cb"
proof -
  let ?g = "cbuf_grow cb"
  let ?os = "c_obj_size cb"
  let ?n = "c_nelems cb"
  have os: "0 < ?os" and len: "?n * ?os = c_limit cb"
    using assms cbuf_full_end [OF inv]
    by (auto simp: cbuf_must_grow_def cbuf_inv_def split: if_splits)
  have fields: "c_obj_size ?g = ?os" "c_nelems ?g = ?n" "c_alloc ?g" "c_begin ?g = 0"
      "c_limit ?g = mx_bytes ?os (2 * c_limit cb)"
      "c_data ?g = cbuf_relocate (c_begin cb) (c_limit cb - c_begin cb) (c_end cb) (c_data cb)"
    by (simp_all add: cbuf_grow_def Let_def)
  have be: "c_begin cb = c_end cb" "c_begin cb \<le> c_limit cb"
    using assms by (auto simp: cbuf_must_grow_def cbuf_inv_def cbuf_off_def Let_def split: if_splits)
  have fin: "c_end ?g = c_limit cb"
    using be by (simp add: cbuf_grow_def Let_def)
  have lim: "?n * ?os + ?os \<le> c_limit ?g"
    using len os by (cases ?n) (auto simp: fields mx_bytes_def)
  have off: "cbuf_off ?g i = i * ?os" if "i \<le> ?n" for i
  proof -
    have "i * ?os < c_limit ?g"
      using mult_le_mono1 [OF that, of ?os] lim os by linarith
    then show ?thesis by (simp add: cbuf_off_def fields)
  qed
  have data: "c_data ?g (cbuf_off ?g i) = c_data cb (cbuf_off cb i)" if "i < ?n" for i
  proof -
    have "i * ?os < c_limit cb"
      using that os len by (metis mult_less_mono1)
    then show ?thesis
      using be off [of i] that by (auto simp: fields cbuf_relocate_def cbuf_off_def Let_def add.commute)
  qed
  show "cbuf_room ?g"
    using lim by (simp add: cbuf_room_def fields add.commute)
  show "cbuf_inv ?g"
    unfolding cbuf_inv_def using inv os lim off [of ?n] fin len data
    by (auto simp: fields mx_bytes_def cbuf_inv_def)
  show "cbuf_list ?g = cbuf_list cb"
    using data by (auto simp: cbuf_list_def fields)
  show "c_nelems ?g = c_nelems cb" by (fact fields)
qed

text \<open>Pushing into free room: the returned slot is the one after the last object.\<close>

lemma cbuf_room_end:
  assumes inv: "cbuf_inv cb" and room: "cbuf_room cb"
  shows "(if c_end cb + c_obj_size cb = c_limit cb then 0 else c_end cb + c_obj_size cb)
       = cbuf_off cb (Suc (c_nelems cb))"
proof -
  let ?os = "c_obj_size cb"
  let ?q = "c_begin cb + c_nelems cb * ?os"
  have os: "0 < ?os" and b: "c_begin cb < c_limit cb" and n: "c_nelems cb * ?os + ?os \<le> c_limit cb"
    and e: "c_end cb = cbuf_off cb (c_nelems cb)"
    using inv room by (auto simp: cbuf_inv_def cbuf_room_def)
  show ?thesis
  proof (cases "?q < c_limit cb")
    case True
    then have "?q + ?os \<le> c_limit cb"
      using inv by (intro dvd_less_step) (auto simp: cbuf_inv_def)
    with True show ?thesis
      using e by (auto simp: cbuf_off_def Let_def add.assoc add.left_commute add.commute)
  next
    case False
    with b n show ?thesis
      using e os by (auto simp: cbuf_off_def Let_def)
  qed
qed

lemma cbuf_push_room:
  assumes inv: "cbuf_inv cb" and room: "cbuf_room cb"
    and cb': "cb' = cb\<lparr>c_nelems := Suc (c_nelems cb),
      c_end := (if c_end cb + c_obj_size cb = c_limit cb then 0 else c_end cb + c_obj_size cb)\<rparr>"
  shows "cbuf_inv (cbuf_store cb' (c_end cb) x)"
    and "cbuf_list (cbuf_store cb' (c_end cb) x) = cbuf_list cb @ [x]"
proof -
  let ?s = "cbuf_store cb' (c_end cb) x"
  let ?n = "c_nelems cb"
  have os: "0 < c_obj_size cb" and b: "c_begin cb < c_limit cb"
    and n: "?n * c_obj_size cb + c_obj_size cb \<le> c_limit cb"
    and e: "c_end cb = cbuf_off cb ?n"
    using inv room by (auto simp: cbuf_inv_def cbuf_room_def)
  have off: "cbuf_off (cbuf_store cb' q x) i = cbuf_off cb i" for q i
    by (simp add: cbuf_store_def cb' cbuf_off_def Let_def)
  have lt: "i * c_obj_size cb < c_limit cb" if "i \<le> ?n" for i
    using that n os mult_le_mono1 [OF that, of "c_obj_size cb"] by linarith
  have ne: "cbuf_off cb i \<noteq> c_end cb" if "i < ?n" for i
    using cbuf_off_inj [OF os b lt lt, of i ?n] that e by auto
  show "cbuf_inv ?s"
    unfolding cbuf_inv_def off
    using inv n ne e cbuf_room_end [OF inv room]
    by (auto simp: cbuf_store_def cb' cbuf_inv_def less_Suc_eq)
  show "cbuf_list ?s = cbuf_list cb @ [x]"
  proof (rule nth_equalityI)
    show "length (cbuf_list ?s) = length (cbuf_list cb @ [x])"
      by (simp add: cbuf_store_def cb')
    fix i assume "i < length (cbuf_list ?s)"
    then have i: "i < c_nelems ?s" "i \<le> ?n"
      by (simp_all add: cbuf_store_def cb')
    have "c_data ?s = (c_data cb)(c_end cb \<mapsto> x)"
      by (simp add: cbuf_store_def cb')
    with i ne e show "cbuf_list ?s ! i = (cbuf_list cb @ [x]) ! i"
      by (auto simp: off nth_append)
  qed
qed

section \<open>The queue contract\<close>

text \<open>
  A queue whose \<open>push\<close> hands out a slot that the caller fills in. \<open>front\<close> reads the oldest
  object, \<open>pop\<close> drops it.
\<close>

locale fifo =
  fixes inv :: "'q \<Rightarrow> bool"
    and contents :: "'q \<Rightarrow> 'a list"
    and push :: "bool \<Rightarrow> 'q \<Rightarrow> nat option \<times> 'q"
    and store :: "'q \<Rightarrow> nat \<Rightarrow> 'a \<Rightarrow> 'q"
    and front :: "'q \<Rightarrow> 'a option"
    and pop :: "'q \<Rightarrow> 'q"
  assumes push_law: "inv q \<Longrightarrow> push ok q = (Some p, q') \<Longrightarrow>
      inv (store q' p x) \<and> contents (store q' p x) = contents q @ [x]"
    and push_fail: "push ok q = (None, q') \<Longrightarrow> q' = q"
    and push_ok: "push True q = (r, q') \<Longrightarrow> r \<noteq> None"
    and front_law: "inv q \<Longrightarrow> contents q \<noteq> [] \<Longrightarrow> front q = Some (hd (contents q))"
    and pop_law: "inv q \<Longrightarrow> contents q \<noteq> [] \<Longrightarrow> inv (pop q) \<and> contents (pop q) = tl (contents q)"
begin

text \<open>An object pushed while the queue is being consumed ends up behind everything else, and
  removing the front afterwards leaves the rest in order.\<close>

lemma push_then_pop:
  assumes "inv q" and "contents q = y # ys" and "push ok q = (Some p, q')"
  shows "inv (pop (store q' p x))" and "contents (pop (store q' p x)) = ys @ [x]"
  using push_law [OF assms(1,3), of x] pop_law [of "store q' p x"] assms(2) by auto

lemma pops_contents:
  assumes "inv q" and "n \<le> length (contents q)"
  shows "inv ((pop ^^ n) q) \<and> contents ((pop ^^ n) q) = drop n (contents q)"
  using assms(2)
proof (induction n)
  case 0
  with assms(1) show ?case by simp
next
  case (Suc n)
  then have "inv ((pop ^^ n) q)" and c: "contents ((pop ^^ n) q) = drop n (contents q)"
    by auto
  moreover have "contents ((pop ^^ n) q) \<noteq> []"
    using Suc.prems c by simp
  ultimately show ?case
    using pop_law [of "(pop ^^ n) q"] by (simp add: drop_Suc tl_drop)
qed

text \<open>First in, first out: the \<open>n\<close>-th object consumed is the \<open>n\<close>-th one queued.\<close>

lemma fifo_order:
  assumes "inv q" and "n < length (contents q)"
  shows "front ((pop ^^ n) q) = Some (contents q ! n)"
proof -
  have "inv ((pop ^^ n) q)" and c: "contents ((pop ^^ n) q) = drop n (contents q)"
    using pops_contents assms by auto
  then have "front ((pop ^^ n) q) = Some (hd (drop n (contents q)))"
    using front_law [of "(pop ^^ n) q"] assms(2) by simp
  with assms(2) show ?thesis by (simp add: hd_drop_conv_nth)
qed

end

lemma cbuf_push_spec:
  assumes inv: "cbuf_inv cb" and p: "cbuf_push ok cb = (Some p, cb')"
  shows "cbuf_inv (cbuf_store cb' p x)" and "cbuf_list (cbuf_store cb' p x) = cbuf_list cb @ [x]"
proof -
  define g where "g = (if cbuf_must_grow cb then cbuf_grow cb else cb)"
  have g: "cbuf_inv g" "cbuf_room g" "cbuf_list g = cbuf_list cb"
    using cbuf_grow_room [OF inv] cbuf_room_if [OF inv] inv by (auto simp: g_def)
  have "p = c_end g" and "cb' = g\<lparr>c_nelems := Suc (c_nelems g),
      c_end := (if c_end g + c_obj_size g = c_limit g then 0 else c_end g + c_obj_size g)\<rparr>"
    using p by (auto simp: cbuf_push_def g_def Let_def split: if_splits)
  then show "cbuf_inv (cbuf_store cb' p x)"
      and "cbuf_list (cbuf_store cb' p x) = cbuf_list cb @ [x]"
    using cbuf_push_room [OF g(1,2)] g(3) by simp_all
qed

lemma cbuf_pop_spec:
  assumes inv: "cbuf_inv cb" and ne: "cbuf_list cb \<noteq> []"
  shows "cbuf_inv (cbuf_pop cb)" and "cbuf_list (cbuf_pop cb) = tl (cbuf_list cb)"
proof -
  let ?os = "c_obj_size cb"
  have n: "0 < c_nelems cb"
    using ne by (simp add: cbuf_list_def)
  then obtain m where m: "c_nelems cb = Suc m"
    by (cases "c_nelems cb") auto
  have os: "0 < ?os" and b: "c_begin cb < c_limit cb" and al: "c_alloc cb"
    and full: "m * ?os + ?os \<le> c_limit cb"
    using inv m by (auto simp: cbuf_inv_def split: if_splits)
  have step: "c_begin cb + ?os \<le> c_limit cb"
    using inv b by (intro dvd_less_step) (auto simp: cbuf_inv_def)
  have off: "cbuf_off (cbuf_pop cb) i = cbuf_off cb (Suc i)" if "i \<le> m" for i
  proof -
    have "i * ?os < c_limit cb"
      using mult_le_mono1 [OF that, of ?os] full os by linarith
    then show ?thesis
      using step by (auto simp: cbuf_off_def cbuf_pop_def Let_def add.assoc)
  qed
  show "cbuf_inv (cbuf_pop cb)"
    unfolding cbuf_inv_def using inv off [of m] off m full step os b al
    by (auto simp: cbuf_pop_def cbuf_inv_def Let_def)
  show "cbuf_list (cbuf_pop cb) = tl (cbuf_list cb)"
  proof (rule nth_equalityI)
    show "length (cbuf_list (cbuf_pop cb)) = length (tl (cbuf_list cb))"
      using m by (simp add: cbuf_pop_def Let_def)
    fix i assume "i < length (cbuf_list (cbuf_pop cb))"
    then have "i < m" using m by (simp add: cbuf_pop_def Let_def)
    then show "cbuf_list (cbuf_pop cb) ! i = tl (cbuf_list cb) ! i"
      using off [of i] m by (simp add: nth_tl) (simp add: cbuf_pop_def Let_def)
  qed
qed

lemma cbuf_front_spec:
  assumes inv: "cbuf_inv cb" and ne: "cbuf_list cb \<noteq> []"
  shows "cbuf_load cb (cbuf_front cb) = Some (hd (cbuf_list cb))"
proof -
  have n: "0 < c_nelems cb"
    using ne by (simp add: cbuf_list_def)
  then have "c_begin cb < c_limit cb"
    using inv by (auto simp: cbuf_inv_def split: if_splits)
  then have "cbuf_off cb 0 = c_begin cb"
    by (simp add: cbuf_off_def)
  moreover have "c_data cb (cbuf_off cb 0) \<noteq> None"
    using inv n by (simp add: cbuf_inv_def)
  ultimately show ?thesis
    using n ne by (auto simp: cbuf_load_def cbuf_front_def hd_conv_nth)
qed

interpretation cbq: fifo cbuf_inv cbuf_list cbuf_push cbuf_store
  "\<lambda>cb. cbuf_load cb (cbuf_front cb)" cbuf_pop
  by unfold_locales
    (auto simp: cbuf_push_spec cbuf_pop_spec cbuf_front_spec cbuf_push_def Let_def split: if_splits)

lemma cbuf_clear_spec [simp]:
  "cbuf_list (cbuf_clear cb) = []"
  "cbuf_inv cb \<Longrightarrow> cbuf_inv (cbuf_clear cb)"
  by (auto simp: cbuf_clear_def cbuf_list_def cbuf_inv_def cbuf_off_def split: if_splits)

section \<open>Refinement of a list queue\<close>

text \<open>A sequence of pushes and pops, on the buffer and on a list. Popping needs an object to pop.\<close>

datatype 'a queue_op = Push 'a | Pop

fun cbuf_run :: "'a queue_op list \<Rightarrow> 'a cbuffer \<Rightarrow> ('a list \<times> 'a cbuffer) option" where
  "cbuf_run [] cb = Some ([], cb)"
| "cbuf_run (Push x # ops) cb =
     (case cbuf_push True cb of
        (None, cb) \<Rightarrow> None
      | (Some p, cb) \<Rightarrow> cbuf_run ops (cbuf_store cb p x))"
| "cbuf_run (Pop # ops) cb =
     (if cbuf_empty cb then None
      else do { x \<leftarrow> cbuf_load cb (cbuf_front cb);
                (xs, cb) \<leftarrow> cbuf_run ops (cbuf_pop cb);
                Some (x # xs, cb) })"

fun queue_run :: "'a queue_op list \<Rightarrow> 'a list \<Rightarrow> ('a list \<times> 'a list) option" where
  "queue_run [] q = Some ([], q)"
| "queue_run (Push x # ops) q = queue_run ops (q @ [x])"
| "queue_run (Pop # ops) q =
     (case q of [] \<Rightarrow> None | x # q \<Rightarrow> map_option (\<lambda>(xs, q). (x # xs, q)) (queue_run ops q))"

text \<open>
  C29. The circular buffer refines a list queue: for every sequence of pushes and pops, through any
  number of wrap-arounds and relocations, the objects it delivers and the objects that remain are
  those of the list; the buffer's invariant holds at the end.
\<close>

theorem cbuf_refines_queue:
  assumes "cbuf_inv cb"
  shows "map_option (\<lambda>(xs, cb). (xs, cbuf_list cb)) (cbuf_run ops cb) = queue_run ops (cbuf_list cb)
    \<and> (\<forall>xs cb'. cbuf_run ops cb = Some (xs, cb') \<longrightarrow> cbuf_inv cb')"
  using assms
proof (induction ops cb rule: cbuf_run.induct)
  case (2 x ops cb)
  obtain p cb' where p: "cbuf_push True cb = (Some p, cb')"
    using cbq.push_ok [of cb] by (cases "cbuf_push True cb") auto
  then show ?case
    using "2.IH" [OF p [symmetric] refl] cbq.push_law [OF "2.prems" p, of x] by simp
next
  case (3 ops cb)
  show ?case
  proof (cases "cbuf_list cb")
    case Nil
    then show ?thesis by (simp add: cbuf_empty_list)
  next
    case (Cons y ys)
    then have l: "cbuf_load cb (cbuf_front cb) = Some y" "cbuf_inv (cbuf_pop cb)" "cbuf_list (cbuf_pop cb) = ys"
      using cbq.front_law [OF "3.prems"] cbq.pop_law [OF "3.prems"] by simp_all
    have ih: "queue_run ops ys = map_option (\<lambda>(xs, cb). (xs, cbuf_list cb)) (cbuf_run ops (cbuf_pop cb))"
        "\<forall>xs cb'. cbuf_run ops (cbuf_pop cb) = Some (xs, cb') \<longrightarrow> cbuf_inv cb'"
      using "3.IH" [of y] l Cons by (simp_all add: cbuf_empty_list)
    show ?thesis
      using l ih Cons by (cases "cbuf_run ops (cbuf_pop cb)") (auto simp: cbuf_empty_list)
  qed
qed simp

theorem cbuf_refines_queue_witness:
  "map_option (\<lambda>(xs, cb). (xs, cbuf_list cb)) (cbuf_run [Push (1 :: int), Push 2, Pop, Push 3, Push 4, Pop] (cbuf_init 16))
     = Some ([1, 2], [3, 4])"
  using cbuf_refines_queue [of "cbuf_init 16" "[Push (1 :: int), Push 2, Pop, Push 3, Push 4, Pop]"]
  by (simp add: cbuf_inv_init del: cbuf_run.simps)

end
