(* ===== verification/Heaputils.thy ===== *)
theory Heaputils
  imports Prelude
begin

text \<open>
  The binary-heap routines of \<open>src/heaputils.c\<close> and \<open>src/heaputils.h\<close>.

  The C functions receive the array and two callbacks, \<open>lt\<close> comparing and \<open>swap\<close> exchanging
  the elements behind two pointers. An element pointer is its index. The state \<open>'s\<close> is
  whatever the callbacks read and write (the array, and for the events heap also the tree
  nodes that record their heap position); \<open>nelems\<close> reads the array's size off it. \<open>None\<close> is a
  fault in a callback. The locale \<open>heap_array\<close> states what a client's callbacks promise and
  carries the heap-order theory.
\<close>

section \<open>The routines\<close>

definition heap_up :: "nat \<Rightarrow> nat" where
  "heap_up idx = (idx - 1) div 2"

definition heap_left :: "nat \<Rightarrow> nat" where
  "heap_left idx = 2 * idx + 1"

function heap_sift_up_idx ::
  "(nat \<Rightarrow> nat \<Rightarrow> 's \<Rightarrow> bool option) \<Rightarrow> (nat \<Rightarrow> nat \<Rightarrow> 's \<Rightarrow> 's option) \<Rightarrow> nat \<Rightarrow> 's \<Rightarrow> 's option"
where
  "heap_sift_up_idx lt swap idx s =
     (if idx = 0 then Some s
      else let parent = heap_up idx in
        do { less \<leftarrow> lt idx parent s;
             if less then do { s' \<leftarrow> swap parent idx s; heap_sift_up_idx lt swap parent s' }
             else Some s })"
  by pat_completeness auto
termination
  by (relation "measure (\<lambda>(lt, swap, idx, s). idx)") (auto simp: heap_up_def)

declare heap_sift_up_idx.simps [simp del]

text \<open>One round of the sift-down loop picks the smallest of the element and its children.\<close>

definition heap_min_child ::
  "('s \<Rightarrow> nat) \<Rightarrow> (nat \<Rightarrow> nat \<Rightarrow> 's \<Rightarrow> bool option) \<Rightarrow> nat \<Rightarrow> 's \<Rightarrow> nat option"
where
  "heap_min_child nelems lt idx s =
     (let left_idx = heap_left idx; right_idx = left_idx + 1 in
      do { l \<leftarrow> lt left_idx idx s;
           let min_idx = (if l then left_idx else idx);
           if right_idx < nelems s
           then do { r \<leftarrow> lt right_idx min_idx s; Some (if r then right_idx else min_idx) }
           else Some min_idx })"

partial_function (option) heap_sift_down_idx ::
  "('s \<Rightarrow> nat) \<Rightarrow> (nat \<Rightarrow> nat \<Rightarrow> 's \<Rightarrow> bool option) \<Rightarrow> (nat \<Rightarrow> nat \<Rightarrow> 's \<Rightarrow> 's option)
    \<Rightarrow> nat \<Rightarrow> 's \<Rightarrow> 's option"
where
  "heap_sift_down_idx nelems lt swap idx s =
     (if nelems s \<le> heap_left idx then Some s
      else do { min_idx \<leftarrow> heap_min_child nelems lt idx s;
                if min_idx \<noteq> idx
                then do { s' \<leftarrow> swap min_idx idx s; heap_sift_down_idx nelems lt swap min_idx s' }
                else Some s })"

declare heap_sift_down_idx.simps [code]

text \<open>\<open>heap_sift_up\<close> and \<open>heap_sift_down\<close> recover the index from an element pointer.\<close>

definition heap_sift_up ::
  "(nat \<Rightarrow> nat \<Rightarrow> 's \<Rightarrow> bool option) \<Rightarrow> (nat \<Rightarrow> nat \<Rightarrow> 's \<Rightarrow> 's option) \<Rightarrow> nat \<Rightarrow> 's \<Rightarrow> 's option"
where
  "heap_sift_up lt swap elem s = heap_sift_up_idx lt swap elem s"

definition heap_sift_down ::
  "('s \<Rightarrow> nat) \<Rightarrow> (nat \<Rightarrow> nat \<Rightarrow> 's \<Rightarrow> bool option) \<Rightarrow> (nat \<Rightarrow> nat \<Rightarrow> 's \<Rightarrow> 's option)
    \<Rightarrow> nat \<Rightarrow> 's \<Rightarrow> 's option"
where
  "heap_sift_down nelems lt swap elem s = heap_sift_down_idx nelems lt swap elem s"

section \<open>Heap order on lists of keys\<close>

definition is_heap :: "'k::linorder list \<Rightarrow> bool" where
  "is_heap ks \<longleftrightarrow> (\<forall>i. 0 < i \<and> i < length ks \<longrightarrow> ks ! heap_up i \<le> ks ! i)"

text \<open>Heap order with one defect at \<open>i\<close>: towards its parent, or towards its children.\<close>

definition heap_except_up :: "'k::linorder list \<Rightarrow> nat \<Rightarrow> bool" where
  "heap_except_up ks i \<longleftrightarrow>
     (\<forall>j. 0 < j \<and> j < length ks \<and> j \<noteq> i \<longrightarrow> ks ! heap_up j \<le> ks ! j)
   \<and> (\<forall>j. 0 < j \<and> j < length ks \<and> heap_up j = i \<and> 0 < i \<longrightarrow> ks ! heap_up i \<le> ks ! j)"

definition heap_except_down :: "'k::linorder list \<Rightarrow> nat \<Rightarrow> bool" where
  "heap_except_down ks i \<longleftrightarrow>
     (\<forall>j. 0 < j \<and> j < length ks \<and> heap_up j \<noteq> i \<longrightarrow> ks ! heap_up j \<le> ks ! j)
   \<and> (\<forall>j. 0 < j \<and> j < length ks \<and> heap_up j = i \<and> 0 < i \<longrightarrow> ks ! heap_up i \<le> ks ! j)"

lemma heap_up_less: "0 < i \<Longrightarrow> heap_up i < i"
  by (auto simp: heap_up_def)

lemma heap_up_bound: "i < n \<Longrightarrow> heap_up i < n"
  by (auto simp: heap_up_def)

lemma heap_up_le: "heap_up i \<le> i"
  by (auto simp: heap_up_def)

lemma heap_up_eq_iff: "0 < j \<Longrightarrow> heap_up j = i \<longleftrightarrow> j = heap_left i \<or> j = heap_left i + 1"
  by (auto simp: heap_up_def heap_left_def)

lemma heap_left_gt: "i < heap_left i"
  by (simp add: heap_left_def)

lemma is_heap_Nil [simp]: "is_heap []"
  by (simp add: is_heap_def)

lemma is_heap_min:
  assumes "is_heap ks" and "i < length ks"
  shows "ks ! 0 \<le> ks ! i"
  using assms(2)
proof (induction i rule: less_induct)
  case (less i)
  show ?case
  proof (cases "i = 0")
    case False
    then have "heap_up i < i" by (simp add: heap_up_less)
    with less have "ks ! 0 \<le> ks ! heap_up i" by simp
    also have "\<dots> \<le> ks ! i"
      using assms(1) less.prems False by (simp add: is_heap_def)
    finally show ?thesis .
  qed simp
qed

lemma heap_append_except_up:
  assumes "is_heap ks"
  shows "heap_except_up (ks @ [k]) (length ks)"
  unfolding heap_except_up_def
proof (intro conjI allI impI; elim conjE)
  fix j assume "0 < j" "j < length (ks @ [k])" "j \<noteq> length ks"
  then show "(ks @ [k]) ! heap_up j \<le> (ks @ [k]) ! j"
    using assms by (simp add: is_heap_def nth_append heap_up_bound)
next
  fix j assume "0 < j" "j < length (ks @ [k])" "heap_up j = length ks"
  then show "(ks @ [k]) ! heap_up (length ks) \<le> (ks @ [k]) ! j"
    using heap_up_less [of j] by simp
qed

lemma heap_decrease_except_up:
  assumes "is_heap ks" and "i < length ks" and "k \<le> ks ! i"
  shows "heap_except_up (ks[i := k]) i"
  unfolding heap_except_up_def
proof (intro conjI allI impI; elim conjE)
  fix j assume j: "0 < j" "j < length (ks[i := k])" "j \<noteq> i"
  then have "ks ! heap_up j \<le> ks ! j"
    using assms(1) by (simp add: is_heap_def)
  with j assms(2,3) show "ks[i := k] ! heap_up j \<le> ks[i := k] ! j"
    by (auto simp: nth_list_update)
next
  fix j assume j: "0 < j" "j < length (ks[i := k])" "heap_up j = i" "0 < i"
  then have "ks ! heap_up i \<le> ks ! i" "ks ! i \<le> ks ! j"
    using assms(1,2) by (auto simp: is_heap_def)
  with j assms(2) heap_up_less [of i] heap_up_less [of j]
  show "ks[i := k] ! heap_up i \<le> ks[i := k] ! j"
    by (auto simp: nth_list_update)
qed

lemma heap_replace_root_except_down:
  assumes "is_heap ks"
  shows "heap_except_down (ks[0 := k]) 0"
  using assms by (auto simp: heap_except_down_def is_heap_def nth_list_update)

lemma is_heap_butlast: "is_heap ks \<Longrightarrow> is_heap (butlast ks)"
  by (auto simp: is_heap_def nth_butlast heap_up_bound)

text \<open>One upward exchange moves the defect to the parent.\<close>

lemma heap_except_up_step:
  assumes h: "heap_except_up ks i" and i: "0 < i" "i < length ks" and lt: "ks ! i < ks ! heap_up i"
  shows "heap_except_up (list_swap ks (heap_up i) i) (heap_up i)"
proof -
  let ?p = "heap_up i"
  have p: "?p < i" "?p < length ks"
    using i heap_up_less [of i] by auto
  note sw = nth_list_swap [OF p(2) i(2)]
  have base: "ks ! heap_up j \<le> ks ! j" if "0 < j" "j < length ks" "j \<noteq> i" for j
    using h that by (simp add: heap_except_up_def)
  have kids: "ks ! ?p \<le> ks ! j" if "0 < j" "j < length ks" "heap_up j = i" for j
    using h i that by (simp add: heap_except_up_def)
  show ?thesis
    unfolding heap_except_up_def
  proof (intro conjI allI impI; elim conjE)
    fix j assume j: "0 < j" "j < length (list_swap ks ?p i)" "j \<noteq> ?p"
    then have jl: "j < length ks" "heap_up j < length ks"
      using heap_up_less [of j] by auto
    show "list_swap ks ?p i ! heap_up j \<le> list_swap ks ?p i ! j"
      using j jl p lt base [of j] kids [of j] by (auto simp: sw)
  next
    fix j assume j: "0 < j" "j < length (list_swap ks ?p i)" "heap_up j = ?p" "0 < ?p"
    then have jl: "j < length ks" "heap_up ?p < length ks" "heap_up ?p < ?p"
      using heap_up_less [of ?p] p by auto
    have "ks ! heap_up ?p \<le> ks ! ?p"
      using base [of ?p] j p by auto
    then show "list_swap ks ?p i ! heap_up ?p \<le> list_swap ks ?p i ! j"
      using j jl p base [of j] by (auto simp: sw)
  qed
qed

lemma heap_except_up_done:
  assumes "heap_except_up ks i" and "i = 0 \<or> ks ! heap_up i \<le> ks ! i"
  shows "is_heap ks"
  using assms by (auto simp: heap_except_up_def is_heap_def)

lemma heap_except_down_step:
  assumes h: "heap_except_down ks i" and c: "0 < c" "c < length ks" "heap_up c = i"
    and min: "ks ! c < ks ! i" "\<And>j. 0 < j \<Longrightarrow> j < length ks \<Longrightarrow> heap_up j = i \<Longrightarrow> ks ! c \<le> ks ! j"
  shows "heap_except_down (list_swap ks c i) c"
proof -
  have i: "i < c" "i < length ks"
    using c heap_up_less [of c] by auto
  note sw = nth_list_swap [OF c(2) i(2)]
  have base: "ks ! heap_up j \<le> ks ! j" if "0 < j" "j < length ks" "heap_up j \<noteq> i" for j
    using h that by (simp add: heap_except_down_def)
  have grand: "ks ! heap_up i \<le> ks ! c" if "0 < i"
    using h that c by (simp add: heap_except_down_def)
  show ?thesis
    unfolding heap_except_down_def
  proof (intro conjI allI impI; elim conjE)
    fix j assume j: "0 < j" "j < length (list_swap ks c i)" "heap_up j \<noteq> c"
    then have jl: "j < length ks" "heap_up j < length ks" "heap_up j < j"
      using heap_up_less [of j] by auto
    show "list_swap ks c i ! heap_up j \<le> list_swap ks c i ! j"
      using j jl i c min(1) min(2) [of j] base [of j] grand by (auto simp: sw)
  next
    fix j assume j: "0 < j" "j < length (list_swap ks c i)" "heap_up j = c" "0 < c"
    then have jl: "j < length ks" "c < j"
      using heap_up_less [of j] by auto
    then show "list_swap ks c i ! heap_up c \<le> list_swap ks c i ! j"
      using j i c base [of j] by (auto simp: sw)
  qed
qed

lemma heap_except_down_done:
  assumes "heap_except_down ks i"
    and "\<And>j. 0 < j \<Longrightarrow> j < length ks \<Longrightarrow> heap_up j = i \<Longrightarrow> ks ! i \<le> ks ! j"
  shows "is_heap ks"
  using assms by (auto simp: heap_except_down_def is_heap_def)

section \<open>The contract of the callbacks\<close>

text \<open>
  \<open>inv\<close> is the client's invariant, \<open>elems\<close> the array it stands for and \<open>key\<close> an element's
  deadline. \<open>lt\<close> compares keys and \<open>swap\<close> exchanges two elements.
\<close>

locale heap_array =
  fixes inv :: "'s \<Rightarrow> bool"
    and elems :: "'s \<Rightarrow> 'e list"
    and key :: "'e \<Rightarrow> 'k::linorder"
    and nelems :: "'s \<Rightarrow> nat"
    and lt :: "nat \<Rightarrow> nat \<Rightarrow> 's \<Rightarrow> bool option"
    and swap :: "nat \<Rightarrow> nat \<Rightarrow> 's \<Rightarrow> 's option"
  assumes nelems_law: "inv s \<Longrightarrow> nelems s = length (elems s)"
    and lt_law: "inv s \<Longrightarrow> i < length (elems s) \<Longrightarrow> j < length (elems s) \<Longrightarrow>
      lt i j s = Some (key (elems s ! i) < key (elems s ! j))"
    and swap_law: "inv s \<Longrightarrow> i < length (elems s) \<Longrightarrow> j < length (elems s) \<Longrightarrow> i \<noteq> j \<Longrightarrow>
      \<exists>s'. swap i j s = Some s' \<and> inv s' \<and> elems s' = list_swap (elems s) i j"
begin

abbreviation keys :: "'s \<Rightarrow> 'k list" where
  "keys s \<equiv> map key (elems s)"

lemma sift_up:
  assumes "inv s" and "heap_except_up (keys s) idx" and "idx < length (elems s)"
  shows "\<exists>s'. heap_sift_up_idx lt swap idx s = Some s' \<and> inv s'
    \<and> mset (elems s') = mset (elems s) \<and> is_heap (keys s')"
  using assms
proof (induction idx arbitrary: s rule: less_induct)
  case (less idx)
  show ?case
  proof (cases "idx = 0")
    case True
    with less.prems show ?thesis
      by (auto simp: heap_sift_up_idx.simps [of lt swap 0 s] intro: heap_except_up_done)
  next
    case False
    let ?p = "heap_up idx"
    have p: "?p < idx" "?p < length (elems s)" "?p \<noteq> idx"
      using False less.prems(3) heap_up_less [of idx] by auto
    have cmp: "lt idx ?p s = Some (key (elems s ! idx) < key (elems s ! ?p))"
      using less.prems p by (intro lt_law) auto
    show ?thesis
    proof (cases "key (elems s ! idx) < key (elems s ! ?p)")
      case True
      obtain s1 where s1: "swap ?p idx s = Some s1" "inv s1" "elems s1 = list_swap (elems s) ?p idx"
        using swap_law [OF less.prems(1) p(2) less.prems(3) p(3)] by blast
      have "heap_except_up (keys s1) ?p"
        using heap_except_up_step [OF less.prems(2)] False less.prems(3) p True
        by (simp add: s1(3) map_list_swap)
      then obtain s' where "heap_sift_up_idx lt swap ?p s1 = Some s'" "inv s'"
          "mset (elems s') = mset (elems s1)" "is_heap (keys s')"
        using less.IH [OF p(1) s1(2)] p(2) s1(3) by auto
      then show ?thesis
        using False cmp True s1 p less.prems(3)
        by (auto simp: heap_sift_up_idx.simps [of lt swap idx s])
    next
      case False
      then have "is_heap (keys s)"
        using less.prems p by (intro heap_except_up_done [OF less.prems(2)]) auto
      with False cmp less.prems show ?thesis
        by (auto simp: heap_sift_up_idx.simps [of lt swap idx s])
    qed
  qed
qed

text \<open>An element that is not smaller than the front one never displaces it.\<close>

lemma sift_up_front:
  assumes "inv s" "idx < length (elems s)" "key (elems s ! 0) \<le> key (elems s ! idx)"
    and "heap_sift_up_idx lt swap idx s = Some s'"
  shows "elems s' ! 0 = elems s ! 0"
  using assms
proof (induction idx arbitrary: s rule: less_induct)
  case (less idx)
  show ?case
  proof (cases "idx = 0")
    case True
    with less.prems show ?thesis by (simp add: heap_sift_up_idx.simps [of lt swap 0 s])
  next
    case False
    let ?p = "heap_up idx"
    have p: "?p < idx" "?p < length (elems s)" "?p \<noteq> idx"
      using False less.prems(2) heap_up_less [of idx] by auto
    have cmp: "lt idx ?p s = Some (key (elems s ! idx) < key (elems s ! ?p))"
      using less.prems p by (intro lt_law) auto
    obtain s1 where s1: "swap ?p idx s = Some s1" "inv s1" "elems s1 = list_swap (elems s) ?p idx"
      using swap_law [OF less.prems(1) p(2) less.prems(2) p(3)] by blast
    show ?thesis
    proof (cases "key (elems s ! idx) < key (elems s ! ?p)")
      case True
      then have "?p \<noteq> 0"
        using less.prems(3) by (metis not_less)
      then have same: "elems s1 ! 0 = elems s ! 0" "elems s1 ! ?p = elems s ! idx"
        using s1(3) p False less.prems(2) by (simp_all add: list_swap_def)
      have "heap_sift_up_idx lt swap ?p s1 = Some s'"
        using less.prems(4) False cmp True s1(1) by (simp add: heap_sift_up_idx.simps [of lt swap idx s])
      then show ?thesis
        using less.IH [OF p(1) s1(2)] same p s1(3) less.prems(3) by simp
    next
      case False
      then show ?thesis
        using less.prems(4) \<open>idx \<noteq> 0\<close> cmp by (simp add: heap_sift_up_idx.simps [of lt swap idx s])
    qed
  qed
qed

text \<open>The chosen index is the smallest of the element and its children.\<close>

lemma min_child:
  assumes inv: "inv s" and l: "heap_left idx < length (elems s)"
  obtains m where "heap_min_child nelems lt idx s = Some m" "m < length (elems s)"
    "m = idx \<or> heap_up m = idx \<and> 0 < m \<and> key (elems s ! m) < key (elems s ! idx)"
    "\<And>j. 0 < j \<Longrightarrow> j < length (elems s) \<Longrightarrow> heap_up j = idx \<Longrightarrow> key (elems s ! m) \<le> key (elems s ! j)"
proof -
  have idx: "idx < length (elems s)"
    using l heap_left_gt [of idx] by simp
  define m0 where "m0 = (if key (elems s ! heap_left idx) < key (elems s ! idx) then heap_left idx else idx)"
  have m0: "m0 < length (elems s)"
    using l idx by (simp add: m0_def)
  define m where "m = (if heap_left idx + 1 < length (elems s)
      \<and> key (elems s ! (heap_left idx + 1)) < key (elems s ! m0) then heap_left idx + 1 else m0)"
  have up: "heap_up (heap_left idx) = idx" "heap_up (heap_left idx + 1) = idx" "0 < heap_left idx"
    by (auto simp: heap_up_def heap_left_def)
  have "heap_min_child nelems lt idx s = Some m"
    using l idx m0 lt_law [OF inv l idx] lt_law [OF inv _ m0, of "heap_left idx + 1"] nelems_law [OF inv]
    by (auto simp: heap_min_child_def m_def m0_def Let_def)
  moreover have "m < length (elems s)"
    using m0 by (simp add: m_def)
  moreover have "m = idx \<or> heap_up m = idx \<and> 0 < m \<and> key (elems s ! m) < key (elems s ! idx)"
    using up by (auto simp: m_def m0_def)
  moreover have "key (elems s ! m) \<le> key (elems s ! j)"
    if "0 < j" "j < length (elems s)" "heap_up j = idx" for j
    using that heap_up_eq_iff [of j idx] by (auto simp: m_def m0_def)
  ultimately show ?thesis by (rule that)
qed

lemma sift_down:
  assumes "inv s" and "heap_except_down (keys s) idx"
  shows "\<exists>s'. heap_sift_down_idx nelems lt swap idx s = Some s' \<and> inv s'
    \<and> mset (elems s') = mset (elems s) \<and> is_heap (keys s')"
  using assms
proof (induction "length (elems s) - idx" arbitrary: s idx rule: less_induct)
  case less
  note nelems = nelems_law [OF less.prems(1)]
  show ?case
  proof (cases "length (elems s) \<le> heap_left idx")
    case True
    then have "is_heap (keys s)"
      using heap_up_eq_iff by (intro heap_except_down_done [OF less.prems(2)]) auto
    with True less.prems show ?thesis
      by (auto simp: heap_sift_down_idx.simps [of nelems lt swap idx s] nelems)
  next
    case False
    then obtain m where m: "heap_min_child nelems lt idx s = Some m" "m < length (elems s)"
        "m = idx \<or> heap_up m = idx \<and> 0 < m \<and> key (elems s ! m) < key (elems s ! idx)"
        "\<And>j. 0 < j \<Longrightarrow> j < length (elems s) \<Longrightarrow> heap_up j = idx \<Longrightarrow> key (elems s ! m) \<le> key (elems s ! j)"
      using min_child [OF less.prems(1), of idx] by auto
    have idx: "idx < length (elems s)"
      using False heap_left_gt [of idx] by simp
    show ?thesis
    proof (cases "m = idx")
      case True
      have "is_heap (keys s)"
        using m(4) True idx heap_up_less
        by (intro heap_except_down_done [OF less.prems(2)]) auto
      with True False m(1) less.prems show ?thesis
        by (auto simp: heap_sift_down_idx.simps [of nelems lt swap idx s] nelems)
    next
      case neq: False
      with m(3) have mi: "heap_up m = idx" "0 < m" "key (elems s ! m) < key (elems s ! idx)" by auto
      obtain s1 where s1: "swap m idx s = Some s1" "inv s1" "elems s1 = list_swap (elems s) m idx"
        using swap_law [OF less.prems(1) m(2) idx neq] by blast
      have "heap_except_down (keys s1) m"
        using heap_except_down_step [OF less.prems(2), of m] mi m idx
        by (simp add: s1(3) map_list_swap)
      moreover have "length (elems s1) - m < length (elems s) - idx"
        using mi m(2) heap_up_less [of m] s1(3) by simp
      ultimately obtain s' where "heap_sift_down_idx nelems lt swap m s1 = Some s'" "inv s'"
          "mset (elems s') = mset (elems s1)" "is_heap (keys s')"
        using less.hyps [OF _ s1(2)] by blast
      then show ?thesis
        using False m s1 neq idx
        by (auto simp: heap_sift_down_idx.simps [of nelems lt swap idx s] nelems)
    qed
  qed
qed

end

end
