(* ===== verification/Iosvc_Def.thy ===== *)
theory Iosvc_Def
  imports Dynarray Cbuffer Heaputils Rbtree
begin

text \<open>
  The service's state, \<open>struct io_service\<close> of \<open>src/iosvc_def.h\<close>, with the entries of its two
  heaps (\<open>src/delay_heap_entry.h\<close>, \<open>src/async_heap_entry.h\<close>), and the part of the outside world
  its operations read and write.

  \<open>world\<close> extends the service with the variables callers pass by pointer (\<open>errcs\<close>, \<open>ints\<close>; the
  interface requires them to outlive the operation), the results the C library's \<open>malloc\<close>,
  \<open>clock_gettime\<close> and \<open>poll\<close> will return, in call order, and a log of the callbacks invoked so
  far, which no operation reads. The operations are defined for any extension of \<open>world\<close>, so
  that the library modules built on the service can add their own memory.
\<close>

section \<open>Data\<close>

datatype svc_status = READY | RUNNING | STOPPING | DONE

record delay_heap_entry =
  dh_deadline :: int
  dh_handler :: io_handler
  dh_status :: addr

record async_heap_entry =
  ah_deadline :: int
  ah_remaining :: addr
  ah_io_op_data :: addr
  ah_event_type :: io_wait_type

record io_service =
  sync_handlers :: "io_handler cbuffer"
  timed_handlers_heap :: "delay_heap_entry dynarray"
  pollfds :: "pollfd dynarray"
  timed_events_heap :: "async_heap_entry dynarray"
  async_handlers :: rb_heap
  svc_status :: svc_status

text \<open>A call of \<open>poll\<close>: its return value, whether \<open>errno\<close> is \<open>EINTR\<close>, and the \<open>revents\<close> it wrote.\<close>

type_synonym poll_result = "int \<times> bool \<times> pollmask list"

record world = io_service +
  errcs :: "addr \<Rightarrow> io_errcode"
  ints :: "addr \<Rightarrow> int"
  mallocs :: "nat \<Rightarrow> addr option"
  clock :: "nat \<Rightarrow> int"
  polls :: "nat \<Rightarrow> pollfd list \<Rightarrow> int \<Rightarrow> poll_result"
  calls :: "io_handler list"

section \<open>The C library\<close>

definition next_malloc :: "'x world_scheme \<Rightarrow> addr option \<times> 'x world_scheme" where
  "next_malloc w = (mallocs w 0, w\<lparr>mallocs := \<lambda>n. mallocs w (Suc n)\<rparr>)"

text \<open>An allocation that only happens when \<open>needed\<close>; the result says whether it succeeded.\<close>

definition alloc_if :: "bool \<Rightarrow> 'x world_scheme \<Rightarrow> bool \<times> 'x world_scheme" where
  "alloc_if needed w =
     (if needed then let (p, w') = next_malloc w in (p \<noteq> None, w') else (True, w))"

definition current_time :: "'x world_scheme \<Rightarrow> int \<times> 'x world_scheme" where
  "current_time w = (clock w 0, w\<lparr>clock := \<lambda>n. clock w (Suc n)\<rparr>)"

definition dynarr_full :: "'a dynarray \<Rightarrow> bool" where
  "dynarr_full dar \<longleftrightarrow> d_nelems dar = d_capacity dar"

text \<open>Writing a completion status, if the caller asked for one.\<close>

definition put_status :: "addr \<Rightarrow> io_errcode \<Rightarrow> 'x world_scheme \<Rightarrow> 'x world_scheme" where
  "put_status p e w = (if p = NULL then w else w\<lparr>errcs := (errcs w)(p := e)\<rparr>)"

text \<open>Writing an \<open>int\<close> variable; the null pointer is a fault.\<close>

definition put_int :: "addr \<Rightarrow> int \<Rightarrow> 'x world_scheme \<Rightarrow> 'x world_scheme option" where
  "put_int p v w = (if p = NULL then None else Some (w\<lparr>ints := (ints w)(p := v)\<rparr>))"

text \<open>
  Calling a handler: the code behind its function pointer is the parameter \<open>call\<close>, which may
  use every operation of the library. A null function pointer is a fault.
\<close>

definition invoke ::
  "(io_handler \<Rightarrow> 'x world_scheme \<Rightarrow> 'x world_scheme option) \<Rightarrow> io_handler \<Rightarrow> 'x world_scheme
    \<Rightarrow> 'x world_scheme option"
where
  "invoke call h w =
     (if callback h = NULL then None else call h (w\<lparr>calls := calls w @ [h]\<rparr>))"

text \<open>
  A pointer into an array that was taken when its block had \<open>cap\<close> slots: \<open>realloc\<close>, which
  always enlarges the block, invalidates it.
\<close>

definition dynarr_deref :: "nat \<Rightarrow> 'a dynarray \<Rightarrow> nat \<Rightarrow> 'a option" where
  "dynarr_deref cap dar i = (if d_capacity dar = cap then dynarr_get dar i else None)"

text \<open>Updating the tree and its nodes inside the service.\<close>

definition with_tree ::
  "(rb_heap \<Rightarrow> rb_heap option) \<Rightarrow> 'x world_scheme \<Rightarrow> 'x world_scheme option"
where
  "with_tree f w = map_option (\<lambda>h. w\<lparr>async_handlers := h\<rparr>) (f (async_handlers w))"

definition with_events ::
  "(async_heap_entry dynarray \<Rightarrow> async_heap_entry dynarray option) \<Rightarrow> 'x world_scheme \<Rightarrow> 'x world_scheme option"
where
  "with_events f w = map_option (\<lambda>d. w\<lparr>timed_events_heap := d\<rparr>) (f (timed_events_heap w))"

definition with_pollfds ::
  "(pollfd dynarray \<Rightarrow> pollfd dynarray option) \<Rightarrow> 'x world_scheme \<Rightarrow> 'x world_scheme option"
where
  "with_pollfds f w = map_option (\<lambda>d. w\<lparr>pollfds := d\<rparr>) (f (pollfds w))"

section \<open>Creation and deletion\<close>

text \<open>\<open>iosvc_create\<close> returns the null pointer, \<open>None\<close>, when \<open>malloc\<close> fails; its single allocation is the argument, since
  there is no world yet from which to take the result.\<close>

definition iosvc_create :: "bool \<Rightarrow> io_service option" where
  "iosvc_create malloc_ok =
     (if \<not> malloc_ok then None
      else Some \<lparr>sync_handlers = cbuf_init 16, timed_handlers_heap = dynarr_init 32,
                 pollfds = dynarr_init 8, timed_events_heap = dynarr_init 32,
                 async_handlers = \<lparr>rb_root = NULL, rb_store = Map.empty\<rparr>, svc_status = READY\<rparr>)"

text \<open>A node owns its two event blocks: freeing the node frees them.\<close>

definition free_node :: "addr \<Rightarrow> rb_heap \<Rightarrow> rb_heap" where
  "free_node p h = h\<lparr>rb_store := (rb_store h)(p := None)\<rparr>"

partial_function (option) del_rb_node :: "addr \<Rightarrow> rb_heap \<Rightarrow> rb_heap option" where
  "del_rb_node node h =
     (if node = NULL then Some h
      else do { h \<leftarrow> rb_update node (\<lambda>n. n\<lparr>aux_event := None, ex_event := None\<rparr>) h;
                n \<leftarrow> rb_load h node;
                h \<leftarrow> del_rb_node (left n) h;
                n \<leftarrow> rb_load h node;
                h \<leftarrow> del_rb_node (right n) h;
                _ \<leftarrow> rb_load h node;
                Some (free_node node h) })"

declare del_rb_node.simps [code]

text \<open>\<open>iosvc_delete\<close> releases what the service owns. The last statement, \<open>free(iosvc)\<close>, releases the struct itself; the world
  has no address for it, so the model ends with the struct's fields emptied. Arrays and queue are values of the
  struct, and their release is the empty value.\<close>

definition iosvc_delete :: "'x world_scheme \<Rightarrow> 'x world_scheme option" where
  "iosvc_delete w =
     do { let w = w\<lparr>timed_events_heap := dynarr_delete (timed_events_heap w)\<rparr>;
          let w = w\<lparr>timed_handlers_heap := dynarr_delete (timed_handlers_heap w)\<rparr>;
          let w = w\<lparr>pollfds := dynarr_delete (pollfds w)\<rparr>;
          let w = w\<lparr>sync_handlers := cbuf_delete (sync_handlers w)\<rparr>;
          with_tree (del_rb_node (rb_root (async_handlers w))) w }"

section \<open>Stopping and resetting\<close>

definition iosvc_stop :: "'x world_scheme \<Rightarrow> io_errcode \<times> 'x world_scheme" where
  "iosvc_stop w =
     (case svc_status w of
        RUNNING \<Rightarrow> (EIO_OK, w\<lparr>svc_status := STOPPING\<rparr>)
      | STOPPING \<Rightarrow> (EIO_INPROGRESS, w)
      | _ \<Rightarrow> (EIO_NOENTRY, w))"

definition iosvc_reset :: "'x world_scheme \<Rightarrow> io_errcode \<times> 'x world_scheme" where
  "iosvc_reset w =
     (case svc_status w of
        RUNNING \<Rightarrow> (EIO_INPROGRESS, w)
      | STOPPING \<Rightarrow> (EIO_INPROGRESS, w)
      | _ \<Rightarrow> (EIO_OK, w\<lparr>svc_status := READY\<rparr>))"

section \<open>A newly created service\<close>

text \<open>A world in which every allocation succeeds and \<open>poll\<close> always times out, with a new service.\<close>

definition fresh_world :: world where
  "fresh_world = \<lparr>sync_handlers = cbuf_init 16, timed_handlers_heap = dynarr_init 32, pollfds = dynarr_init 8,
     timed_events_heap = dynarr_init 32, async_handlers = \<lparr>rb_root = NULL, rb_store = Map.empty\<rparr>,
     svc_status = READY, errcs = (\<lambda>_. EIO_OK), ints = (\<lambda>_. 0), mallocs = (\<lambda>n. Some (8 * of_nat (Suc n))),
     clock = int, polls = (\<lambda>_ _ _. (0, False, [])), calls = []\<rparr>"

end
