(* ===== verification/Heap_Entries.thy ===== *)
theory Heap_Entries
  imports Iosvc_Def
begin

text \<open>
  The comparison and exchange callbacks of the two heaps (\<open>src/delay_heap_entry.c\<close>,
  \<open>src/async_heap_entry.c\<close>) and the heap-order theory for them.

  Delayed handlers form a plain heap on their deadlines. The entry of a timed event points to
  its tree node, and the node's event records the entry's position (\<open>ddl_heap_idx\<close>); every
  exchange updates both. \<open>heap_idx_ok\<close> says that positions and entries agree, and the
  interpretation \<open>ah\<close> shows that sifting keeps them in agreement and touches nothing else.
\<close>

section \<open>Delayed handlers\<close>

definition delay_hp_ent_lt :: "nat \<Rightarrow> nat \<Rightarrow> delay_heap_entry dynarray \<Rightarrow> bool option" where
  "delay_hp_ent_lt ent1 ent2 d =
     do { a \<leftarrow> dynarr_get d ent1; b \<leftarrow> dynarr_get d ent2; Some (dh_deadline a < dh_deadline b) }"

definition delay_hp_ent_swp ::
  "nat \<Rightarrow> nat \<Rightarrow> delay_heap_entry dynarray \<Rightarrow> delay_heap_entry dynarray option"
where
  "delay_hp_ent_swp ent1 ent2 d =
     do { tmp \<leftarrow> dynarr_get d ent1; b \<leftarrow> dynarr_get d ent2; d \<leftarrow> dynarr_set d ent1 b; dynarr_set d ent2 tmp }"

interpretation dh: heap_array dynarr_inv dynarr_list dh_deadline dynarr_size delay_hp_ent_lt delay_hp_ent_swp
proof unfold_locales
  show "\<exists>s'. delay_hp_ent_swp i j s = Some s' \<and> dynarr_inv s' \<and> dynarr_list s' = list_swap (dynarr_list s) i j"
    if "dynarr_inv s" "i < length (dynarr_list s)" "j < length (dynarr_list s)" "i \<noteq> j" for s i j
    using dyn.exchange [OF that(1-3)] by (simp add: delay_hp_ent_swp_def)
qed (simp_all add: dynarr_size_list delay_hp_ent_lt_def dynarr_get_list del: length_dynarr_list)

section \<open>Timed events\<close>

text \<open>The heap position an event records, and recording it.\<close>

definition get_ddl :: "rb_heap \<Rightarrow> addr \<Rightarrow> io_wait_type \<Rightarrow> int option" where
  "get_ddl h p t = do { n \<leftarrow> rb_load h p; e \<leftarrow> get_evt_data n t; Some (ddl_heap_idx e) }"

definition set_ddl :: "addr \<Rightarrow> io_wait_type \<Rightarrow> int \<Rightarrow> rb_heap \<Rightarrow> rb_heap option" where
  "set_ddl p t v h =
     do { n \<leftarrow> rb_load h p;
          e \<leftarrow> get_evt_data n t;
          n' \<leftarrow> put_evt_data t (e\<lparr>ddl_heap_idx := v\<rparr>) n;
          Some (h\<lparr>rb_store := (rb_store h)(p \<mapsto> n')\<rparr>) }"

definition async_hp_ent_lt :: "nat \<Rightarrow> nat \<Rightarrow> 'x world_scheme \<Rightarrow> bool option" where
  "async_hp_ent_lt ent1 ent2 w =
     do { a \<leftarrow> dynarr_get (timed_events_heap w) ent1;
          b \<leftarrow> dynarr_get (timed_events_heap w) ent2;
          Some (ah_deadline a < ah_deadline b) }"

definition async_hp_ent_swp :: "nat \<Rightarrow> nat \<Rightarrow> 'x world_scheme \<Rightarrow> 'x world_scheme option" where
  "async_hp_ent_swp elem1 elem2 w =
     do { tmp \<leftarrow> dynarr_get (timed_events_heap w) elem1;
          b \<leftarrow> dynarr_get (timed_events_heap w) elem2;
          d \<leftarrow> dynarr_set (timed_events_heap w) elem1 b;
          d \<leftarrow> dynarr_set d elem2 tmp;
          e1 \<leftarrow> dynarr_get d elem1;
          e2 \<leftarrow> dynarr_get d elem2;
          let h = async_handlers w;
          tmp_heap_idx \<leftarrow> get_ddl h (ah_io_op_data e1) (ah_event_type e1);
          idx2 \<leftarrow> get_ddl h (ah_io_op_data e2) (ah_event_type e2);
          h \<leftarrow> set_ddl (ah_io_op_data e1) (ah_event_type e1) idx2 h;
          h \<leftarrow> set_ddl (ah_io_op_data e2) (ah_event_type e2) tmp_heap_idx h;
          Some (w\<lparr>timed_events_heap := d, async_handlers := h\<rparr>) }"

definition events_size :: "'x world_scheme \<Rightarrow> nat" where
  "events_size w = dynarr_size (timed_events_heap w)"

definition events_list :: "'x world_scheme \<Rightarrow> async_heap_entry list" where
  "events_list w = dynarr_list (timed_events_heap w)"

text \<open>What an entry refers to.\<close>

definition ent_key :: "async_heap_entry \<Rightarrow> addr \<times> io_wait_type" where
  "ent_key e = (ah_io_op_data e, ah_event_type e)"

definition heap_idx_ok :: "'x world_scheme \<Rightarrow> bool" where
  "heap_idx_ok w \<longleftrightarrow> dynarr_inv (timed_events_heap w)
     \<and> (\<forall>i < length (events_list w).
          get_ddl (async_handlers w) (ah_io_op_data (events_list w ! i)) (ah_event_type (events_list w ! i))
            = Some (int i))"

text \<open>Nodes up to the recorded heap positions.\<close>

definition clear_ddl :: "event_data \<Rightarrow> event_data" where
  "clear_ddl e = e\<lparr>ddl_heap_idx := 0\<rparr>"

definition erase_ddl :: "rb_node \<Rightarrow> rb_node" where
  "erase_ddl n = n\<lparr>main_event := clear_ddl (main_event n),
     aux_event := map_option clear_ddl (aux_event n), ex_event := map_option clear_ddl (ex_event n)\<rparr>"

definition same_but_ddl :: "rb_heap \<Rightarrow> rb_heap \<Rightarrow> bool" where
  "same_but_ddl h h' \<longleftrightarrow> rb_root h' = rb_root h
     \<and> (\<forall>p. map_option erase_ddl (rb_store h' p) = map_option erase_ddl (rb_store h p))"

lemma same_but_ddl_refl [simp]: "same_but_ddl h h"
  by (simp add: same_but_ddl_def)

lemma same_but_ddl_trans: "same_but_ddl h h1 \<Longrightarrow> same_but_ddl h1 h2 \<Longrightarrow> same_but_ddl h h2"
  by (simp add: same_but_ddl_def)

lemma get_evt_slot_inj: "get_evt_slot n t = Some s \<Longrightarrow> get_evt_slot n u = Some s \<Longrightarrow> t = u"
  by (cases t; cases u; cases "main_ev n") (auto simp: get_evt_slot_def)

lemma get_evt_slot_set [simp]: "get_evt_slot (set_slot_event s e n) t = get_evt_slot n t"
  by (cases s) (auto simp: get_evt_slot_def)

lemma slot_event_set:
  "slot_event (set_slot_event s e n) s' = (if s' = s then Some e else slot_event n s')"
  by (cases s; cases s') auto

lemma erase_ddl_set:
  "slot_event n s = Some e \<Longrightarrow> erase_ddl (set_slot_event s (e\<lparr>ddl_heap_idx := v\<rparr>) n) = erase_ddl n"
  by (cases s) (auto simp: erase_ddl_def clear_ddl_def)

lemma set_ddl_exec:
  assumes "get_ddl h p t = Some i"
  obtains h' where "set_ddl p t v h = Some h'" "get_ddl h' p t = Some v"
    "\<And>q u. (q, u) \<noteq> (p, t) \<Longrightarrow> get_ddl h' q u = get_ddl h q u" "same_but_ddl h h'"
proof -
  obtain n s e where n: "rb_load h p = Some n" "get_evt_slot n t = Some s" "slot_event n s = Some e"
    using assms by (auto simp: get_ddl_def get_evt_data_def bind_eq_Some)
  let ?n = "set_slot_event s (e\<lparr>ddl_heap_idx := v\<rparr>) n"
  let ?h = "h\<lparr>rb_store := (rb_store h)(p \<mapsto> ?n)\<rparr>"
  have p: "p \<noteq> NULL" "rb_store h p = Some n"
    using n(1) by (auto simp: rb_load_def split: if_splits)
  have "set_ddl p t v h = Some ?h"
    using n by (simp add: set_ddl_def get_evt_data_def put_evt_data_def)
  moreover have "get_ddl ?h p t = Some v"
    using n p by (simp add: get_ddl_def rb_load_def get_evt_data_def slot_event_set)
  moreover have "get_ddl ?h q u = get_ddl h q u" if "(q, u) \<noteq> (p, t)" for q u
  proof (cases "q = p")
    case True
    then have "get_evt_slot n u \<noteq> Some s"
      using that n(2) get_evt_slot_inj by auto
    then show ?thesis
      using True n p by (cases "get_evt_slot n u") (auto simp: get_ddl_def rb_load_def get_evt_data_def slot_event_set)
  qed (simp add: get_ddl_def rb_load_def)
  moreover have "same_but_ddl h ?h"
    using erase_ddl_set [OF n(3)] p by (simp add: same_but_ddl_def)
  ultimately show ?thesis by (rule that)
qed

text \<open>
  \<open>resifted w0 w\<close>: \<open>w\<close> is \<open>w0\<close> with the events heap permuted and the recorded positions of the
  entries updated.
\<close>

definition resifted :: "'x world_scheme \<Rightarrow> 'x world_scheme \<Rightarrow> bool" where
  "resifted w0 w \<longleftrightarrow> heap_idx_ok w \<and> mset (events_list w) = mset (events_list w0)
     \<and> same_but_ddl (async_handlers w0) (async_handlers w)
     \<and> w = w0\<lparr>timed_events_heap := timed_events_heap w, async_handlers := async_handlers w\<rparr>
     \<and> (\<forall>p t. (p, t) \<notin> ent_key ` set (events_list w0) \<longrightarrow>
          get_ddl (async_handlers w) p t = get_ddl (async_handlers w0) p t)"

lemma resifted_refl: "heap_idx_ok w \<Longrightarrow> resifted w w"
  by (simp add: resifted_def)

lemma resifted_trans:
  assumes "resifted w0 w1" and "resifted w1 w2"
  shows "resifted w0 w2"
proof -
  have "set (events_list w1) = set (events_list w0)"
    using assms(1) by (metis resifted_def set_mset_mset)
  moreover obtain d1 h1 where "w1 = w0\<lparr>timed_events_heap := d1, async_handlers := h1\<rparr>"
    using assms(1) unfolding resifted_def by blast
  moreover obtain d2 h2 where "w2 = w1\<lparr>timed_events_heap := d2, async_handlers := h2\<rparr>"
    using assms(2) unfolding resifted_def by blast
  ultimately show ?thesis
    using assms by (auto simp: resifted_def intro: same_but_ddl_trans)
qed

lemma events_get:
  "heap_idx_ok w \<Longrightarrow> i < length (events_list w) \<Longrightarrow>
   dynarr_get (timed_events_heap w) i = Some (events_list w ! i)
   \<and> get_ddl (async_handlers w) (ah_io_op_data (events_list w ! i)) (ah_event_type (events_list w ! i)) = Some (int i)"
  by (simp add: heap_idx_ok_def events_list_def dynarr_get_list del: length_dynarr_list)

text \<open>Two entries never share an event, since an event records one position.\<close>

lemma ent_key_neq:
  assumes "heap_idx_ok w" "i < length (events_list w)" "j < length (events_list w)" "i \<noteq> j"
  shows "ent_key (events_list w ! i) \<noteq> ent_key (events_list w ! j)"
  using events_get [OF assms(1,2)] events_get [OF assms(1,3)] assms(4) by (auto simp: ent_key_def)

lemma async_hp_ent_swp_exec:
  assumes ok: "heap_idx_ok w" and ij: "i < length (events_list w)" "j < length (events_list w)"
  obtains w' where "async_hp_ent_swp i j w = Some w'" "resifted w w'"
    "events_list w' = list_swap (events_list w) i j"
proof -
  let ?L = "events_list w"
  let ?h = "async_handlers w"
  let ?d = "timed_events_heap w"
  have inv: "dynarr_inv ?d" "length (dynarr_list ?d) = length ?L"
    using ok by (simp_all add: heap_idx_ok_def events_list_def)
  have g: "dynarr_get ?d i = Some (?L ! i)" "dynarr_get ?d j = Some (?L ! j)"
    and p: "get_ddl ?h (ah_io_op_data (?L ! i)) (ah_event_type (?L ! i)) = Some (int i)"
      "get_ddl ?h (ah_io_op_data (?L ! j)) (ah_event_type (?L ! j)) = Some (int j)"
    using events_get [OF ok ij(1)] events_get [OF ok ij(2)] by simp_all
  obtain d where d: "do { d \<leftarrow> dynarr_set ?d i (?L ! j); dynarr_set d j (?L ! i) } = Some d" "dynarr_inv d"
      "dynarr_list d = list_swap ?L i j"
    using dyn.exchange [OF inv(1), of i j, folded events_list_def] ij g by (simp only: Option.bind_lunit) blast
  have gd: "dynarr_get d i = Some (?L ! j)" "dynarr_get d j = Some (?L ! i)"
    using dynarr_get_list [OF d(2)] d(3) ij by (simp_all add: nth_list_swap del: length_dynarr_list)
  obtain h1 where h1: "set_ddl (ah_io_op_data (?L ! j)) (ah_event_type (?L ! j)) (int i) ?h = Some h1"
      "get_ddl h1 (ah_io_op_data (?L ! j)) (ah_event_type (?L ! j)) = Some (int i)"
      "\<And>q u. (q, u) \<noteq> ent_key (?L ! j) \<Longrightarrow> get_ddl h1 q u = get_ddl ?h q u" "same_but_ddl ?h h1"
    using set_ddl_exec [OF p(2)] by (metis ent_key_def)
  obtain x where x: "get_ddl h1 (ah_io_op_data (?L ! i)) (ah_event_type (?L ! i)) = Some x"
    using h1(2,3) p(1) by (cases "ent_key (?L ! i) = ent_key (?L ! j)") (auto simp: ent_key_def)
  obtain h2 where h2: "set_ddl (ah_io_op_data (?L ! i)) (ah_event_type (?L ! i)) (int j) h1 = Some h2"
      "get_ddl h2 (ah_io_op_data (?L ! i)) (ah_event_type (?L ! i)) = Some (int j)"
      "\<And>q u. (q, u) \<noteq> ent_key (?L ! i) \<Longrightarrow> get_ddl h2 q u = get_ddl h1 q u" "same_but_ddl h1 h2"
    using set_ddl_exec [OF x] by (metis ent_key_def)
  let ?w = "w\<lparr>timed_events_heap := d, async_handlers := h2\<rparr>"
  have L: "events_list ?w = list_swap ?L i j"
    using d(3) by (simp add: events_list_def)
  have "get_ddl h2 (ah_io_op_data (list_swap ?L i j ! m)) (ah_event_type (list_swap ?L i j ! m)) = Some (int m)"
    if m: "m < length ?L" for m
  proof -
    note neq = ent_key_neq [OF ok]
    consider "m = j" | "m = i" "i \<noteq> j" | "m \<noteq> i" "m \<noteq> j" by blast
    then show ?thesis
    proof cases
      case 1
      then show ?thesis using ij h2(2) by (cases "i = j") (simp_all add: nth_list_swap)
    next
      case 2
      then show ?thesis
        using ij h1(2) h2(3) neq [of j i] by (simp add: nth_list_swap ent_key_def)
    next
      case 3
      then show ?thesis
        using m ij h1(3) h2(3) neq [of m i] neq [of m j] events_get [OF ok m] by (simp add: nth_list_swap ent_key_def)
    qed
  qed
  then have "heap_idx_ok ?w"
    using L d(2) by (simp add: heap_idx_ok_def)
  moreover have "get_ddl h2 p t = get_ddl ?h p t" if "(p, t) \<notin> ent_key ` set ?L" for p t
    using that h1(3) h2(3) ij by (metis image_eqI nth_mem)
  ultimately have "resifted w ?w"
    using L ij h1(4) h2(4) same_but_ddl_trans by (auto simp: resifted_def)
  moreover have "async_hp_ent_swp i j w = Some ?w"
    using g d(1) gd p h1(1) h2(1) by (auto simp: async_hp_ent_swp_def bind_eq_Some)
  ultimately show ?thesis
    using that L by blast
qed

interpretation ah: heap_array "resifted w0" events_list ah_deadline events_size async_hp_ent_lt async_hp_ent_swp
  for w0 :: "'x world_scheme"
proof unfold_locales
  show "events_size s = length (events_list s)" if "resifted w0 s" for s
    using that by (simp add: events_size_def events_list_def resifted_def heap_idx_ok_def dynarr_size_list
        del: length_dynarr_list)
  show "async_hp_ent_lt i j s = Some (ah_deadline (events_list s ! i) < ah_deadline (events_list s ! j))"
    if "resifted w0 s" "i < length (events_list s)" "j < length (events_list s)" for s i j
    using that events_get [of s i] events_get [of s j] by (simp add: async_hp_ent_lt_def resifted_def)
  show "\<exists>s'. async_hp_ent_swp i j s = Some s' \<and> resifted w0 s' \<and> events_list s' = list_swap (events_list s) i j"
    if "resifted w0 s" "i < length (events_list s)" "j < length (events_list s)" "i \<noteq> j" for s i j
    using async_hp_ent_swp_exec [of s i j] that resifted_trans by (metis resifted_def)
qed

end
