(* ===== verification/Iosvc_Post.thy ===== *)
theory Iosvc_Post
  imports Heap_Entries
begin

text \<open>
  \<open>src/iosvc_post.c\<close>: queueing a handler for the next round of the loop, and scheduling one
  after a delay.
\<close>

section \<open>The operations\<close>

definition iosvc_post :: "io_handler \<Rightarrow> 'x world_scheme \<Rightarrow> io_errcode \<times> 'x world_scheme" where
  "iosvc_post hnd w =
     (if svc_status w \<noteq> RUNNING \<and> svc_status w \<noteq> READY then (EIO_STOPPED, w)
      else if callback hnd = NULL then (EIO_INVARG, w)
      else let (ok, w) = alloc_if (cbuf_must_grow (sync_handlers w)) w;
               (pos, cb) = cbuf_push ok (sync_handlers w)
           in case pos of
                None \<Rightarrow> (EIO_NOMEM, w\<lparr>sync_handlers := cb\<rparr>)
              | Some p \<Rightarrow> (EIO_OK, w\<lparr>sync_handlers := cbuf_store cb p hnd\<rparr>))"

definition iosvc_post_delay ::
  "io_handler \<Rightarrow> addr \<Rightarrow> int \<Rightarrow> 'x world_scheme \<Rightarrow> (io_errcode \<times> 'x world_scheme) option"
where
  "iosvc_post_delay hnd st milliseconds w =
     (let (now, w) = current_time w; deadline = now + milliseconds in
      if callback hnd = NULL \<or> milliseconds < 0 then Some (EIO_INVARG, w)
      else if svc_status w = STOPPING \<or> svc_status w = DONE then Some (EIO_STOPPED, w)
      else let (ok, w) = alloc_if (dynarr_full (timed_handlers_heap w)) w;
               (ent, d) = dynarr_emplace_back ok (timed_handlers_heap w)
           in case ent of
                None \<Rightarrow> Some (EIO_NOMEM, w\<lparr>timed_handlers_heap := d\<rparr>)
              | Some p \<Rightarrow>
                  do { d \<leftarrow> dynarr_set d p \<lparr>dh_deadline = deadline, dh_handler = hnd, dh_status = st\<rparr>;
                       d \<leftarrow> heap_sift_up delay_hp_ent_lt delay_hp_ent_swp p d;
                       Some (EIO_OK, w\<lparr>timed_handlers_heap := d\<rparr>) })"

section \<open>Behaviour\<close>

text \<open>Nothing but the oracle for \<open>malloc\<close> changes in an allocation.\<close>

lemma alloc_if_world:
  "alloc_if b w = (ok, w') \<Longrightarrow> \<exists>m. w' = w\<lparr>mallocs := m\<rparr>"
  by (cases w) (auto simp: alloc_if_def next_malloc_def Let_def split: if_splits)

lemma alloc_if_ok: "alloc_if b w = (ok, w') \<Longrightarrow> ok \<longleftrightarrow> \<not> b \<or> mallocs w 0 \<noteq> None"
  by (auto simp: alloc_if_def next_malloc_def Let_def split: if_splits)

lemma cbuf_push_None: "fst (cbuf_push ok cb) = None \<longleftrightarrow> cbuf_must_grow cb \<and> \<not> ok"
  "fst (cbuf_push ok cb) = None \<Longrightarrow> snd (cbuf_push ok cb) = cb"
  by (auto simp: cbuf_push_def Let_def split: if_splits)

lemma iosvc_post_cases:
  assumes inv: "cbuf_inv (sync_handlers w)" and r: "iosvc_post hnd w = (e, w')"
  obtains (stopped) "e = EIO_STOPPED" "w' = w" "svc_status w \<in> {STOPPING, DONE}"
    | (invarg) "e = EIO_INVARG" "w' = w" "svc_status w \<in> {READY, RUNNING}" "callback hnd = NULL"
    | (nomem) m where "e = EIO_NOMEM" "w' = w\<lparr>mallocs := m\<rparr>" "svc_status w \<in> {READY, RUNNING}"
        "callback hnd \<noteq> NULL" "cbuf_must_grow (sync_handlers w)" "mallocs w 0 = None"
    | (queued) m cb where "e = EIO_OK" "w' = w\<lparr>mallocs := m, sync_handlers := cb\<rparr>" "cbuf_inv cb"
        "cbuf_list cb = cbuf_list (sync_handlers w) @ [hnd]" "svc_status w \<in> {READY, RUNNING}"
        "callback hnd \<noteq> NULL"
proof -
  obtain ok w1 where a: "alloc_if (cbuf_must_grow (sync_handlers w)) w = (ok, w1)"
    by fastforce
  obtain m where m: "w1 = w\<lparr>mallocs := m\<rparr>"
    using alloc_if_world [OF a] by blast
  obtain pos cb where p: "cbuf_push ok (sync_handlers w) = (pos, cb)"
    by fastforce
  consider "svc_status w \<in> {STOPPING, DONE}" | "svc_status w \<in> {READY, RUNNING}" "callback hnd = NULL"
    | "svc_status w \<in> {READY, RUNNING}" "callback hnd \<noteq> NULL" by (cases "svc_status w") auto
  then show ?thesis
  proof cases
    case 3
    then have r': "(e, w') = (case pos of None \<Rightarrow> (EIO_NOMEM, w1\<lparr>sync_handlers := cb\<rparr>)
        | Some p \<Rightarrow> (EIO_OK, w1\<lparr>sync_handlers := cbuf_store cb p hnd\<rparr>))"
      using r a p m by (auto simp: iosvc_post_def)
    show ?thesis
    proof (cases pos)
      case None
      then have "cb = sync_handlers w" "cbuf_must_grow (sync_handlers w)" "\<not> ok"
        using p cbuf_push_None [of ok "sync_handlers w"] by auto
      then show ?thesis
        using None r' 3 m alloc_if_ok [OF a] nomem [of m] by simp
    next
      case (Some q)
      then have "cbuf_inv (cbuf_store cb q hnd) \<and> cbuf_list (cbuf_store cb q hnd) = cbuf_list (sync_handlers w) @ [hnd]"
        using cbuf_push_spec [OF inv] p by simp
      then show ?thesis
        using Some r' 3 m queued [where m = m and cb = "cbuf_store cb q hnd"] by simp
    qed
  qed (use r stopped invarg in \<open>auto simp: iosvc_post_def split: if_splits\<close>)
qed

text \<open>A delayed handler joins the heap with its deadline; every entry that was there stays.\<close>

definition delay_ok :: "'x world_scheme \<Rightarrow> bool" where
  "delay_ok w \<longleftrightarrow> dynarr_inv (timed_handlers_heap w)
     \<and> is_heap (map dh_deadline (dynarr_list (timed_handlers_heap w)))"

text \<open>An entry not due before the front one does not take its place.\<close>

definition front_kept :: "delay_heap_entry \<Rightarrow> delay_heap_entry dynarray \<Rightarrow> delay_heap_entry dynarray \<Rightarrow> bool" where
  "front_kept x d d' \<longleftrightarrow> (dynarr_list d \<noteq> [] \<and> dh_deadline (dynarr_list d ! 0) \<le> dh_deadline x \<longrightarrow>
     dynarr_list d' ! 0 = dynarr_list d ! 0)"

lemma delay_push:
  assumes "dynarr_inv d" "is_heap (map dh_deadline (dynarr_list d))"
    and e: "dynarr_emplace_back ok d = (Some p, d1)"
  obtains d2 d3 where "dynarr_set d1 p x = Some d2" "heap_sift_up delay_hp_ent_lt delay_hp_ent_swp p d2 = Some d3"
    "dynarr_inv d3" "mset (dynarr_list d3) = add_mset x (mset (dynarr_list d))"
    "is_heap (map dh_deadline (dynarr_list d3))" "front_kept x d d3"
proof -
  obtain d2 where d2: "dynarr_set d1 p x = Some d2" "dynarr_inv d2" "dynarr_list d2 = dynarr_list d @ [x]"
    using dynarr_emplace_set [OF assms(1) e] by metis
  have p: "p = length (dynarr_list d)"
    using dynarr_emplace_back_ok(1) [OF assms(1) e] .
  have "heap_except_up (map dh_deadline (dynarr_list d2)) p"
    using heap_append_except_up [OF assms(2), of "dh_deadline x"] p d2(3) by simp
  then obtain d3 where d3: "heap_sift_up_idx delay_hp_ent_lt delay_hp_ent_swp p d2 = Some d3" "dynarr_inv d3"
      "mset (dynarr_list d3) = mset (dynarr_list d2)" "is_heap (map dh_deadline (dynarr_list d3))"
    using dh.sift_up [OF d2(2)] p d2(3) by auto
  have "front_kept x d d3"
    unfolding front_kept_def
  proof
    assume f: "dynarr_list d \<noteq> [] \<and> dh_deadline (dynarr_list d ! 0) \<le> dh_deadline x"
    have "dynarr_list d3 ! 0 = dynarr_list d2 ! 0"
      by (rule dh.sift_up_front [OF d2(2) _ _ d3(1)]) (use p d2(3) f in \<open>auto simp: nth_append\<close>)
    then show "dynarr_list d3 ! 0 = dynarr_list d ! 0"
      using f d2(3) by (simp add: nth_append)
  qed
  then show ?thesis
    using that d2 d3 by (simp add: heap_sift_up_def)
qed

lemma iosvc_post_delay_cases:
  assumes ok: "delay_ok w"
  obtains (invarg) w' where "iosvc_post_delay hnd st ms w = Some (EIO_INVARG, w')"
        "w' = w\<lparr>clock := \<lambda>n. clock w (Suc n)\<rparr>" "callback hnd = NULL \<or> ms < 0"
    | (stopped) w' where "iosvc_post_delay hnd st ms w = Some (EIO_STOPPED, w')"
        "w' = w\<lparr>clock := \<lambda>n. clock w (Suc n)\<rparr>" "callback hnd \<noteq> NULL" "0 \<le> ms" "svc_status w \<in> {STOPPING, DONE}"
    | (nomem) m w' where "iosvc_post_delay hnd st ms w = Some (EIO_NOMEM, w')"
        "w' = w\<lparr>clock := \<lambda>n. clock w (Suc n), mallocs := m\<rparr>" "callback hnd \<noteq> NULL" "0 \<le> ms"
        "svc_status w \<in> {READY, RUNNING}" "mallocs w 0 = None"
    | (scheduled) m d w' where "iosvc_post_delay hnd st ms w = Some (EIO_OK, w')"
        "w' = w\<lparr>clock := \<lambda>n. clock w (Suc n), mallocs := m, timed_handlers_heap := d\<rparr>" "callback hnd \<noteq> NULL" "0 \<le> ms"
        "svc_status w \<in> {READY, RUNNING}" "delay_ok w'"
        "mset (dynarr_list d) = add_mset \<lparr>dh_deadline = clock w 0 + ms, dh_handler = hnd, dh_status = st\<rparr>
            (mset (dynarr_list (timed_handlers_heap w)))"
        "front_kept \<lparr>dh_deadline = clock w 0 + ms, dh_handler = hnd, dh_status = st\<rparr> (timed_handlers_heap w) d"
proof -
  let ?c = "w\<lparr>clock := \<lambda>n. clock w (Suc n)\<rparr>"
  let ?d = "timed_handlers_heap w"
  let ?x = "\<lparr>dh_deadline = clock w 0 + ms, dh_handler = hnd, dh_status = st\<rparr>"
  obtain b w1 where a: "alloc_if (dynarr_full ?d) ?c = (b, w1)"
    by fastforce
  obtain m where m: "w1 = ?c\<lparr>mallocs := m\<rparr>"
    using alloc_if_world [OF a] by blast
  obtain ent d1 where e: "dynarr_emplace_back b ?d = (ent, d1)"
    by fastforce
  consider "callback hnd = NULL \<or> ms < 0"
    | "callback hnd \<noteq> NULL" "0 \<le> ms" "svc_status w \<in> {STOPPING, DONE}"
    | "callback hnd \<noteq> NULL" "0 \<le> ms" "svc_status w \<in> {READY, RUNNING}"
    by (cases "svc_status w"; cases "callback hnd = NULL"; cases "ms < 0") (simp_all add: not_less)
  then show ?thesis
  proof cases
    case 1
    then have "iosvc_post_delay hnd st ms w = Some (EIO_INVARG, ?c)"
      by (simp add: iosvc_post_delay_def current_time_def)
    then show ?thesis using 1 invarg by simp
  next
    case 2
    then have "iosvc_post_delay hnd st ms w = Some (EIO_STOPPED, ?c)"
      by (auto simp: iosvc_post_delay_def current_time_def)
    then show ?thesis using 2 stopped by simp
  next
    case 3
    then have r: "iosvc_post_delay hnd st ms w = (case ent of
          None \<Rightarrow> Some (EIO_NOMEM, w1\<lparr>timed_handlers_heap := d1\<rparr>)
        | Some p \<Rightarrow> do { d \<leftarrow> dynarr_set d1 p ?x; d \<leftarrow> heap_sift_up delay_hp_ent_lt delay_hp_ent_swp p d;
                       Some (EIO_OK, w1\<lparr>timed_handlers_heap := d\<rparr>) })"
      using a e m by (auto simp: iosvc_post_delay_def current_time_def Let_def)
    show ?thesis
    proof (cases ent)
      case None
      then have "d1 = ?d" "dynarr_full ?d" "\<not> b"
        using e dynarr_emplace_back_fail [of b ?d] by (auto simp: dynarr_full_def)
      then show ?thesis
        using None r 3 m alloc_if_ok [OF a] nomem [where m = m] by simp
    next
      case (Some p)
      then obtain d2 d3 where "dynarr_set d1 p ?x = Some d2" "heap_sift_up delay_hp_ent_lt delay_hp_ent_swp p d2 = Some d3"
        "dynarr_inv d3" "mset (dynarr_list d3) = add_mset ?x (mset (dynarr_list ?d))"
        "is_heap (map dh_deadline (dynarr_list d3))" "front_kept ?x ?d d3"
        using delay_push ok e by (metis delay_ok_def)
      then show ?thesis
        using Some r 3 m scheduled [where m = m and d = d3] by (simp add: delay_ok_def)
    qed
  qed
qed

end
