(* ===== verification/Iosvc_Sched.thy ===== *)
theory Iosvc_Sched
  imports Iosvc_Post
begin

text \<open>
  \<open>src/iosvc_sched.c\<close>: registering a handler for an event on a descriptor, optionally with a
  timeout. \<open>reserve_rd_wr\<close> and \<open>reserve_evt_mem\<close> find or allocate the storage of the event inside
  the descriptor's node, \<open>iosvc_enqueue\<close> fills it in and sets the poll mask.

  The storage is named by its node and slot. The contents of a freshly allocated event block are
  indeterminate until \<open>iosvc_enqueue\<close> writes them; the model puts \<open>zero_event\<close> there and nothing
  reads it in between. The enumeration has three values, so the code's test for a wait type of
  \<open>3\<close> never succeeds and is left out.
\<close>

unbundle bit_operations_syntax

section \<open>Masks\<close>

definition READ_MASK :: pollmask where
  "READ_MASK = POLLRDNORM OR POLLRDBAND OR POLLERR OR POLLHUP OR POLLIN"

definition WRITE_MASK :: pollmask where
  "WRITE_MASK = POLLWRNORM OR POLLWRBAND OR POLLERR OR POLLOUT"

definition EXCEPT_MASK :: pollmask where
  "EXCEPT_MASK = POLLPRI"

fun sched_mask :: "io_wait_type \<Rightarrow> pollmask" where
  "sched_mask WAIT_READ = READ_MASK"
| "sched_mask WAIT_WRITE = WRITE_MASK"
| "sched_mask WAIT_EXCEPTION = EXCEPT_MASK"

section \<open>Storage for an event\<close>

definition event_armed :: "event_data option \<Rightarrow> bool" where
  "event_armed e \<longleftrightarrow> (case e of None \<Rightarrow> False | Some d \<Rightarrow> callback (handler d) \<noteq> NULL)"

definition is_scheduled :: "rb_node \<Rightarrow> io_event \<Rightarrow> bool" where
  "is_scheduled node event =
     (if ev_wait_type event = WAIT_EXCEPTION then event_armed (ex_event node)
      else if main_ev node = EMPTY then False
      else if (ev_wait_type event = WAIT_READ \<and> main_ev node = READ)
            \<or> (ev_wait_type event = WAIT_WRITE \<and> main_ev node = WRITE)
      then callback (handler (main_event node)) \<noteq> NULL
      else event_armed (aux_event node))"

text \<open>The result is the slot, \<open>None\<close> for the null pointer, with the node as it is left.\<close>

definition reserve_rd_wr ::
  "rb_node \<Rightarrow> io_wait_type \<Rightarrow> 'x world_scheme \<Rightarrow> evt_slot option \<times> rb_node \<times> 'x world_scheme"
where
  "reserve_rd_wr node requested w =
     (if main_ev node = EMPTY
      then (Some Main_slot, node\<lparr>main_ev := (if requested = WAIT_READ then READ else WRITE)\<rparr>, w)
      else let stored = (if main_ev node = READ then WAIT_READ else WAIT_WRITE) in
        if stored = requested then (Some Main_slot, node, w)
        else if aux_event node \<noteq> None then (Some Aux_slot, node, w)
        else if ex_event node \<noteq> None \<and> \<not> event_armed (ex_event node)
        then (Some Aux_slot, node\<lparr>aux_event := ex_event node, ex_event := None\<rparr>, w)
        else let (p, w) = next_malloc w in
          if p = None then (None, node, w)
          else (Some Aux_slot, node\<lparr>aux_event := Some zero_event\<rparr>, w))"

definition reserve_ex ::
  "rb_node \<Rightarrow> 'x world_scheme \<Rightarrow> evt_slot option \<times> rb_node \<times> 'x world_scheme"
where
  "reserve_ex node w =
     (if ex_event node \<noteq> None then (Some Ex_slot, node, w)
      else if aux_event node \<noteq> None \<and> \<not> event_armed (aux_event node)
      then (Some Ex_slot, node\<lparr>ex_event := aux_event node, aux_event := None\<rparr>, w)
      else let (p, w) = next_malloc w in
        if p = None then (None, node, w)
        else (Some Ex_slot, node\<lparr>ex_event := Some zero_event\<rparr>, w))"

definition reserve_slot ::
  "rb_node \<Rightarrow> io_wait_type \<Rightarrow> 'x world_scheme \<Rightarrow> evt_slot option \<times> rb_node \<times> 'x world_scheme"
where
  "reserve_slot node t w =
     (if t = WAIT_EXCEPTION then reserve_ex node w else reserve_rd_wr node t w)"

text \<open>
  \<open>reserve_evt_mem\<close> returns the node and slot reserved, \<open>None\<close> for the null pointer. On every
  path that allocated or found a node it ends by storing the node's address in the probed place
  once more, also after \<open>rb_insert\<close> has rebalanced the tree, and after \<open>free\<close>.
\<close>

definition reserve_evt_mem ::
  "rb_place \<Rightarrow> addr \<Rightarrow> rb_place \<Rightarrow> io_event \<Rightarrow> 'x world_scheme
    \<Rightarrow> ((addr \<times> evt_slot) option \<times> 'x world_scheme) option"
where
  "reserve_evt_mem place parent root_ref event w =
     do { cur \<leftarrow> deref (async_handlers w) place;
          let is_new_node = (cur = NULL);
          let (p, w) = (if is_new_node then next_malloc w else (Some cur, w));
          (case p of
             None \<Rightarrow> Some (None, w)
           | Some new_node \<Rightarrow>
             do { let h = async_handlers w;
                  let h = (if is_new_node
                           then h\<lparr>rb_store := (rb_store h)(new_node \<mapsto> make_rbnode (ev_fd event))\<rparr> else h);
                  node \<leftarrow> rb_load h new_node;
                  let (retval, node, w) = reserve_slot node (ev_wait_type event) w;
                  h \<leftarrow> rb_update new_node (\<lambda>_. node) h;
                  h \<leftarrow> (if is_new_node
                       then (if retval \<noteq> None
                             then do { h \<leftarrow> rb_insert new_node place parent root_ref h;
                                       assign place new_node h }
                             else Some (free_node new_node h))
                       else Some h);
                  h \<leftarrow> assign place new_node h;
                  Some (map_option (Pair new_node) retval, w\<lparr>async_handlers := h\<rparr>) }) }"

section \<open>Registration\<close>

text \<open>The first part of \<open>iosvc_enqueue\<close>, up to the error returns; \<open>Inr\<close> carries the storage.\<close>

definition enqueue_reserve ::
  "rb_place \<Rightarrow> addr \<Rightarrow> bool \<Rightarrow> io_event \<Rightarrow> 'x world_scheme
    \<Rightarrow> ((addr \<times> evt_slot) option \<times> 'x world_scheme) option"
where
  "enqueue_reserve place parent is_new_node event w =
     do { (data, w) \<leftarrow> reserve_evt_mem place parent Root_ref event w;
          Some (data, if data = None \<and> is_new_node
                      then w\<lparr>pollfds := dynarr_pop_back (pollfds w)\<rparr> else w) }"

text \<open>The second part: the event's data, the node's \<open>pollfd\<close> and its mask.\<close>

definition enqueue_fill ::
  "rb_place \<Rightarrow> bool \<Rightarrow> addr \<times> evt_slot \<Rightarrow> io_event \<Rightarrow> io_handler \<Rightarrow> addr \<Rightarrow> 'x world_scheme
    \<Rightarrow> (addr \<times> 'x world_scheme) option"
where
  "enqueue_fill place is_new_node data event hnd st w =
     do { let (p, sl) = data;
          w \<leftarrow> with_tree (rb_update p (set_slot_event sl \<lparr>handler = hnd, status = st, ddl_heap_idx = -1\<rparr>)) w;
          out_node \<leftarrow> deref (async_handlers w) place;
          (i, w) \<leftarrow> (if is_new_node
             then do {
               w \<leftarrow> with_tree (rb_update out_node
                      (\<lambda>n. n\<lparr>pollfd_idx := size_dec (dynarr_size (pollfds w))\<rparr>)) w;
               let i = dynarr_back (pollfds w);
               w \<leftarrow> with_pollfds (\<lambda>d. dynarr_set d i
                      \<lparr>pfd_fd = ev_fd event, pfd_events = 0, pfd_revents = 0\<rparr>) w;
               Some (i, w) }
             else do {
               n \<leftarrow> rb_load (async_handlers w) out_node;
               Some (dynarr_at (pollfds w) (pollfd_idx n), w) });
          pollent \<leftarrow> dynarr_get (pollfds w) i;
          w \<leftarrow> with_pollfds (\<lambda>d. dynarr_set d i
                 (pollent\<lparr>pfd_events := pfd_events pollent OR sched_mask (ev_wait_type event)\<rparr>)) w;
          Some (out_node, w) }"

text \<open>\<open>out_node\<close> is set only when the result is \<open>EIO_OK\<close>.\<close>

definition iosvc_enqueue ::
  "io_event \<Rightarrow> io_handler \<Rightarrow> addr \<Rightarrow> 'x world_scheme \<Rightarrow> (io_errcode \<times> addr option \<times> 'x world_scheme) option"
where
  "iosvc_enqueue event hnd st w =
     (if svc_status w \<noteq> READY \<and> svc_status w \<noteq> RUNNING then Some (EIO_STOPPED, None, w)
      else if callback hnd = NULL then Some (EIO_INVARG, None, w)
      else do {
        (place, parent) \<leftarrow> rb_probe (async_handlers w) Root_ref (ev_fd event);
        cur \<leftarrow> deref (async_handlers w) place;
        let is_new_node = (cur = NULL);
        scheduled \<leftarrow> (if is_new_node then Some False
                      else map_option (\<lambda>n. is_scheduled n event) (rb_load (async_handlers w) cur));
        if scheduled then Some (EIO_INPROGRESS, None, w)
        else do {
          let (ok, w) = alloc_if (is_new_node \<and> dynarr_full (pollfds w)) w;
          let (slot, d) = (if is_new_node then dynarr_emplace_back ok (pollfds w) else (Some 0, pollfds w));
          let w = w\<lparr>pollfds := d\<rparr>;
          if slot = None then Some (EIO_NOMEM, None, w)
          else do {
            (data, w) \<leftarrow> enqueue_reserve place parent is_new_node event w;
            (case data of
               None \<Rightarrow> Some (EIO_NOMEM, None, w)
             | Some ps \<Rightarrow>
                 do { (out_node, w) \<leftarrow> enqueue_fill place is_new_node ps event hnd st w;
                      Some (EIO_OK, Some out_node, w) }) } } })"

definition iosvc_sched ::
  "io_event \<Rightarrow> io_handler \<Rightarrow> addr \<Rightarrow> 'x world_scheme \<Rightarrow> (io_errcode \<times> 'x world_scheme) option"
where
  "iosvc_sched event hnd st w =
     do { (ioerr, _, w) \<leftarrow> iosvc_enqueue event hnd st w; Some (ioerr, w) }"

definition iosvc_sched_timeout ::
  "io_event \<Rightarrow> io_handler \<Rightarrow> addr \<Rightarrow> addr \<Rightarrow> 'x world_scheme \<Rightarrow> (io_errcode \<times> 'x world_scheme) option"
where
  "iosvc_sched_timeout event hnd st milliseconds w =
     (if milliseconds = NULL then None
      else let (now, w) = current_time w;
               deadline = now + ints w milliseconds;
               (ok, w) = alloc_if (dynarr_full (timed_events_heap w)) w;
               (heap_ent, d) = dynarr_emplace_back ok (timed_events_heap w);
               w = w\<lparr>timed_events_heap := d\<rparr>
           in case heap_ent of
                None \<Rightarrow> Some (EIO_NOMEM, w)
              | Some p \<Rightarrow>
                  do { (ioerr, res_node, w) \<leftarrow> iosvc_enqueue event hnd st w;
                       (case res_node of
                          None \<Rightarrow> Some (ioerr, w\<lparr>timed_events_heap := dynarr_pop_back (timed_events_heap w)\<rparr>)
                        | Some node \<Rightarrow>
                            do { w \<leftarrow> with_events (\<lambda>d. dynarr_set d p
                                   \<lparr>ah_deadline = deadline, ah_remaining = milliseconds,
                                    ah_io_op_data = node, ah_event_type = ev_wait_type event\<rparr>) w;
                                 let heap_idx = size_dec (dynarr_size (timed_events_heap w));
                                 w \<leftarrow> with_tree (set_ddl node (ev_wait_type event) (int heap_idx)) w;
                                 w \<leftarrow> heap_sift_up_idx async_hp_ent_lt async_hp_ent_swp heap_idx w;
                                 Some (ioerr, w) }) })"

section \<open>What registration leaves alone\<close>

text \<open>Only the allocator, the poll vector and the tree change.\<close>

definition reg_frame :: "'x world_scheme \<Rightarrow> 'x world_scheme \<Rightarrow> bool" where
  "reg_frame w w' \<longleftrightarrow> (\<exists>ms d h. w' = w\<lparr>mallocs := ms, pollfds := d, async_handlers := h\<rparr>)"

lemma reg_frame_refl [simp]: "reg_frame w w"
  by (cases w) (auto simp: reg_frame_def)

lemma reg_frame_trans: "reg_frame w w1 \<Longrightarrow> reg_frame w1 w2 \<Longrightarrow> reg_frame w w2"
  by (cases w) (auto simp: reg_frame_def)

lemma reg_frame_upd [simp]:
  "reg_frame w (w'\<lparr>pollfds := d\<rparr>) \<longleftrightarrow> reg_frame w w'" "reg_frame w (w'\<lparr>async_handlers := h\<rparr>) \<longleftrightarrow> reg_frame w w'"
  "reg_frame w (w'\<lparr>mallocs := m\<rparr>) \<longleftrightarrow> reg_frame w w'"
  by (cases w; cases w'; auto simp: reg_frame_def)+

lemma reserve_slot_frame: "reserve_slot n t w = (sl, n', w') \<Longrightarrow> reg_frame w w'"
  by (auto simp: reserve_slot_def reserve_ex_def reserve_rd_wr_def next_malloc_def Let_def split: if_splits prod.splits)

lemma reserve_evt_mem_frame:
  assumes "reserve_evt_mem place parent root event w = Some (r, w')"
  shows "reg_frame w w'"
proof -
  obtain c where c: "deref (async_handlers w) place = Some c"
    using assms by (auto simp: reserve_evt_mem_def bind_eq_Some)
  obtain p w1 where p: "(if c = NULL then next_malloc w else (Some c, w)) = (p, w1)" by fastforce
  have w1: "reg_frame w w1"
    using p by (auto simp: next_malloc_def split: if_splits)
  show ?thesis
  proof (cases p)
    case None
    then show ?thesis using assms c p w1 by (simp add: reserve_evt_mem_def)
  next
    case (Some a)
    then obtain n sl n' w2 h where "reserve_slot n (ev_wait_type event) w1 = (sl, n', w2)" "w' = w2\<lparr>async_handlers := h\<rparr>"
      using assms c p by (auto simp: reserve_evt_mem_def bind_eq_Some Let_def split: prod.splits) (metis prod_cases3)
    then show ?thesis
      using w1 reserve_slot_frame reg_frame_trans by fastforce
  qed
qed

lemma with_tree_frame: "with_tree f w = Some w' \<Longrightarrow> reg_frame w w'"
  by (auto simp: with_tree_def)

lemma with_pollfds_frame: "with_pollfds f w = Some w' \<Longrightarrow> reg_frame w w'"
  by (auto simp: with_pollfds_def)

lemma enqueue_fill_frame: "enqueue_fill place new ps event hnd st w = Some (n, w') \<Longrightarrow> reg_frame w w'"
  by (auto simp: enqueue_fill_def bind_eq_Some Let_def with_tree_def with_pollfds_def split: prod.splits if_splits)

text \<open>\<open>iosvc_enqueue\<close> from the point where it is known whether the descriptor has a node.\<close>

definition enqueue_at ::
  "rb_place \<Rightarrow> addr \<Rightarrow> bool \<Rightarrow> io_event \<Rightarrow> io_handler \<Rightarrow> addr \<Rightarrow> 'x world_scheme
    \<Rightarrow> (io_errcode \<times> addr option \<times> 'x world_scheme) option"
where
  "enqueue_at place parent is_new_node event hnd st w =
     (let (ok, w) = alloc_if (is_new_node \<and> dynarr_full (pollfds w)) w;
          (slot, d) = (if is_new_node then dynarr_emplace_back ok (pollfds w) else (Some 0, pollfds w));
          w = w\<lparr>pollfds := d\<rparr>
      in if slot = None then Some (EIO_NOMEM, None, w)
         else do { (data, w) \<leftarrow> enqueue_reserve place parent is_new_node event w;
                   (case data of
                      None \<Rightarrow> Some (EIO_NOMEM, None, w)
                    | Some ps \<Rightarrow> do { (out_node, w) \<leftarrow> enqueue_fill place is_new_node ps event hnd st w;
                                     Some (EIO_OK, Some out_node, w) }) })"

lemma iosvc_enqueue_at:
  "iosvc_enqueue event hnd st w =
     (if svc_status w \<noteq> READY \<and> svc_status w \<noteq> RUNNING then Some (EIO_STOPPED, None, w)
      else if callback hnd = NULL then Some (EIO_INVARG, None, w)
      else do { (place, parent) \<leftarrow> rb_probe (async_handlers w) Root_ref (ev_fd event);
                cur \<leftarrow> deref (async_handlers w) place;
                scheduled \<leftarrow> (if cur = NULL then Some False
                              else map_option (\<lambda>n. is_scheduled n event) (rb_load (async_handlers w) cur));
                if scheduled then Some (EIO_INPROGRESS, None, w)
                else enqueue_at place parent (cur = NULL) event hnd st w })"
  unfolding iosvc_enqueue_def enqueue_at_def Let_def ..

lemma enqueue_at_frame:
  assumes "enqueue_at place parent b event hnd st w = Some (e, n, w')"
  shows "reg_frame w w'"
proof -
  obtain ok w1 where a: "alloc_if (b \<and> dynarr_full (pollfds w)) w = (ok, w1)" by fastforce
  obtain slot d where d: "(if b then dynarr_emplace_back ok (pollfds w1) else (Some 0, pollfds w1)) = (slot, d)" by fastforce
  let ?w2 = "w1\<lparr>pollfds := d\<rparr>"
  have w2: "reg_frame w ?w2"
    using alloc_if_world [OF a] by auto
  show ?thesis
  proof (cases slot)
    case None
    then show ?thesis using assms a d w2 by (simp add: enqueue_at_def)
  next
    case (Some q)
    then obtain dt w3 where r: "enqueue_reserve place parent b event ?w2 = Some (dt, w3)"
        "(case dt of None \<Rightarrow> Some (EIO_NOMEM, None, w3) | Some ps \<Rightarrow>
           do { (out_node, w) \<leftarrow> enqueue_fill place b ps event hnd st w3; Some (EIO_OK, Some out_node, w) }) = Some (e, n, w')"
      using assms a d by (auto simp: enqueue_at_def bind_eq_Some)
    have "reg_frame ?w2 w3"
      using r(1) reserve_evt_mem_frame [of place parent Root_ref event ?w2]
      by (auto simp: enqueue_reserve_def bind_eq_Some simp del: reg_frame_upd)
        (auto)
    moreover have "reg_frame w3 w'"
      using r(2) enqueue_fill_frame by (auto simp: bind_eq_Some split: option.splits)
    ultimately show ?thesis
      using w2 reg_frame_trans by blast
  qed
qed

lemma iosvc_enqueue_frame:
  "iosvc_enqueue event hnd st w = Some (e, n, w') \<Longrightarrow> reg_frame w w'"
  using enqueue_at_frame by (auto simp: iosvc_enqueue_at bind_eq_Some split: if_splits)

lemma iosvc_sched_frame: "iosvc_sched event hnd st w = Some (e, w') \<Longrightarrow> reg_frame w w'"
  using iosvc_enqueue_frame by (auto simp: iosvc_sched_def bind_eq_Some)

end
