(* ===== verification/Iosvc_Dequeue.thy ===== *)
theory Iosvc_Dequeue
  imports Iosvc_Sched
begin

text \<open>
  \<open>src/iosvc_dequeue.c\<close> and \<open>src/iosvc_cancel.c\<close>: taking a handler out of its node and out of the
  deadline heap, removing a node that has no pending event left, and cancelling an event.
\<close>

unbundle bit_operations_syntax

section \<open>Taking a handler out\<close>

fun dequeue_mask :: "io_wait_type \<Rightarrow> pollmask" where
  "dequeue_mask WAIT_READ = POLLIN OR POLLHUP OR POLLRDNORM OR POLLRDBAND"
| "dequeue_mask WAIT_WRITE = POLLOUT OR POLLWRNORM OR POLLWRBAND"
| "dequeue_mask WAIT_EXCEPTION = POLLPRI"

text \<open>Signalling the remaining time and popping the entry at \<open>heap_idx\<close> from the deadline heap.\<close>

definition dequeue_deadline :: "int \<Rightarrow> int \<Rightarrow> 'x world_scheme \<Rightarrow> 'x world_scheme option" where
  "dequeue_deadline heap_idx now w =
     do { let i = nat heap_idx;
          heap_ent \<leftarrow> dynarr_get (timed_events_heap w) i;
          let remaining = (if ah_deadline heap_ent > now then to_int (ah_deadline heap_ent - now) else 0);
          w \<leftarrow> put_int (ah_remaining heap_ent) remaining w;
          w \<leftarrow> with_events (\<lambda>d. dynarr_set d i (heap_ent\<lparr>ah_deadline := -1\<rparr>)) w;
          w \<leftarrow> heap_sift_up_idx async_hp_ent_lt async_hp_ent_swp i w;
          w \<leftarrow> async_hp_ent_swp (dynarr_front (timed_events_heap w)) (dynarr_back (timed_events_heap w)) w;
          let w = w\<lparr>timed_events_heap := dynarr_pop_back (timed_events_heap w)\<rparr>;
          if \<not> dynarr_empty (timed_events_heap w)
          then heap_sift_down_idx events_size async_hp_ent_lt async_hp_ent_swp 0 w
          else Some w }"

text \<open>Vacating the event's storage in the node.\<close>

definition vacate :: "evt_slot \<Rightarrow> event_data \<Rightarrow> rb_node \<Rightarrow> rb_node" where
  "vacate sl e n =
     (let n = set_slot_event sl (e\<lparr>handler := (handler e)\<lparr>callback := NULL\<rparr>\<rparr>) n in
      if callback (handler (main_event n)) = NULL \<and> \<not> event_armed (aux_event n)
      then n\<lparr>main_ev := EMPTY\<rparr> else n)"

definition clear_events :: "io_wait_type \<Rightarrow> pollmask \<Rightarrow> pollmask" where
  "clear_events t ev =
     (let ev = ev AND NOT (dequeue_mask t) in
      if ev AND (dequeue_mask WAIT_READ OR dequeue_mask WAIT_WRITE) = 0 then ev AND NOT POLLERR else ev)"

definition iosvc_dequeue ::
  "addr \<Rightarrow> io_wait_type \<Rightarrow> int \<Rightarrow> io_errcode \<Rightarrow> 'x world_scheme \<Rightarrow> (io_handler \<times> 'x world_scheme) option"
where
  "iosvc_dequeue fd_node event_type now st w =
     do { n \<leftarrow> rb_load (async_handlers w) fd_node;
          sl \<leftarrow> get_evt_slot n event_type;
          evt_data \<leftarrow> slot_event n sl;
          let hnd = handler evt_data;
          let heap_idx = ddl_heap_idx evt_data;
          w \<leftarrow> (if heap_idx \<ge> 0 then dequeue_deadline heap_idx now w else Some w);
          n \<leftarrow> rb_load (async_handlers w) fd_node;
          evt_data \<leftarrow> slot_event n sl;
          let w = put_status (status evt_data) st w;
          w \<leftarrow> with_tree (rb_update fd_node (vacate sl evt_data)) w;
          pollent \<leftarrow> dynarr_get (pollfds w) (pollfd_idx n);
          w \<leftarrow> with_pollfds (\<lambda>d. dynarr_set d (pollfd_idx n)
                 (pollent\<lparr>pfd_events := clear_events event_type (pfd_events pollent)\<rparr>)) w;
          Some (hnd, w) }"

section \<open>Removing a node\<close>

definition ioevt_cleanup_evt :: "rb_place \<Rightarrow> addr \<Rightarrow> 'x world_scheme \<Rightarrow> 'x world_scheme option" where
  "ioevt_cleanup_evt place parent w =
     do { (to_remove, h) \<leftarrow> rb_extract place parent Root_ref (async_handlers w);
          n \<leftarrow> rb_load h to_remove;
          let idx = pollfd_idx n;
          let w = w\<lparr>async_handlers := free_node to_remove h\<rparr>;
          last \<leftarrow> dynarr_get (pollfds w) (size_dec (d_nelems (pollfds w)));
          w \<leftarrow> with_pollfds (\<lambda>d. dynarr_set d idx last) w;
          let w = w\<lparr>pollfds := dynarr_pop_back (pollfds w)\<rparr>;
          if idx < dynarr_size (pollfds w)
          then do { moved \<leftarrow> dynarr_get (pollfds w) idx;
                    (place, _) \<leftarrow> rb_probe (async_handlers w) Root_ref (pfd_fd moved);
                    p \<leftarrow> deref (async_handlers w) place;
                    with_tree (rb_update p (\<lambda>n. n\<lparr>pollfd_idx := idx\<rparr>)) w }
          else Some w }"

section \<open>Cancelling\<close>

text \<open>
  The node is looked at again through the probed place once the callback has returned; the place
  and the parent are not probed again.
\<close>

definition cleanup_if_idle :: "rb_place \<Rightarrow> addr \<Rightarrow> 'x world_scheme \<Rightarrow> 'x world_scheme option" where
  "cleanup_if_idle place parent w =
     do { p \<leftarrow> deref (async_handlers w) place;
          n \<leftarrow> rb_load (async_handlers w) p;
          pollent \<leftarrow> dynarr_get (pollfds w) (pollfd_idx n);
          if pfd_events pollent = 0 then ioevt_cleanup_evt place parent w else Some w }"

definition iosvc_cancel ::
  "(io_handler \<Rightarrow> 'x world_scheme \<Rightarrow> 'x world_scheme option) \<Rightarrow> io_event \<Rightarrow> 'x world_scheme
    \<Rightarrow> (io_errcode \<times> 'x world_scheme) option"
where
  "iosvc_cancel call event w =
     (if svc_status w \<noteq> RUNNING then Some (EIO_INVARG, w)
      else do {
        (place, parent) \<leftarrow> rb_probe (async_handlers w) Root_ref (ev_fd event);
        cur \<leftarrow> deref (async_handlers w) place;
        if cur = NULL then Some (EIO_NOENTRY, w)
        else do {
          n \<leftarrow> rb_load (async_handlers w) cur;
          if \<not> event_armed (get_evt_data n (ev_wait_type event)) then Some (EIO_NOENTRY, w)
          else do {
            (hnd, w) \<leftarrow> iosvc_dequeue cur (ev_wait_type event) 0 EIO_CANCELLED w;
            w \<leftarrow> invoke call hnd w;
            w \<leftarrow> cleanup_if_idle place parent w;
            Some (EIO_OK, w) } } })"

end
