(* ===== verification/Deadline_Heap.thy ===== *)
theory Deadline_Heap
  imports Iosvc_Dequeue
begin

text \<open>
  The deadline heap of timed events as the service uses it: removing the entry at the position an
  event records, whatever that position is, and reading the next deadline off the two heaps.
\<close>

section \<open>Removing an entry by its position\<close>

definition events_ok :: "'x world_scheme \<Rightarrow> bool" where
  "events_ok w \<longleftrightarrow> heap_idx_ok w \<and> is_heap (map ah_deadline (events_list w))
     \<and> (\<forall>e \<in> set (events_list w). 0 \<le> ah_deadline e)"

lemma ent_key_update [simp]:
  "ent_key (e\<lparr>ah_deadline := d\<rparr>) = ent_key e"
  by (simp add: ent_key_def)

lemma with_events_set:
  assumes "heap_idx_ok w" and "i < length (events_list w)"
    and "ent_key e = ent_key (events_list w ! i)"
  obtains d where "with_events (\<lambda>d. dynarr_set d i e) w = Some (w\<lparr>timed_events_heap := d\<rparr>)"
    "heap_idx_ok (w\<lparr>timed_events_heap := d\<rparr>)" "dynarr_list d = (events_list w)[i := e]"
proof -
  let ?d = "timed_events_heap w"
  have inv: "dynarr_inv ?d" "i < length (dynarr_list ?d)"
    using assms(1,2) by (simp_all add: heap_idx_ok_def events_list_def del: length_dynarr_list)
  obtain d where d: "dynarr_set ?d i e = Some d" "dynarr_inv d" "dynarr_list d = (events_list w)[i := e]"
    using dynarr_set_list [OF inv] by (metis events_list_def)
  have "heap_idx_ok (w\<lparr>timed_events_heap := d\<rparr>)"
    using assms d(2,3) events_get [OF assms(1)] by (auto simp: heap_idx_ok_def events_list_def [of "_\<lparr>timed_events_heap := d\<rparr>"] nth_list_update ent_key_def)
  then show ?thesis
    using that d by (simp add: with_events_def)
qed

lemma heap_idx_ok_pop:
  assumes "heap_idx_ok w" and "events_list w \<noteq> []"
  defines "w' \<equiv> w\<lparr>timed_events_heap := dynarr_pop_back (timed_events_heap w)\<rparr>"
  shows "heap_idx_ok w'" "events_list w' = butlast (events_list w)"
proof -
  have inv: "dynarr_inv (timed_events_heap w)"
    using assms(1) by (simp add: heap_idx_ok_def)
  show L: "events_list w' = butlast (events_list w)"
    using dynarr_pop_back_list(2) [OF inv] assms(2) by (simp add: w'_def events_list_def)
  show "heap_idx_ok w'"
    using assms(1,2) L dynarr_pop_back_list(1) [OF inv]
    by (simp add: heap_idx_ok_def nth_butlast) (simp add: w'_def events_list_def)
qed

lemma swap_last_butlast:
  assumes "xs \<noteq> []"
  shows "butlast (list_swap xs 0 (length xs - 1)) = (if length xs = 1 then [] else (butlast xs)[0 := last xs])"
proof (rule nth_equalityI)
  fix i assume "i < length (butlast (list_swap xs 0 (length xs - 1)))"
  then show "butlast (list_swap xs 0 (length xs - 1)) ! i =
      (if length xs = 1 then [] else (butlast xs)[0 := last xs]) ! i"
    using assms by (auto simp: nth_butlast nth_list_swap nth_list_update last_conv_nth)
qed (use assms in auto)

text \<open>Once the entry's deadline is the smallest, sifting it up brings it to the front.\<close>

lemma front_is_least:
  assumes "is_heap (map ah_deadline L)" and "mset L = add_mset e M" "ah_deadline e = -1"
    and "\<forall>x \<in># M. 0 \<le> ah_deadline x"
  shows "L \<noteq> []" "L ! 0 = e"
proof -
  show "L \<noteq> []" using assms(2) by auto
  have "e \<in> set L"
    using assms(2) by (metis set_mset_mset union_single_eq_member)
  then obtain j where "j < length L" "L ! j = e"
    by (auto simp: in_set_conv_nth)
  then have "ah_deadline (L ! 0) \<le> -1"
    using is_heap_min [OF assms(1), of j] assms(3) \<open>L \<noteq> []\<close> by simp
  moreover have "L ! 0 \<in># add_mset e M"
    using \<open>L \<noteq> []\<close> by (simp flip: assms(2))
  ultimately show "L ! 0 = e"
    using assms(4) by force
qed

text \<open>Popping the front: exchange with the last entry, shrink, sift down.\<close>

definition pop_front :: "'x world_scheme \<Rightarrow> 'x world_scheme option" where
  "pop_front w =
     do { w \<leftarrow> async_hp_ent_swp (dynarr_front (timed_events_heap w)) (dynarr_back (timed_events_heap w)) w;
          let w = w\<lparr>timed_events_heap := dynarr_pop_back (timed_events_heap w)\<rparr>;
          if \<not> dynarr_empty (timed_events_heap w)
          then heap_sift_down_idx events_size async_hp_ent_lt async_hp_ent_swp 0 w
          else Some w }"

text \<open>\<open>popped w0 x w\<close>: \<open>w\<close> is \<open>w0\<close> without the entry \<open>x\<close>, in heap order.\<close>

definition popped :: "'x world_scheme \<Rightarrow> async_heap_entry \<Rightarrow> 'x world_scheme \<Rightarrow> bool" where
  "popped w0 x w \<longleftrightarrow> heap_idx_ok w \<and> is_heap (map ah_deadline (events_list w))
     \<and> mset (events_list w0) = add_mset x (mset (events_list w))
     \<and> same_but_ddl (async_handlers w0) (async_handlers w)
     \<and> (\<exists>d h. w = w0\<lparr>timed_events_heap := d, async_handlers := h\<rparr>)
     \<and> (\<forall>p t. (p, t) \<notin> ent_key ` set (events_list w0) \<longrightarrow>
          get_ddl (async_handlers w) p t = get_ddl (async_handlers w0) p t)"

lemma pop_front_exec:
  assumes ok: "heap_idx_ok w" and hp: "is_heap (map ah_deadline (events_list w))" and ne: "events_list w \<noteq> []"
  obtains w' where "pop_front w = Some w'" "popped w (events_list w ! 0) w'"
proof -
  let ?L = "events_list w"
  let ?n = "length ?L - 1"
  have n: "0 < length ?L" "?n < length ?L"
    using ne by auto
  have inv: "dynarr_inv (timed_events_heap w)" "d_nelems (timed_events_heap w) = length ?L"
    using ok by (simp_all add: heap_idx_ok_def events_list_def)
  then have ends: "dynarr_back (timed_events_heap w) = ?n" "dynarr_front (timed_events_heap w) = 0"
    using n by (simp_all add: dynarr_back_def dynarr_at_def dynarr_front_def)
  obtain w1 where w1: "async_hp_ent_swp 0 ?n w = Some w1" "resifted w w1" "events_list w1 = list_swap ?L 0 ?n"
    using async_hp_ent_swp_exec [OF ok n] by metis
  define w2 where "w2 = w1\<lparr>timed_events_heap := dynarr_pop_back (timed_events_heap w1)\<rparr>"
  have ok1: "heap_idx_ok w1" "events_list w1 \<noteq> []"
    using w1(2,3) ne by (auto simp: resifted_def list_swap_def)
  have ok2: "heap_idx_ok w2" and L2: "events_list w2 = butlast (list_swap ?L 0 ?n)"
    using heap_idx_ok_pop [OF ok1] w1(3) by (simp_all add: w2_def)
  have "mset (list_swap ?L 0 ?n) = add_mset (last (list_swap ?L 0 ?n)) (mset (butlast (list_swap ?L 0 ?n)))"
    using ok1(2) w1(3) by (intro mset_butlast_last) simp
  moreover have "last (list_swap ?L 0 ?n) = ?L ! 0"
    using n ok1(2) w1(3) last_conv_nth [of "list_swap ?L 0 ?n"] by (simp add: nth_list_swap)
  ultimately have ms: "mset ?L = add_mset (?L ! 0) (mset (events_list w2))"
    using L2 n by simp
  have "\<exists>w'. (if \<not> dynarr_empty (timed_events_heap w2)
      then heap_sift_down_idx events_size async_hp_ent_lt async_hp_ent_swp 0 w2 else Some w2) = Some w'
      \<and> resifted w2 w' \<and> is_heap (map ah_deadline (events_list w'))"
  proof (cases "events_list w2 = []")
    case True
    then show ?thesis
      using ok2 by (auto simp: heap_idx_ok_def dynarr_empty_list events_list_def resifted_refl)
  next
    case False
    then have "length ?L \<noteq> 1"
      using L2 by (cases ?L) (auto simp: list_swap_def)
    then have "map ah_deadline (events_list w2) = (butlast (map ah_deadline ?L))[0 := ah_deadline (last ?L)]"
      using swap_last_butlast [OF ne] L2 by (simp add: map_update map_butlast)
    then have "heap_except_down (map ah_deadline (events_list w2)) 0"
      using heap_replace_root_except_down is_heap_butlast [OF hp] by simp
    then have "\<exists>w'. heap_sift_down_idx events_size async_hp_ent_lt async_hp_ent_swp 0 w2 = Some w'
        \<and> resifted w2 w' \<and> is_heap (map ah_deadline (events_list w'))"
      using ah.sift_down [OF resifted_refl [OF ok2]] by blast
    then show ?thesis
      using False ok2 by (simp add: heap_idx_ok_def dynarr_empty_list events_list_def)
  qed
  then obtain w' where w': "(if \<not> dynarr_empty (timed_events_heap w2)
      then heap_sift_down_idx events_size async_hp_ent_lt async_hp_ent_swp 0 w2 else Some w2) = Some w'"
      "resifted w2 w'" "is_heap (map ah_deadline (events_list w'))" by blast
  obtain d1 h1 where e1: "w1 = w\<lparr>timed_events_heap := d1, async_handlers := h1\<rparr>"
    using w1(2) unfolding resifted_def by blast
  obtain d2 h2 where e2: "w' = w2\<lparr>timed_events_heap := d2, async_handlers := h2\<rparr>"
    using w'(2) unfolding resifted_def by blast
  have "get_ddl (async_handlers w') p t = get_ddl (async_handlers w) p t" if "(p, t) \<notin> ent_key ` set ?L" for p t
  proof -
    have "set (events_list w2) \<subseteq> set ?L"
      using ms by (metis set_mset_mset set_mset_add_mset_insert subset_insertI)
    then have "(p, t) \<notin> ent_key ` set (events_list w2)"
      using that by blast
    then have "get_ddl (async_handlers w') p t = get_ddl (async_handlers w2) p t"
      using w'(2) by (simp add: resifted_def)
    then show ?thesis
      using that w1(2) by (simp add: resifted_def w2_def)
  qed
  moreover have "same_but_ddl (async_handlers w) (async_handlers w')"
    using w1(2) w'(2) same_but_ddl_trans by (auto simp: resifted_def w2_def)
  moreover have "\<exists>d h. w' = w\<lparr>timed_events_heap := d, async_handlers := h\<rparr>"
    by (intro exI [of _ d2] exI [of _ h2]) (simp add: e2 w2_def e1)
  ultimately have "popped w (?L ! 0) w'"
    using w'(2,3) ms by (simp add: popped_def resifted_def)
  moreover have "pop_front w = Some w'"
    using w1(1) w'(1) [unfolded w2_def] by (simp add: pop_front_def ends Let_def)
  ultimately show ?thesis
    using that by blast
qed

text \<open>The whole of the heap part of \<open>iosvc_dequeue\<close>.\<close>

lemma dequeue_deadline_pop:
  "dequeue_deadline (int i) now w =
     do { heap_ent \<leftarrow> dynarr_get (timed_events_heap w) i;
          w \<leftarrow> put_int (ah_remaining heap_ent)
                 (if ah_deadline heap_ent > now then to_int (ah_deadline heap_ent - now) else 0) w;
          w \<leftarrow> with_events (\<lambda>d. dynarr_set d i (heap_ent\<lparr>ah_deadline := -1\<rparr>)) w;
          w \<leftarrow> heap_sift_up_idx async_hp_ent_lt async_hp_ent_swp i w;
          pop_front w }"
  by (simp add: dequeue_deadline_def pop_front_def)

definition time_left :: "async_heap_entry \<Rightarrow> int \<Rightarrow> int" where
  "time_left e now = (if ah_deadline e > now then to_int (ah_deadline e - now) else 0)"

definition dequeued :: "'x world_scheme \<Rightarrow> async_heap_entry \<Rightarrow> int \<Rightarrow> 'x world_scheme \<Rightarrow> bool" where
  "dequeued w x now w' \<longleftrightarrow> events_ok w' \<and> mset (events_list w) = add_mset x (mset (events_list w'))
     \<and> same_but_ddl (async_handlers w) (async_handlers w')
     \<and> (\<exists>d h. w' = w\<lparr>timed_events_heap := d, async_handlers := h,
                        ints := (ints w)(ah_remaining x := time_left x now)\<rparr>)
     \<and> (\<forall>p t. (p, t) \<notin> ent_key ` set (events_list w) \<longrightarrow>
          get_ddl (async_handlers w') p t = get_ddl (async_handlers w) p t)"

lemma dequeue_deadline_exec:
  assumes ok: "events_ok w" and i: "i < length (events_list w)"
    and rem: "ah_remaining (events_list w ! i) \<noteq> NULL"
  obtains w' where "dequeue_deadline (int i) now w = Some w'" "dequeued w (events_list w ! i) now w'"
proof -
  let ?L = "events_list w"
  let ?e = "?L ! i"
  let ?e' = "?e\<lparr>ah_deadline := -1\<rparr>"
  have idx: "heap_idx_ok w" and hp: "is_heap (map ah_deadline ?L)" and pos: "\<forall>e \<in> set ?L. 0 \<le> ah_deadline e"
    using ok by (auto simp: events_ok_def)
  define w1 where "w1 = w\<lparr>ints := (ints w)(ah_remaining ?e := time_left ?e now)\<rparr>"
  have r1: "put_int (ah_remaining ?e) (time_left ?e now) w = Some w1" and L1: "events_list w1 = ?L"
    using rem by (simp_all add: put_int_def w1_def events_list_def)
  have idx1: "heap_idx_ok w1"
    using idx by (simp add: heap_idx_ok_def L1) (simp add: w1_def)
  obtain d where d: "with_events (\<lambda>d. dynarr_set d i ?e') w1 = Some (w1\<lparr>timed_events_heap := d\<rparr>)"
      "heap_idx_ok (w1\<lparr>timed_events_heap := d\<rparr>)" "dynarr_list d = ?L[i := ?e']"
    using with_events_set [OF idx1, of i ?e'] i L1 by auto
  let ?w2 = "w1\<lparr>timed_events_heap := d\<rparr>"
  have L2: "events_list ?w2 = ?L[i := ?e']"
    using d(3) by (simp add: events_list_def)
  have "-1 \<le> ah_deadline ?e"
    using pos i by (metis nth_mem order_trans neg_le_0_iff_le zero_le_one)
  then have "heap_except_up (map ah_deadline (events_list ?w2)) i"
    using heap_decrease_except_up [OF hp, of i "-1"] i by (simp add: L2 map_update)
  then obtain w3 where w3: "heap_sift_up_idx async_hp_ent_lt async_hp_ent_swp i ?w2 = Some w3" "resifted ?w2 w3"
      "mset (events_list w3) = mset (events_list ?w2)" "is_heap (map ah_deadline (events_list w3))"
    using ah.sift_up [OF resifted_refl [OF d(2)]] i L2 by auto
  have ms: "mset ?L = add_mset ?e (mset ?L - {#?e#})" "mset (events_list w3) = add_mset ?e' (mset ?L - {#?e#})"
    using i w3(3) L2 by (simp_all add: mset_update)
  have pos': "\<forall>x \<in># mset ?L - {#?e#}. 0 \<le> ah_deadline x"
    using pos by (auto dest: in_diffD)
  have top: "events_list w3 \<noteq> []" "events_list w3 ! 0 = ?e'"
    using front_is_least [OF w3(4) ms(2)] pos' by simp_all
  have idx3: "heap_idx_ok w3"
    using w3(2) by (simp add: resifted_def)
  obtain w' where w': "pop_front w3 = Some w'" "popped w3 ?e' w'"
    using pop_front_exec [OF idx3 w3(4) top(1)] top(2) by metis
  have run: "dequeue_deadline (int i) now w = Some w'"
    using events_get [OF idx i] r1 d(1) w3(1) w'(1) by (simp add: dequeue_deadline_pop time_left_def)
  have ms': "mset (events_list w') = mset ?L - {#?e#}"
    using w'(2) ms(2) by (simp add: popped_def)
  then have "set (events_list w') \<subseteq> set ?L"
    using ms(1) by (metis diff_subset_eq_self set_mset_mono set_mset_mset)
  then have ok': "events_ok w'"
    using w'(2) pos by (auto simp: events_ok_def popped_def)
  have keys: "ent_key ` set (events_list w3) = ent_key ` set ?L" "events_list ?w2 = ?L[i := ?e']"
    using arg_cong [OF ms(1), of "\<lambda>M. ent_key ` set_mset M"] arg_cong [OF ms(2), of "\<lambda>M. ent_key ` set_mset M"] L2
    by simp_all
  have keys2: "ent_key ` set (events_list ?w2) = ent_key ` set ?L"
    using keys(1) w3(3) by (metis set_mset_mset)
  obtain d3 h3 where e3: "w3 = ?w2\<lparr>timed_events_heap := d3, async_handlers := h3\<rparr>"
    using w3(2) unfolding resifted_def by blast
  obtain d4 h4 where e4: "w' = w3\<lparr>timed_events_heap := d4, async_handlers := h4\<rparr>"
    using w'(2) unfolding popped_def by blast
  have "same_but_ddl (async_handlers w) (async_handlers w')"
    using w3(2) w'(2) same_but_ddl_trans by (auto simp: resifted_def popped_def w1_def)
  moreover have "\<exists>d h. w' = w\<lparr>timed_events_heap := d, async_handlers := h,
      ints := (ints w)(ah_remaining ?e := time_left ?e now)\<rparr>"
    by (intro exI [of _ d4] exI [of _ h4]) (simp add: e4 e3 w1_def)
  moreover have "get_ddl (async_handlers w') p t = get_ddl (async_handlers w) p t"
    if "(p, t) \<notin> ent_key ` set ?L" for p t
    using that w'(2) w3(2) keys(1) keys2 by (simp add: popped_def resifted_def w1_def)
  ultimately have "dequeued w ?e now w'"
    using ok' ms(1) ms' by (simp add: dequeued_def)
  then show ?thesis
    using that run by blast
qed

section \<open>Adding an entry\<close>

text \<open>The tail of \<open>iosvc_sched_timeout\<close>: filling the new slot, recording its position, sifting up.\<close>

definition push_event :: "nat \<Rightarrow> async_heap_entry \<Rightarrow> 'x world_scheme \<Rightarrow> 'x world_scheme option" where
  "push_event p e w =
     do { w \<leftarrow> with_events (\<lambda>d. dynarr_set d p e) w;
          let heap_idx = size_dec (dynarr_size (timed_events_heap w));
          w \<leftarrow> with_tree (set_ddl (ah_io_op_data e) (ah_event_type e) (int heap_idx)) w;
          heap_sift_up_idx async_hp_ent_lt async_hp_ent_swp heap_idx w }"

definition pushed :: "'x world_scheme \<Rightarrow> async_heap_entry \<Rightarrow> 'x world_scheme \<Rightarrow> bool" where
  "pushed w x w' \<longleftrightarrow> events_ok w' \<and> mset (events_list w') = add_mset x (mset (events_list w))
     \<and> same_but_ddl (async_handlers w) (async_handlers w')
     \<and> (\<exists>d h. w' = w\<lparr>timed_events_heap := d, async_handlers := h\<rparr>)
     \<and> (\<forall>p t. (p, t) \<notin> insert (ent_key x) (ent_key ` set (events_list w)) \<longrightarrow>
          get_ddl (async_handlers w') p t = get_ddl (async_handlers w) p t)"

lemma push_event_exec:
  assumes ok: "events_ok w" and em: "dynarr_emplace_back b (timed_events_heap w) = (Some p, d)"
    and ddl: "get_ddl (async_handlers w) (ah_io_op_data e) (ah_event_type e) = Some (-1)" and pos: "0 \<le> ah_deadline e"
  obtains w' where "push_event p e (w\<lparr>timed_events_heap := d\<rparr>) = Some w'" "pushed w e w'"
proof -
  let ?L = "events_list w"
  have idx: "heap_idx_ok w" and hp: "is_heap (map ah_deadline ?L)" and inv: "dynarr_inv (timed_events_heap w)"
    using ok by (auto simp: events_ok_def heap_idx_ok_def)
  obtain d1 where d1: "dynarr_set d p e = Some d1" "dynarr_inv d1" "dynarr_list d1 = ?L @ [e]"
    using dynarr_emplace_set [OF inv em] by (metis events_list_def)
  have p: "p = length ?L"
    using dynarr_emplace_back_ok(1) [OF inv em] by (simp add: events_list_def)
  have n: "size_dec (dynarr_size d1) = length ?L"
    using d1 by (simp add: dynarr_size_list del: length_dynarr_list)
  obtain h where h: "set_ddl (ah_io_op_data e) (ah_event_type e) (int (length ?L)) (async_handlers w) = Some h"
      "get_ddl h (ah_io_op_data e) (ah_event_type e) = Some (int (length ?L))"
      "\<And>q u. (q, u) \<noteq> (ah_io_op_data e, ah_event_type e) \<Longrightarrow> get_ddl h q u = get_ddl (async_handlers w) q u"
      "same_but_ddl (async_handlers w) h"
    using set_ddl_exec [OF ddl] by metis
  let ?w1 = "w\<lparr>timed_events_heap := d1, async_handlers := h\<rparr>"
  have L1: "events_list ?w1 = ?L @ [e]"
    using d1(3) by (simp add: events_list_def)
  have neq: "(ah_io_op_data (?L ! i), ah_event_type (?L ! i)) \<noteq> (ah_io_op_data e, ah_event_type e)" if "i < length ?L" for i
    using events_get [OF idx that] ddl by auto
  have "heap_idx_ok ?w1"
    using d1(2) h(2,3) neq events_get [OF idx]
    by (auto simp: heap_idx_ok_def L1 nth_append less_Suc_eq)
  moreover have "heap_except_up (map ah_deadline (events_list ?w1)) (length ?L)"
    using heap_append_except_up [OF hp, of "ah_deadline e"] by (simp add: L1)
  ultimately obtain w' where w': "heap_sift_up_idx async_hp_ent_lt async_hp_ent_swp (length ?L) ?w1 = Some w'"
      "resifted ?w1 w'" "mset (events_list w') = mset (events_list ?w1)" "is_heap (map ah_deadline (events_list w'))"
    using ah.sift_up [OF resifted_refl, of ?w1 "length ?L"] L1 by auto
  have run: "push_event p e (w\<lparr>timed_events_heap := d\<rparr>) = Some w'"
    using d1(1) n h(1) w'(1) by (simp add: push_event_def with_events_def with_tree_def Let_def)
  obtain d2 h2 where e2: "w' = ?w1\<lparr>timed_events_heap := d2, async_handlers := h2\<rparr>"
    using w'(2) unfolding resifted_def by blast
  have sets: "set (events_list w') = insert e (set ?L)"
    using w'(3) L1 by (metis mset_append mset_single_iff set_append set_mset_mset list.simps(15) mset_eq_setD
        empty_set Un_insert_right sup_bot_right)
  have "events_ok w'"
    using w'(2,4) ok pos by (auto simp: events_ok_def resifted_def sets)
  moreover have "get_ddl (async_handlers w') q u = get_ddl (async_handlers w) q u"
    if "(q, u) \<notin> insert (ent_key e) (ent_key ` set ?L)" for q u
    using that w'(2) h(3) [of q u] by (auto simp: resifted_def L1 ent_key_def)
  moreover have "same_but_ddl (async_handlers w) (async_handlers w')"
    using w'(2) h(4) same_but_ddl_trans by (auto simp: resifted_def)
  moreover have "\<exists>d h. w' = w\<lparr>timed_events_heap := d, async_handlers := h\<rparr>"
    by (intro exI [of _ d2] exI [of _ h2]) (simp add: e2)
  ultimately have "pushed w e w'"
    using w'(3) L1 by (simp add: pushed_def)
  then show ?thesis
    using that run by blast
qed

end
