(* ===== verification/Svc_Inv.thy ===== *)
theory Svc_Inv
  imports Rbtree_Props Deadline_Heap
begin

text \<open>
  The invariant that ties the service's structures together: the descriptor tree, the poll vector,
  the deadline heap and the events stored in the nodes.

  \<open>node_data\<close> reads a node's contents without its links, which is what insertion and removal in
  the tree keep; \<open>same_links\<close> is the converse, a memory whose links are unchanged.
\<close>

unbundle bit_operations_syntax

section \<open>Links and contents of nodes\<close>

definition node_data :: "rb_heap \<Rightarrow> addr \<Rightarrow> rb_node option" where
  "node_data h a = map_option payload (rb_store h a)"

lemma node_data_frame: "rb_frame h h' \<Longrightarrow> node_data h' a = node_data h a"
  by (simp add: node_data_def rb_frame_lookup)

lemma payload_sel [simp]:
  "main_ev (payload n) = main_ev n" "pollfd_idx (payload n) = pollfd_idx n" "fd (payload n) = fd n"
  "main_event (payload n) = main_event n" "aux_event (payload n) = aux_event n" "ex_event (payload n) = ex_event n"
  by (simp_all add: payload_def)

definition links :: "rb_node \<Rightarrow> addr \<times> addr \<times> addr \<times> int" where
  "links n = (meta n, left n, right n, fd n)"

definition same_links :: "rb_heap \<Rightarrow> rb_heap \<Rightarrow> bool" where
  "same_links h h' \<longleftrightarrow> rb_root h' = rb_root h
     \<and> (\<forall>a n. rb_store h a = Some n \<longrightarrow> (\<exists>n'. rb_store h' a = Some n' \<and> links n' = links n))"

lemma node_at_links:
  "node_at s a p c k l r \<Longrightarrow> (\<And>n. s a = Some n \<Longrightarrow> \<exists>n'. s' a = Some n' \<and> links n' = links n) \<Longrightarrow>
   node_at s' a p c k l r"
  unfolding node_at_def links_def by fastforce

lemma rep_links:
  "rep s p t \<Longrightarrow> (\<And>a n. s a = Some n \<Longrightarrow> \<exists>n'. s' a = Some n' \<and> links n' = links n) \<Longrightarrow> rep s' p t"
  by (induction t arbitrary: p) (auto intro: node_at_links)

lemma rb_tree_links: "rb_tree h T \<Longrightarrow> same_links h h' \<Longrightarrow> rb_tree h' T"
  unfolding rb_tree_def trep_def same_links_def by (metis rep_links)

lemma same_links_refl [simp]: "same_links h h"
  by (simp add: same_links_def)

lemma same_links_trans: "same_links h h1 \<Longrightarrow> same_links h1 h2 \<Longrightarrow> same_links h h2"
  unfolding same_links_def by metis

lemma same_links_update:
  assumes "rb_update p f h = Some h'" and "\<And>n. links (f n) = links n"
  shows "same_links h h'"
  using assms by (auto simp: rb_update_def rb_load_def same_links_def bind_eq_Some split: if_splits)

lemma links_update [simp]:
  "links (n\<lparr>pollfd_idx := i\<rparr>) = links n" "links (n\<lparr>main_ev := m\<rparr>) = links n"
  "links (n\<lparr>main_event := e\<rparr>) = links n" "links (n\<lparr>aux_event := x\<rparr>) = links n"
  "links (n\<lparr>ex_event := x\<rparr>) = links n" "links (set_slot_event sl e n) = links n"
  by (cases sl; simp add: links_def)+

lemma erase_ddl_links: "erase_ddl n' = erase_ddl n \<Longrightarrow> links n' = links n"
  by (cases n; cases n') (auto simp: erase_ddl_def links_def)

lemma same_but_ddl_links: "same_but_ddl h h' \<Longrightarrow> same_links h h'"
  unfolding same_but_ddl_def same_links_def by (metis erase_ddl_links map_option_eq_Some)

section \<open>Events of a node\<close>

definition armed :: "rb_node \<Rightarrow> io_wait_type \<Rightarrow> bool" where
  "armed n t = event_armed (get_evt_data n t)"

text \<open>The inline storage is marked empty exactly when neither read nor write is pending.\<close>

definition node_ok :: "rb_node \<Rightarrow> bool" where
  "node_ok n \<longleftrightarrow> (main_ev n = EMPTY \<longleftrightarrow>
     callback (handler (main_event n)) = NULL \<and> \<not> event_armed (aux_event n))"

definition node_mask :: "rb_node \<Rightarrow> pollmask" where
  "node_mask n = (if armed n WAIT_READ then READ_MASK else 0)
     OR (if armed n WAIT_WRITE then WRITE_MASK else 0) OR (if armed n WAIT_EXCEPTION then EXCEPT_MASK else 0)"

lemma get_evt_data_payload [simp]: "get_evt_data (payload n) t = get_evt_data n t"
proof -
  have "slot_event (payload n) sl = slot_event n sl" for sl
    by (cases sl) auto
  then show ?thesis
    by (simp add: get_evt_data_def get_evt_slot_def cong: option.case_cong)
qed

lemma armed_payload [simp]: "armed (payload n) = armed n" "node_ok (payload n) = node_ok n"
  "node_mask (payload n) = node_mask n"
  by (simp_all add: armed_def node_ok_def node_mask_def fun_eq_iff)

text \<open>The masks the code sets and clears agree with the set of pending events.\<close>

definition mask_of :: "io_wait_type set \<Rightarrow> pollmask" where
  "mask_of S = (if WAIT_READ \<in> S then READ_MASK else 0)
     OR (if WAIT_WRITE \<in> S then WRITE_MASK else 0) OR (if WAIT_EXCEPTION \<in> S then EXCEPT_MASK else 0)"

lemma node_mask_of: "node_mask n = mask_of {t. armed n t}"
  by (simp add: node_mask_def mask_of_def)

lemmas mask_defs = READ_MASK_def WRITE_MASK_def EXCEPT_MASK_def poll_bits

lemma mask_of_insert: "mask_of S OR sched_mask t = mask_of (insert t S)"
  by (cases t) (auto simp: mask_of_def mask_defs)

lemma mask_of_remove: "clear_events t (mask_of S) = mask_of (S - {t})"
  by (cases t; cases "WAIT_READ \<in> S"; cases "WAIT_WRITE \<in> S"; cases "WAIT_EXCEPTION \<in> S")
    (simp_all add: mask_of_def clear_events_def mask_defs Let_def)

lemma mask_of_empty: "mask_of S = 0 \<longleftrightarrow> S = {}"
proof -
  have "S = {} \<longleftrightarrow> WAIT_READ \<notin> S \<and> WAIT_WRITE \<notin> S \<and> WAIT_EXCEPTION \<notin> S"
    by (metis all_not_in_conv io_wait_type.exhaust)
  then show ?thesis
    by (cases "WAIT_READ \<in> S"; cases "WAIT_WRITE \<in> S"; cases "WAIT_EXCEPTION \<in> S")
      (auto simp: mask_of_def mask_defs)
qed

section \<open>The invariant\<close>

definition poll_ok :: "'x world_scheme \<Rightarrow> (int \<rightharpoonup> addr) \<Rightarrow> bool" where
  "poll_ok w m \<longleftrightarrow> (let P = dynarr_list (pollfds w) in
     dynarr_inv (pollfds w) \<and> length P = card (dom m)
     \<and> (\<forall>k a. m k = Some a \<longrightarrow> (\<exists>n. node_data (async_handlers w) a = Some n \<and> fd n = k \<and> node_ok n
          \<and> pollfd_idx n < length P \<and> pfd_fd (P ! pollfd_idx n) = k \<and> pfd_events (P ! pollfd_idx n) = node_mask n)))"

definition timers_ok :: "'x world_scheme \<Rightarrow> (int \<rightharpoonup> addr) \<Rightarrow> bool" where
  "timers_ok w m \<longleftrightarrow> events_ok w
     \<and> (\<forall>e \<in> set (events_list w). ah_remaining e \<noteq> NULL \<and> ah_io_op_data e \<in> ran m
          \<and> (\<forall>n. node_data (async_handlers w) (ah_io_op_data e) = Some n \<longrightarrow> armed n (ah_event_type e)))
     \<and> (\<forall>a \<in> ran m. \<forall>n t d. node_data (async_handlers w) a = Some n \<longrightarrow> get_evt_data n t = Some d \<longrightarrow>
          callback (handler d) \<noteq> NULL \<longrightarrow> ddl_heap_idx d = -1 \<or> (a, t) \<in> ent_key ` set (events_list w))"

definition svc_inv :: "'x world_scheme \<Rightarrow> (int \<rightharpoonup> addr) \<Rightarrow> bool" where
  "svc_inv w m \<longleftrightarrow> cbuf_inv (sync_handlers w) \<and> delay_ok w \<and> tree_holds (async_handlers w) m
     \<and> poll_ok w m \<and> timers_ok w m"

lemma tree_holds_finite: "tree_holds h m \<Longrightarrow> finite (dom m)"
  by (auto simp: tree_holds_def tree_map_def finite_dom_map_of)

lemma tree_holds_links: "tree_holds h m \<Longrightarrow> same_links h h' \<Longrightarrow> tree_holds h' m"
  using rb_tree_links by (auto simp: tree_holds_def)

lemma tree_holds_load:
  assumes "tree_holds h m" and "m k = Some a"
  obtains n where "rb_store h a = Some n" "rb_load h a = Some n" "a \<noteq> NULL"
proof -
  obtain T where T: "rb_tree h T" "tree_map T = m"
    using assms(1) by (auto simp: tree_holds_def)
  then have "a \<in> addrs T"
    using assms(2) addrs_ran by (auto simp: rb_tree_def ran_def)
  then have "a \<noteq> NULL" "rb_store h a \<noteq> None"
    using T(1) rep_addrs by (auto simp: rb_tree_def trep_def)
  then show ?thesis
    using that by (auto simp: rb_load_def)
qed

text \<open>A new service satisfies it.\<close>

lemma svc_inv_create:
  assumes "iosvc_create True = Some s"
    and "sync_handlers w = sync_handlers s" "timed_handlers_heap w = timed_handlers_heap s"
      "pollfds w = pollfds s" "timed_events_heap w = timed_events_heap s" "async_handlers w = async_handlers s"
  shows "svc_inv w Map.empty"
proof -
  have "rb_tree (async_handlers w) Lf"
    using assms by (auto simp: iosvc_create_def rb_tree_def trep_def rb_ok_def keys_def)
  then have "tree_holds (async_handlers w) Map.empty"
    unfolding tree_holds_def by (intro exI [of _ Lf]) (simp add: tree_map_def)
  moreover have "sync_handlers w = cbuf_init 16" "timed_handlers_heap w = dynarr_init 32"
      "pollfds w = dynarr_init 8" "timed_events_heap w = dynarr_init 32"
    using assms by (auto simp: iosvc_create_def)
  ultimately show ?thesis
    by (simp add: svc_inv_def delay_ok_def poll_ok_def timers_ok_def events_ok_def heap_idx_ok_def events_list_def
        cbuf_inv_init)
qed

end
