(* ===== verification/Sched_Props.thy ===== *)
theory Sched_Props
  imports Svc_Inv
begin

text \<open>
  Registering an event: what \<open>iosvc_enqueue\<close> and the two public operations built on it do to the
  service, on a descriptor that has a node and on a new one. \<open>zigzag_at\<close> is the shape of the tree
  at the probed place in which the code's second write through that place corrupts the tree.
\<close>

unbundle bit_operations_syntax

section \<open>Storage\<close>

lemma is_scheduled_armed: "is_scheduled n event = armed n (ev_wait_type event)"
  by (auto simp: is_scheduled_def armed_def get_evt_data_def get_evt_slot_def event_armed_def)

text \<open>What a successful reservation for \<open>t\<close> makes of a node once the event is filled in.\<close>

definition armed_with :: "rb_node \<Rightarrow> io_wait_type \<Rightarrow> event_data \<Rightarrow> rb_node \<Rightarrow> bool" where
  "armed_with n t e n' \<longleftrightarrow> node_ok n' \<and> get_evt_data n' t = Some e
     \<and> (\<forall>u. u \<noteq> t \<longrightarrow> (if armed n u then get_evt_data n' u = get_evt_data n u else \<not> armed n' u))"

lemma armed_with_armed:
  assumes "armed_with n t e n'" and "callback (handler e) \<noteq> NULL"
  shows "{u. armed n' u} = insert t {u. armed n u}"
proof -
  have t: "armed n' t"
    using assms by (simp add: armed_with_def armed_def event_armed_def)
  have "armed n' u = armed n u" if "u \<noteq> t" for u
    using assms(1) that by (cases "armed n u") (auto simp: armed_with_def armed_def)
  with t have "armed n' u \<longleftrightarrow> u = t \<or> armed n u" for u
    by (cases "u = t") simp_all
  then show ?thesis by auto
qed

text \<open>The reservation as a function of the node and of whether an allocation would succeed.\<close>

definition reserved_in :: "rb_node \<Rightarrow> io_wait_type \<Rightarrow> bool \<Rightarrow> evt_slot option \<times> rb_node \<times> bool" where
  "reserved_in n t ok =
     (if t = WAIT_EXCEPTION
      then (if ex_event n \<noteq> None then (Some Ex_slot, n, False)
            else if aux_event n \<noteq> None \<and> \<not> event_armed (aux_event n)
            then (Some Ex_slot, n\<lparr>ex_event := aux_event n, aux_event := None\<rparr>, False)
            else if ok then (Some Ex_slot, n\<lparr>ex_event := Some zero_event\<rparr>, True) else (None, n, True))
      else if main_ev n = EMPTY
      then (Some Main_slot, n\<lparr>main_ev := (if t = WAIT_READ then READ else WRITE)\<rparr>, False)
      else if (main_ev n = READ) = (t = WAIT_READ) then (Some Main_slot, n, False)
      else if aux_event n \<noteq> None then (Some Aux_slot, n, False)
      else if ex_event n \<noteq> None \<and> \<not> event_armed (ex_event n)
      then (Some Aux_slot, n\<lparr>aux_event := ex_event n, ex_event := None\<rparr>, False)
      else if ok then (Some Aux_slot, n\<lparr>aux_event := Some zero_event\<rparr>, True) else (None, n, True))"

lemma reserve_slot_in:
  "reserve_slot n t w = (case reserved_in n t (mallocs w 0 \<noteq> None) of (sl, n', used) \<Rightarrow>
     (sl, n', if used then w\<lparr>mallocs := \<lambda>i. mallocs w (Suc i)\<rparr> else w))"
  by (cases t; cases "main_ev n")
    (simp_all add: reserve_slot_def reserve_ex_def reserve_rd_wr_def reserved_in_def next_malloc_def)

lemma all_wait: "(\<forall>u. P u) \<longleftrightarrow> P WAIT_READ \<and> P WAIT_WRITE \<and> P WAIT_EXCEPTION"
  by (metis io_wait_type.exhaust)

lemma reserved_in_armed:
  assumes "node_ok n" "\<not> armed n t" "reserved_in n t ok = (Some sl, n', used)" "callback (handler e) \<noteq> NULL"
  shows "armed_with n t e (set_slot_event sl e n')"
  using assms unfolding armed_with_def all_wait
  by (cases t; cases "main_ev n"; cases "aux_event n"; cases "ex_event n")
    (auto simp: reserved_in_def node_ok_def armed_def get_evt_data_def get_evt_slot_def event_armed_def zero_event_def
      null_handler_def split: if_splits)

lemma reserved_in_links:
  "reserved_in n t ok = (sl, n', used) \<Longrightarrow> links n' = links n \<and> pollfd_idx n' = pollfd_idx n"
  by (auto simp: reserved_in_def split: if_splits)

lemma reserved_in_None:
  "reserved_in n t ok = (None, n', used) \<Longrightarrow> n' = n \<and> \<not> ok"
  by (auto simp: reserved_in_def split: if_splits)

section \<open>Inserting the node\<close>

text \<open>The parent at the probed place is red, hangs on the other side of its own parent, and has no red
  sibling: inserting there moves the new node.\<close>

definition zigzag_at :: "rb_heap \<Rightarrow> rb_place \<Rightarrow> bool" where
  "zigzag_at h place =
     (case place of Root_ref \<Rightarrow> False | Child_ref p d \<Rightarrow>
        (case rb_load h p of None \<Rightarrow> False | Some pn \<Rightarrow> meta_red (meta pn) \<and>
           (case rb_load h (meta_parent (meta pn)) of None \<Rightarrow> False | Some gn \<Rightarrow>
              d \<noteq> (right gn = p) \<and> is_red h (child gn (right gn \<noteq> p)) = Some False)))"

lemma zigzag_at_ctx:
  assumes t: "trep h (plug C t)" and z: "zigzag C"
  shows "zigzag_at h (cplace C)"
proof -
  obtain d a k s e c' b m u C' where C: "C = Fr d True a k s # Fr e c' b m u # C'" "d \<noteq> e" "\<not> red u"
    using z by (cases C rule: zigzag.cases) auto
  let ?A = "nd d True t a k s"
  have ta: "trep h (plug (Fr e c' b m u # C') ?A)" and tb: "trep h (plug C' (nd e c' ?A b m u))"
    using t C by simp_all
  have tu: "trep h (plug (Fr (\<not> e) c' b m ?A # C') u)"
    using tb by (simp add: nd_flip)
  obtain pn where pn: "rb_load h a = Some pn" "meta pn = mk_meta b True"
    using trep_load [OF ta] by auto
  obtain bn where bn: "rb_load h b = Some bn" "(child bn True = a) = e" "child bn (\<not> e) = ptr u"
    using parent_dir [OF tb] by auto
  have "aligned b"
    using trep_aligned_cpar [OF ta] by simp
  moreover have "is_red h (ptr u) = Some False"
    using trep_is_red [OF tu] C(3) by simp
  ultimately show ?thesis
    using C pn bn by (auto simp: zigzag_at_def child_def)
qed

lemma trep_fresh: "trep h T \<Longrightarrow> a \<notin> addrs T \<Longrightarrow> trep (h\<lparr>rb_store := (rb_store h)(a \<mapsto> n)\<rparr>) T"
  by (simp add: trep_def)

text \<open>Allocating a node, linking it in and writing its address to the probed place again.\<close>

lemma insert_steady:
  assumes T: "tree_holds h m" and pr: "rb_probe h Root_ref key = Some (place, parent)"
    and new: "m key = None" and a: "a \<noteq> NULL" "aligned a" "a \<notin> ran m" and nz: "\<not> zigzag_at h place"
    and n: "links n = links (make_rbnode key)"
  defines "h1 \<equiv> h\<lparr>rb_store := (rb_store h)(a \<mapsto> n)\<rparr>"
  obtains h' where "rb_insert a place parent Root_ref h1 = Some h'" "tree_holds h' (m(key \<mapsto> a))" "rb_frame h1 h'"
    "deref h' place = Some a" "assign place a h' = Some h'"
proof -
  obtain T where T: "rb_tree h T" "tree_map T = m"
    using T by (auto simp: tree_holds_def)
  obtain C where C: "T = plug C Lf" "place = cplace C" "parent = cpar C" "between key C"
    using probe_result [OF T(1) pr] new T(2) by metis
  have ad: "a \<notin> addrs T"
    using a(3) T addrs_ran by (auto simp: rb_tree_def)
  have T1: "rb_tree h1 (plug C Lf)"
    using T(1) trep_fresh ad C(1) by (auto simp: rb_tree_def h1_def)
  have nn: "rb_store h1 a = Some n" "meta n = 1" "left n = NULL" "right n = NULL" "fd n = key"
    using n by (simp_all add: h1_def links_def make_rbnode_def)
  have "\<not> zigzag C"
    using zigzag_at_ctx [of h C Lf] T(1) C nz by (auto simp: rb_tree_def)
  then obtain h' T' where r: "rb_insert a place parent Root_ref h1 = Some h'" "rb_frame h1 h'" "trep h' T'"
      "inorder T' = fst (cinorder C) @ (a, key) # snd (cinorder C)" "invc T'" "invh T'" "\<not> red T'"
      "\<exists>E t. T' = plug E t \<and> cplace E = cplace C \<and> ptr t = a"
    using rb_insert_runs [OF T1 nn(1-4)] a ad C nn(5) by (auto simp: runs_def)
  have ok: "rb_ok T" using T(1) by (simp add: rb_tree_def)
  then have "sorted_wrt (<) (keys T')"
    using C(1,4) r(4) by (auto simp: rb_ok_def keys_def inorder_plug sorted_wrt_append between_def)
  with r have ok': "rb_ok T'" by (simp add: rb_ok_def)
  have "tree_map T' = (tree_map T)(key \<mapsto> a)"
    using C(1) r(4) new tree_map_iff [OF ok] tree_map_None [of T key] T(2)
    by (intro tree_map_eqI [OF ok ok']) (auto simp: inorder_plug keys_def)
  then have "tree_holds h' (m(key \<mapsto> a))"
    using r(3) ok' T(2) by (auto simp: tree_holds_def rb_tree_def)
  moreover have d: "deref h' place = Some a"
    using r(3,8) C(2) trep_deref by metis
  moreover from d have "assign place a h' = Some h'"
    by (cases place) (auto simp: rb_update_def set_child_def child_def rb_load_def fun_upd_idem_iff split: if_splits)
  ultimately show ?thesis
    using that r(1,2) by blast
qed

end
