(* ===== verification/Enqueue_Props.thy ===== *)
theory Enqueue_Props
  imports Sched_Props
begin

text \<open>
  \<open>iosvc_enqueue\<close> keeps the service invariant and registers exactly the requested event, on a
  descriptor without a node and on one that has a node already; each error return leaves the
  registered events as they were.
\<close>

unbundle bit_operations_syntax

section \<open>Effect on the invariant\<close>

lemma get_ddl_data:
  "get_ddl h p t = (if p = NULL then None else do { n \<leftarrow> node_data h p; e \<leftarrow> get_evt_data n t; Some (ddl_heap_idx e) })"
  by (cases "rb_store h p") (simp_all add: get_ddl_def rb_load_def node_data_def)

lemma get_ddl_cong: "node_data h' p = node_data h p \<Longrightarrow> get_ddl h' p t = get_ddl h p t"
  by (simp add: get_ddl_data)

lemma events_ok_cong:
  assumes "events_ok w" and "timed_events_heap w' = timed_events_heap w"
    and "\<And>e. e \<in> set (events_list w) \<Longrightarrow>
      get_ddl (async_handlers w') (ah_io_op_data e) (ah_event_type e)
      = get_ddl (async_handlers w) (ah_io_op_data e) (ah_event_type e)"
  shows "events_ok w'"
proof -
  have L: "events_list w' = events_list w"
    using assms(2) by (simp add: events_list_def)
  show ?thesis
    using assms by (simp add: events_ok_def heap_idx_ok_def L)
qed

text \<open>Arming the event \<open>t\<close> of the node \<open>a\<close>, whose contents were \<open>n\<close>.\<close>

lemma timers_ok_arm:
  assumes tm: "timers_ok w m" and ev: "timed_events_heap w' = timed_events_heap w"
    and others: "\<And>b. b \<in> ran m \<Longrightarrow> b \<noteq> a \<Longrightarrow> node_data (async_handlers w') b = node_data (async_handlers w) b"
    and a: "node_data (async_handlers w') a = Some n'" and arm: "armed_with n t e n'" and t: "\<not> armed n t"
    and old: "a \<in> ran m \<Longrightarrow> node_data (async_handlers w) a = Some n" "a \<notin> ran m \<Longrightarrow> \<forall>u. \<not> armed n u"
    and ddl: "ddl_heap_idx e = -1" and ran: "ran m' = insert a (ran m)"
  shows "timers_ok w' m'"
proof -
  have L: "events_list w' = events_list w"
    using ev by (simp add: events_list_def)
  have kept: "get_evt_data n' u = get_evt_data n u" if "armed n u" for u
    using arm t that by (auto simp: armed_with_def)
  have ent: "ah_remaining x \<noteq> NULL" "ah_io_op_data x \<in> ran m"
      "\<And>n0. node_data (async_handlers w) (ah_io_op_data x) = Some n0 \<Longrightarrow> armed n0 (ah_event_type x)"
    if "x \<in> set (events_list w)" for x
    using tm that by (auto simp: timers_ok_def)
  have dd: "get_ddl (async_handlers w') (ah_io_op_data x) (ah_event_type x)
      = get_ddl (async_handlers w) (ah_io_op_data x) (ah_event_type x)" if x: "x \<in> set (events_list w)" for x
  proof (cases "ah_io_op_data x = a")
    case True
    then have "armed n (ah_event_type x)"
      using ent(2,3) [OF x] old(1) by simp
    then show ?thesis
      using True ent(2) [OF x] old(1) a kept by (simp add: get_ddl_data)
  next
    case False
    then show ?thesis
      using others ent [OF x] by (intro get_ddl_cong) simp
  qed
  have "events_ok w"
    using tm by (simp add: timers_ok_def)
  then have ok: "events_ok w'"
    using ev dd by (rule events_ok_cong)
  have "armed n0 (ah_event_type x)" if x: "x \<in> set (events_list w)"
      and n0: "node_data (async_handlers w') (ah_io_op_data x) = Some n0" for x n0
  proof (cases "ah_io_op_data x = a")
    case True
    then have "armed n (ah_event_type x)" "n0 = n'"
      using ent(2,3) [OF x] old(1) a n0 by simp_all
    then show ?thesis
      using kept by (simp add: armed_def)
  next
    case False
    then show ?thesis
      using ent [OF x] n0 others by simp
  qed
  moreover have "ddl_heap_idx d = -1 \<or> (b, u) \<in> ent_key ` set (events_list w)"
    if b: "b \<in> ran m'" and n0: "node_data (async_handlers w') b = Some n0" "get_evt_data n0 u = Some d"
      "callback (handler d) \<noteq> NULL" for b n0 u d
  proof (cases "b = a")
    case True
    show ?thesis
    proof (cases "u = t")
      case True
      then show ?thesis
        using \<open>b = a\<close> n0 a arm ddl by (simp add: armed_with_def)
    next
      case False
      then have "armed n u"
        using \<open>b = a\<close> n0 a arm by (cases "armed n u") (auto simp: armed_with_def armed_def event_armed_def)
      moreover from this have "a \<in> ran m" "node_data (async_handlers w) a = Some n"
        using old by auto
      ultimately show ?thesis
        using tm \<open>b = a\<close> n0 a kept [of u] by (auto simp: timers_ok_def)
    qed
  next
    case False
    then show ?thesis
      using b ran n0 others [of b] tm by (auto simp: timers_ok_def)
  qed
  ultimately show ?thesis
    using ok ent ran by (auto simp: timers_ok_def L)
qed

lemma poll_ok_append:
  assumes pk: "poll_ok w m" and fin: "finite (dom m)" and new: "m k = None"
    and others: "\<And>b. b \<in> ran m \<Longrightarrow> node_data (async_handlers w') b = node_data (async_handlers w) b"
    and P: "dynarr_inv (pollfds w')" "dynarr_list (pollfds w') = dynarr_list (pollfds w) @ [x]"
    and n: "node_data (async_handlers w') a = Some n" "fd n = k" "node_ok n"
      "pollfd_idx n = length (dynarr_list (pollfds w))" "pfd_fd x = k" "pfd_events x = node_mask n"
  shows "poll_ok w' (m(k \<mapsto> a))"
proof -
  let ?P = "dynarr_list (pollfds w)"
  have len: "length ?P = card (dom m)"
    using pk unfolding poll_ok_def Let_def by blast
  have old: "\<exists>n. node_data (async_handlers w') b = Some n \<and> fd n = j \<and> node_ok n
      \<and> pollfd_idx n < length (?P @ [x]) \<and> pfd_fd ((?P @ [x]) ! pollfd_idx n) = j
      \<and> pfd_events ((?P @ [x]) ! pollfd_idx n) = node_mask n" if mj: "m j = Some b" for j b
  proof -
    obtain n where "node_data (async_handlers w) b = Some n" "fd n = j" "node_ok n" "pollfd_idx n < length ?P"
        "pfd_fd (?P ! pollfd_idx n) = j" "pfd_events (?P ! pollfd_idx n) = node_mask n"
      using pk mj unfolding poll_ok_def Let_def by blast
    moreover have "b \<in> ran m"
      using mj by (rule ranI)
    ultimately show ?thesis
      using others [of b] by (intro exI [of _ n]) (simp add: nth_append)
  qed
  have "card (dom (m(k \<mapsto> a))) = Suc (card (dom m))"
    using fin new by (simp add: domIff)
  then show ?thesis
    using P old n len unfolding poll_ok_def Let_def by (auto simp: nth_append)
qed

section \<open>A descriptor without a node\<close>

lemma deref_links: "same_links h h' \<Longrightarrow> deref h p = Some q \<Longrightarrow> deref h' p = Some q"
  by (cases p) (auto simp: same_links_def links_def rb_load_def child_def split: if_splits, fastforce+)

lemma probe_new:
  assumes "tree_holds h m" "rb_probe h Root_ref key = Some (place, parent)" "m key = None"
  shows "deref h place = Some NULL"
proof -
  obtain T where T: "rb_tree h T" "tree_map T = m"
    using assms(1) by (auto simp: tree_holds_def)
  obtain pl pa where "rb_probe h Root_ref key = Some (pl, pa)" "deref h pl = Some NULL"
    using probe_finds [OF T(1), of key] T(2) assms(3) by auto
  then show ?thesis
    using assms(2) by simp
qed

lemma reserve_new:
  assumes T: "tree_holds (async_handlers w) m" and pr: "rb_probe (async_handlers w) Root_ref (ev_fd event) = Some (place, parent)"
    and new: "m (ev_fd event) = None" and a: "mallocs w 0 = Some a" "a \<noteq> NULL" "aligned a" "a \<notin> ran m"
    and mem: "mallocs w 1 \<noteq> None" and nz: "\<not> zigzag_at (async_handlers w) place"
  obtains sl n h' ms where "reserve_evt_mem place parent Root_ref event w = Some (Some (a, sl), w\<lparr>mallocs := ms, async_handlers := h'\<rparr>)"
    "tree_holds h' (m(ev_fd event \<mapsto> a))" "deref h' place = Some a" "node_data h' a = Some (payload n)"
    "\<And>b. b \<noteq> a \<Longrightarrow> node_data h' b = node_data (async_handlers w) b"
    "\<And>e. callback (handler e) \<noteq> NULL \<Longrightarrow> armed_with (make_rbnode (ev_fd event)) (ev_wait_type event) e (set_slot_event sl e n)"
    "links n = links (make_rbnode (ev_fd event))"
proof -
  let ?k = "ev_fd event" and ?t = "ev_wait_type event" and ?h = "async_handlers w"
  let ?w1 = "w\<lparr>mallocs := \<lambda>i. mallocs w (Suc i)\<rparr>"
  have nok: "node_ok (make_rbnode ?k)" "\<not> armed (make_rbnode ?k) ?t"
    by (cases ?t; simp add: node_ok_def armed_def make_rbnode_def event_armed_def get_evt_data_def get_evt_slot_def
        zero_event_def null_handler_def)+
  obtain sl n used where ri: "reserved_in (make_rbnode ?k) ?t (mallocs ?w1 0 \<noteq> None) = (sl, n, used)"
    by (metis prod_cases3)
  then have "reserved_in (make_rbnode ?k) ?t True = (sl, n, used)"
    using mem by simp
  then have "sl \<noteq> None"
    using reserved_in_None by metis
  then obtain s where s: "sl = Some s" by blast
  have ln: "links n = links (make_rbnode ?k)"
    using reserved_in_links [OF ri] by simp
  have rs: "reserve_slot (make_rbnode ?k) ?t ?w1 =
      (Some s, n, if used then ?w1\<lparr>mallocs := \<lambda>i. mallocs ?w1 (Suc i)\<rparr> else ?w1)"
    using reserve_slot_in [of "make_rbnode ?k" ?t ?w1] ri s by simp
  obtain h' where h': "rb_insert a place parent Root_ref (?h\<lparr>rb_store := (rb_store ?h)(a \<mapsto> n)\<rparr>) = Some h'"
      "tree_holds h' (m(?k \<mapsto> a))" "rb_frame (?h\<lparr>rb_store := (rb_store ?h)(a \<mapsto> n)\<rparr>) h'"
      "deref h' place = Some a" "assign place a h' = Some h'"
    using insert_steady [OF T pr new a(2-4) nz ln] by metis
  have "reserve_evt_mem place parent Root_ref event w =
      Some (Some (a, s), (if used then ?w1\<lparr>mallocs := \<lambda>i. mallocs ?w1 (Suc i)\<rparr> else ?w1)\<lparr>async_handlers := h'\<rparr>)"
    using probe_new [OF T pr new] a rs h'(1,5)
    by (simp add: reserve_evt_mem_def next_malloc_def rb_load_def rb_update_def Let_def)
  moreover have "\<exists>ms. (if used then ?w1\<lparr>mallocs := \<lambda>i. mallocs ?w1 (Suc i)\<rparr> else ?w1)\<lparr>async_handlers := h'\<rparr>
      = w\<lparr>mallocs := ms, async_handlers := h'\<rparr>"
    by (cases used) auto
  moreover have "node_data h' a = Some (payload n)" "\<And>b. b \<noteq> a \<Longrightarrow> node_data h' b = node_data ?h b"
    using node_data_frame [OF h'(3)] by (simp_all add: node_data_def)
  ultimately show ?thesis
    using that h'(2,4) reserved_in_armed [OF nok ri [unfolded s]] ln by metis
qed

lemma rb_update_data:
  assumes "node_data h a = Some p" and "a \<noteq> NULL" and "\<And>n. links (f n) = links n"
    and "\<And>n. payload (f n) = f (payload n)"
  obtains h' where "rb_update a f h = Some h'" "same_links h h'" "node_data h' a = Some (f p)"
    "\<And>b. b \<noteq> a \<Longrightarrow> node_data h' b = node_data h b"
proof -
  obtain n where n: "rb_store h a = Some n" "p = payload n"
    using assms(1) by (auto simp: node_data_def)
  then have u: "rb_update a f h = Some (h\<lparr>rb_store := (rb_store h)(a \<mapsto> f n)\<rparr>)"
    using assms(2) by (simp add: rb_update_Some)
  show ?thesis
    using that [OF u same_links_update [OF u assms(3)]] n assms(4) by (simp add: node_data_def)
qed

lemma payload_update [simp]:
  "payload (set_slot_event sl e n) = set_slot_event sl e (payload n)"
  "payload (n\<lparr>pollfd_idx := i\<rparr>) = (payload n)\<lparr>pollfd_idx := i\<rparr>"
  by (cases sl; simp add: payload_def)+

lemma node_upd:
  "get_evt_data (n\<lparr>pollfd_idx := i\<rparr>) = get_evt_data n" "armed (n\<lparr>pollfd_idx := i\<rparr>) = armed n"
  "node_ok (n\<lparr>pollfd_idx := i\<rparr>) = node_ok n" "node_mask (n\<lparr>pollfd_idx := i\<rparr>) = node_mask n"
proof -
  have "slot_event (n\<lparr>pollfd_idx := i\<rparr>) sl = slot_event n sl" for sl
    by (cases sl) auto
  then show g: "get_evt_data (n\<lparr>pollfd_idx := i\<rparr>) = get_evt_data n"
    by (simp add: get_evt_data_def get_evt_slot_def fun_eq_iff cong: option.case_cong)
  show a: "armed (n\<lparr>pollfd_idx := i\<rparr>) = armed n"
    by (simp add: armed_def g fun_eq_iff)
  show "node_ok (n\<lparr>pollfd_idx := i\<rparr>) = node_ok n" "node_mask (n\<lparr>pollfd_idx := i\<rparr>) = node_mask n"
    by (simp_all add: node_ok_def node_mask_def a)
qed

lemma filled_data:
  "get_evt_data ((set_slot_event sl e (payload n))\<lparr>pollfd_idx := i\<rparr>) = get_evt_data (set_slot_event sl e n)"
  "armed ((set_slot_event sl e (payload n))\<lparr>pollfd_idx := i\<rparr>) = armed (set_slot_event sl e n)"
  "node_ok ((set_slot_event sl e (payload n))\<lparr>pollfd_idx := i\<rparr>) = node_ok (set_slot_event sl e n)"
  "fd ((set_slot_event sl e (payload n))\<lparr>pollfd_idx := i\<rparr>) = fd (set_slot_event sl e n)"
  unfolding payload_update(1) [symmetric] node_upd by (simp_all add: fun_eq_iff del: payload_update)

lemma enqueue_fill_new:
  assumes n: "node_data (async_handlers w) a = Some p" "a \<noteq> NULL" and d: "deref (async_handlers w) place = Some a"
    and inv: "dynarr_inv D" and em: "dynarr_emplace_back b D = (Some q, pollfds w)"
    and e_def: "e = \<lparr>handler = hnd, status = st, ddl_heap_idx = -1\<rparr>"
  obtains h' d' where "enqueue_fill place True (a, sl) event hnd st w = Some (a, w\<lparr>async_handlers := h', pollfds := d'\<rparr>)"
    "same_links (async_handlers w) h'" "node_data h' a = Some ((set_slot_event sl e p)\<lparr>pollfd_idx := length (dynarr_list D)\<rparr>)"
    "\<And>b. b \<noteq> a \<Longrightarrow> node_data h' b = node_data (async_handlers w) b" "dynarr_inv d'"
    "dynarr_list d' = dynarr_list D @ [\<lparr>pfd_fd = ev_fd event, pfd_events = sched_mask (ev_wait_type event), pfd_revents = 0\<rparr>]"
proof -
  let ?h = "async_handlers w" and ?k = "length (dynarr_list D)"
  let ?x = "\<lparr>pfd_fd = ev_fd event, pfd_events = 0, pfd_revents = 0\<rparr>"
  let ?y = "?x\<lparr>pfd_events := 0 OR sched_mask (ev_wait_type event)\<rparr>"
  note em' = dynarr_emplace_back_ok [OF inv em]
  have idx: "size_dec (dynarr_size (pollfds w)) = ?k" "dynarr_back (pollfds w) = ?k"
    using em'(2) inv by (simp_all add: dynarr_size_def dynarr_back_def dynarr_at_def)
  obtain h1 where h1: "rb_update a (set_slot_event sl e) ?h = Some h1" "same_links ?h h1"
      "node_data h1 a = Some (set_slot_event sl e p)" "\<And>b. b \<noteq> a \<Longrightarrow> node_data h1 b = node_data ?h b"
    using rb_update_data [OF n, of "set_slot_event sl e"] by auto
  obtain h2 where h2: "rb_update a (\<lambda>n. n\<lparr>pollfd_idx := ?k\<rparr>) h1 = Some h2" "same_links h1 h2"
      "node_data h2 a = Some ((set_slot_event sl e p)\<lparr>pollfd_idx := ?k\<rparr>)" "\<And>b. b \<noteq> a \<Longrightarrow> node_data h2 b = node_data h1 b"
    using rb_update_data [OF h1(3) n(2), of "\<lambda>n. n\<lparr>pollfd_idx := ?k\<rparr>"] by auto
  obtain d1 where d1: "dynarr_set (pollfds w) ?k ?x = Some d1" "dynarr_inv d1" "dynarr_list d1 = dynarr_list D @ [?x]"
    using dynarr_emplace_set [OF inv em, of ?x] em'(1) by metis
  have g: "dynarr_get d1 ?k = Some ?x"
    using dynarr_get_list [OF d1(2), of ?k] d1(3) by (simp del: length_dynarr_list)
  obtain d2 where d2: "dynarr_set d1 ?k ?y = Some d2" "dynarr_inv d2" "dynarr_list d2 = (dynarr_list D @ [?x])[?k := ?y]"
    using dynarr_set_list [OF d1(2), of ?k ?y] d1(3) by (auto simp del: length_dynarr_list)
  have "deref h1 place = Some a"
    using deref_links [OF h1(2) d] .
  then have "enqueue_fill place True (a, sl) event hnd st w = Some (a, w\<lparr>async_handlers := h2, pollfds := d2\<rparr>)"
    using h1(1) h2(1) idx d1(1) g d2(1)
    by (simp add: enqueue_fill_def with_tree_def with_pollfds_def Let_def e_def)
  moreover have "same_links ?h h2"
    using h1(2) h2(2) by (rule same_links_trans)
  ultimately show ?thesis
    using that [where h' = h2 and d' = d2] h1(4) h2(3,4) d2(2,3) by simp
qed

text \<open>The allocation that becomes the node: the poll vector may grow first.\<close>

definition node_malloc :: "'x world_scheme \<Rightarrow> addr option" where
  "node_malloc w = mallocs w (if dynarr_full (pollfds w) then 1 else 0)"

text \<open>\<open>registered w w' m a n\<close>: only the tree, the poll vector and the allocator changed, and \<open>a\<close> now
  holds \<open>n\<close>.\<close>

definition registered :: "'x world_scheme \<Rightarrow> 'x world_scheme \<Rightarrow> (int \<rightharpoonup> addr) \<Rightarrow> addr \<Rightarrow> rb_node \<Rightarrow> bool" where
  "registered w w' m a n \<longleftrightarrow> (\<exists>ms d h. w' = w\<lparr>mallocs := ms, pollfds := d, async_handlers := h\<rparr>)
     \<and> node_data (async_handlers w') a = Some n
     \<and> (\<forall>b \<in> ran m. b \<noteq> a \<longrightarrow> node_data (async_handlers w') b = node_data (async_handlers w) b)"

lemma alloc_emplace:
  assumes "dynarr_inv d" and mem: "\<forall>i. mallocs w i \<noteq> None" and al: "alloc_if (dynarr_full d) w = (ok, w1)"
  obtains q d1 where "dynarr_emplace_back ok d = (Some q, d1)" "mallocs w1 0 = mallocs w (if dynarr_full d then 1 else 0)"
    "\<forall>i. mallocs w1 i \<noteq> None" "\<exists>ms. w1 = w\<lparr>mallocs := ms\<rparr>"
proof -
  have "ok"
    using alloc_if_ok [OF al] mem by simp
  then obtain q d1 where "dynarr_emplace_back ok d = (Some q, d1)"
    using dynarr_emplace_back_fail(1) [of ok d] by (metis option.exhaust prod.collapse)
  moreover have "mallocs w1 0 = mallocs w (if dynarr_full d then 1 else 0)" "\<forall>i. mallocs w1 i \<noteq> None"
    using al mem by (auto simp: alloc_if_def next_malloc_def split: if_splits)
  ultimately show ?thesis
    using that alloc_if_world [OF al] by blast
qed

lemma iosvc_enqueue_new:
  assumes inv: "svc_inv w m" and run: "svc_status w \<in> {READY, RUNNING}" and cb: "callback hnd \<noteq> NULL"
    and pr: "rb_probe (async_handlers w) Root_ref (ev_fd event) = Some (place, parent)"
    and new: "m (ev_fd event) = None" and nz: "\<not> zigzag_at (async_handlers w) place"
    and mem: "\<forall>i. mallocs w i \<noteq> None" and a: "node_malloc w = Some a" "a \<noteq> NULL" "aligned a" "a \<notin> ran m"
  obtains w' n where "iosvc_enqueue event hnd st w = Some (EIO_OK, Some a, w')" "svc_inv w' (m(ev_fd event \<mapsto> a))"
    "registered w w' m a n" "get_evt_data n (ev_wait_type event) = Some \<lparr>handler = hnd, status = st, ddl_heap_idx = -1\<rparr>"
    "{u. armed n u} = {ev_wait_type event}"
proof -
  let ?k = "ev_fd event" and ?t = "ev_wait_type event" and ?P = "pollfds w"
  let ?e = "\<lparr>handler = hnd, status = st, ddl_heap_idx = -1\<rparr>"
  have T: "tree_holds (async_handlers w) m" and pk: "poll_ok w m" and tm: "timers_ok w m"
    and P: "dynarr_inv ?P"
    using inv by (auto simp: svc_inv_def poll_ok_def Let_def)
  obtain ok w1 where al: "alloc_if (dynarr_full ?P) w = (ok, w1)" by fastforce
  obtain q d1 where em: "dynarr_emplace_back ok ?P = (Some q, d1)" "mallocs w1 0 = Some a" "\<forall>i. mallocs w1 i \<noteq> None"
      and w1: "\<exists>ms. w1 = w\<lparr>mallocs := ms\<rparr>"
    using alloc_emplace [OF P mem al] a(1) by (metis node_malloc_def)
  let ?w2 = "w1\<lparr>pollfds := d1\<rparr>"
  have h1: "async_handlers ?w2 = async_handlers w" "async_handlers w1 = async_handlers w" "pollfds w1 = ?P"
    using w1 by auto
  obtain sl n0 h' ms where rs: "reserve_evt_mem place parent Root_ref event ?w2 = Some (Some (a, sl), ?w2\<lparr>mallocs := ms, async_handlers := h'\<rparr>)"
      "tree_holds h' (m(?k \<mapsto> a))" "deref h' place = Some a" "node_data h' a = Some (payload n0)"
      "\<And>b. b \<noteq> a \<Longrightarrow> node_data h' b = node_data (async_handlers w) b"
      "\<And>e. callback (handler e) \<noteq> NULL \<Longrightarrow> armed_with (make_rbnode ?k) ?t e (set_slot_event sl e n0)"
      "links n0 = links (make_rbnode ?k)"
    by (rule reserve_new [of ?w2 m event place parent a]) (use T pr new em a nz in \<open>auto simp: h1\<close>)
  let ?w3 = "?w2\<lparr>mallocs := ms, async_handlers := h'\<rparr>"
  let ?n = "(set_slot_event sl ?e (payload n0))\<lparr>pollfd_idx := length (dynarr_list ?P)\<rparr>"
  have pre: "node_data (async_handlers ?w3) a = Some (payload n0)" "deref (async_handlers ?w3) place = Some a"
      "dynarr_emplace_back ok ?P = (Some q, pollfds ?w3)"
    using rs(3,4) em(1) by simp_all
  obtain h2 d2 where fl: "enqueue_fill place True (a, sl) event hnd st ?w3 = Some (a, ?w3\<lparr>async_handlers := h2, pollfds := d2\<rparr>)"
      "same_links (async_handlers ?w3) h2" "node_data h2 a = Some ?n"
      "\<And>b. b \<noteq> a \<Longrightarrow> node_data h2 b = node_data (async_handlers ?w3) b"
      "dynarr_inv d2" "dynarr_list d2 = dynarr_list ?P @ [\<lparr>pfd_fd = ?k, pfd_events = sched_mask ?t, pfd_revents = 0\<rparr>]"
    by (rule enqueue_fill_new [OF pre(1) a(2) pre(2) P pre(3) refl, where sl = sl and event = event and hnd = hnd and st = st])
      (rule that)
  let ?w' = "?w3\<lparr>async_handlers := h2, pollfds := d2\<rparr>"
  have arm: "armed_with (make_rbnode ?k) ?t ?e (set_slot_event sl ?e n0)"
    using rs(6) cb by simp
  have none: "\<not> armed (make_rbnode ?k) u" for u
    by (cases u) (simp_all add: armed_def make_rbnode_def event_armed_def get_evt_data_def get_evt_slot_def)
  let ?na = "set_slot_event sl ?e n0"
  have data: "get_evt_data ?n = get_evt_data ?na" "armed ?n = armed ?na" "node_ok ?n = node_ok ?na" "fd ?n = fd ?na"
    by (rule filled_data)+
  have one: "{u. armed ?na u} = {?t}"
    using armed_with_armed [OF arm] none cb by simp
  have w': "?w' = w\<lparr>mallocs := ms, pollfds := d2, async_handlers := h2\<rparr>"
    using w1 by auto
  have nd: "node_data (async_handlers ?w') b = node_data (async_handlers w) b" if "b \<in> ran m" for b
    using fl(4) [of b] rs(5) [of b] a(4) that by auto
  have n0: "node_ok ?na" "fd ?na = ?k" "get_evt_data ?na ?t = Some ?e"
    using arm rs(7) links_update(6) [of sl ?e n0] by (auto simp: armed_with_def links_def make_rbnode_def)
  have arm_n: "armed_with (make_rbnode ?k) ?t ?e ?n"
    using arm data by (simp add: armed_with_def)
  have mask: "node_mask ?n = sched_mask ?t"
    using one data(2) mask_of_insert [of "{}" ?t] by (simp add: node_mask_of mask_of_def)
  have "poll_ok ?w' (m(?k \<mapsto> a))"
  proof (rule poll_ok_append [OF pk tree_holds_finite [OF T] new nd])
    show "dynarr_inv (pollfds ?w')" "node_data (async_handlers ?w') a = Some ?n"
      using fl(3,5) by simp_all
    show "dynarr_list (pollfds ?w') = dynarr_list ?P @ [\<lparr>pfd_fd = ?k, pfd_events = sched_mask ?t, pfd_revents = 0\<rparr>]"
      using fl(6) by simp
    show "fd ?n = ?k" "node_ok ?n"
      unfolding data(3,4) by (rule n0(2), rule n0(1))
    show "pfd_events \<lparr>pfd_fd = ?k, pfd_events = sched_mask ?t, pfd_revents = 0\<rparr> = node_mask ?n"
      unfolding mask by simp
  qed simp_all
  moreover have "timers_ok ?w' (m(?k \<mapsto> a))"
  proof (rule timers_ok_arm [OF tm _ _ _ arm_n none])
    show "timed_events_heap ?w' = timed_events_heap w" using w' by simp
    show "ran (m(?k \<mapsto> a)) = insert a (ran m)" using new by simp
  qed (use nd a(4) none fl(3) in auto)
  moreover have "tree_holds h2 (m(?k \<mapsto> a))"
    using tree_holds_links [OF rs(2)] fl(2) by simp
  ultimately have "svc_inv ?w' (m(?k \<mapsto> a))"
    using inv w' by (simp add: svc_inv_def delay_ok_def)
  moreover have "registered w ?w' m a ?n"
    using w' nd fl(3) by (auto simp: registered_def)
  moreover have "iosvc_enqueue event hnd st w = Some (EIO_OK, Some a, ?w')"
    using run cb pr probe_new [OF T pr new] al em(1) rs(1) fl(1) h1
    by (auto simp: iosvc_enqueue_def enqueue_reserve_def Let_def)
  ultimately show ?thesis
    using that one n0(3) data(1,2) by metis
qed

end
