(* ===== verification/Dequeue_Props.thy ===== *)
theory Dequeue_Props
  imports Enqueue_Props
begin

text \<open>
  \<open>iosvc_dequeue\<close> takes exactly the requested event out of its node, the poll vector and the deadline
  heap, and keeps the service invariant.
\<close>

unbundle bit_operations_syntax

section \<open>Vacating the storage\<close>

definition disarmed :: "rb_node \<Rightarrow> io_wait_type \<Rightarrow> rb_node \<Rightarrow> bool" where
  "disarmed n t n' \<longleftrightarrow> node_ok n' \<and> \<not> armed n' t
     \<and> (\<forall>u. u \<noteq> t \<longrightarrow> (if armed n u then get_evt_data n' u = get_evt_data n u else \<not> armed n' u))"

lemma vacate_disarms:
  assumes "node_ok n" "get_evt_slot n t = Some sl" "slot_event n sl = Some d"
  shows "disarmed n t (vacate sl d n)"
  using assms unfolding disarmed_def all_wait
  by (cases t; cases "main_ev n"; cases sl; cases "aux_event n"; cases "ex_event n")
    (auto simp: vacate_def Let_def node_ok_def armed_def get_evt_data_def get_evt_slot_def event_armed_def split: if_splits)

lemma vacate_sel [simp]:
  "links (vacate sl d n) = links n" "pollfd_idx (vacate sl d n) = pollfd_idx n" "fd (vacate sl d n) = fd n"
  by (cases sl; simp add: vacate_def Let_def links_def)+

lemma payload_vacate: "payload (vacate sl d n) = vacate sl d (payload n)"
  by (cases sl) (simp_all add: vacate_def Let_def payload_def)

lemma disarmed_armed: "disarmed n t n' \<Longrightarrow> {u. armed n' u} = {u. armed n u} - {t}"
  unfolding disarmed_def armed_def by (auto split: if_splits)

lemma disarmed_mask: "disarmed n t n' \<Longrightarrow> node_mask n' = clear_events t (node_mask n)"
  by (simp add: node_mask_of disarmed_armed mask_of_remove)

section \<open>Nodes up to heap positions\<close>

lemma clear_ddl_handler: "clear_ddl d' = clear_ddl d \<Longrightarrow> handler d' = handler d \<and> status d' = status d"
  by (cases d; cases d') (auto simp: clear_ddl_def)

lemma erase_ddl_fields:
  assumes "erase_ddl n' = erase_ddl n"
  shows "main_ev n' = main_ev n" "fd n' = fd n" "pollfd_idx n' = pollfd_idx n" "links n' = links n"
    "get_evt_slot n' t = get_evt_slot n t" "map_option clear_ddl (slot_event n' sl) = map_option clear_ddl (slot_event n sl)"
proof -
  show 1: "main_ev n' = main_ev n" "fd n' = fd n" "pollfd_idx n' = pollfd_idx n" "links n' = links n"
    using assms by (cases n; cases n'; auto simp: erase_ddl_def links_def)+
  then show "get_evt_slot n' t = get_evt_slot n t"
    by (simp add: get_evt_slot_def)
  show "map_option clear_ddl (slot_event n' sl) = map_option clear_ddl (slot_event n sl)"
    using assms by (cases n; cases n'; cases sl) (auto simp: erase_ddl_def)
qed

lemma event_armed_clear: "map_option clear_ddl x = map_option clear_ddl y \<Longrightarrow> event_armed x = event_armed y"
  by (cases x; cases y) (auto simp: event_armed_def dest: clear_ddl_handler)

lemma get_evt_data_clear:
  assumes "erase_ddl n' = erase_ddl n"
  shows "map_option clear_ddl (get_evt_data n' t) = map_option clear_ddl (get_evt_data n t)"
  using erase_ddl_fields(5,6) [OF assms] by (cases "get_evt_slot n t") (auto simp: get_evt_data_def)

lemma erase_ddl_same:
  assumes "erase_ddl n' = erase_ddl n"
  shows "armed n' = armed n" "node_ok n' = node_ok n" "node_mask n' = node_mask n"
proof -
  show a: "armed n' = armed n"
    unfolding armed_def fun_eq_iff by (intro allI event_armed_clear get_evt_data_clear assms)
  have m: "clear_ddl (main_event n') = clear_ddl (main_event n)"
    using erase_ddl_fields(6) [OF assms, of Main_slot] by simp
  have x: "event_armed (aux_event n') = event_armed (aux_event n)"
    using erase_ddl_fields(6) [OF assms, of Aux_slot] by (intro event_armed_clear) simp
  show "node_ok n' = node_ok n"
    using erase_ddl_fields(1) [OF assms] clear_ddl_handler [OF m] x by (simp add: node_ok_def)
  show "node_mask n' = node_mask n"
    by (simp add: node_mask_def a)
qed

lemma erase_ddl_evt:
  assumes "erase_ddl n' = erase_ddl n" "get_evt_data n' t = Some d'"
  obtains d where "get_evt_data n t = Some d" "handler d' = handler d" "status d' = status d"
proof -
  obtain d where "get_evt_data n t = Some d" "clear_ddl d' = clear_ddl d"
    using get_evt_data_clear [OF assms(1), of t] assms(2) by (cases "get_evt_data n t") auto
  then show ?thesis
    using that clear_ddl_handler by blast
qed

lemma same_but_ddl_load:
  assumes "same_but_ddl h h'" "rb_store h p = Some n"
  obtains n' where "rb_store h' p = Some n'" "erase_ddl n' = erase_ddl n"
  using assms unfolding same_but_ddl_def by (metis map_option_eq_Some)

lemma erase_payload: "erase_ddl (payload n) = payload (erase_ddl n)"
  by (simp add: erase_ddl_def payload_def)

lemma same_but_ddl_data:
  assumes "same_but_ddl h h'" "node_data h p = Some n"
  obtains n' where "node_data h' p = Some n'" "erase_ddl n' = erase_ddl n"
proof -
  obtain k where k: "rb_store h p = Some k" "n = payload k"
    using assms(2) by (auto simp: node_data_def)
  obtain k' where "rb_store h' p = Some k'" "erase_ddl k' = erase_ddl k"
    using same_but_ddl_load [OF assms(1) k(1)] .
  then show ?thesis
    using that [of "payload k'"] k(2) by (simp add: node_data_def erase_payload)
qed

section \<open>The deadline of the event\<close>

text \<open>An event's recorded position is where the heap has its entry.\<close>

lemma recorded_position:
  assumes tm: "timers_ok w m" and a: "a \<in> ran m" "node_data (async_handlers w) a = Some n" "a \<noteq> NULL"
    and d: "get_evt_data n t = Some d" "callback (handler d) \<noteq> NULL"
  shows "if ddl_heap_idx d \<ge> 0
    then nat (ddl_heap_idx d) < length (events_list w) \<and> ent_key (events_list w ! nat (ddl_heap_idx d)) = (a, t)
    else (a, t) \<notin> ent_key ` set (events_list w)"
proof -
  have ok: "heap_idx_ok w"
    using tm by (simp add: timers_ok_def events_ok_def)
  have g: "get_ddl (async_handlers w) a t = Some (ddl_heap_idx d)"
    using a d by (simp add: get_ddl_data)
  show ?thesis
  proof (cases "(a, t) \<in> ent_key ` set (events_list w)")
    case True
    then obtain i where i: "i < length (events_list w)" "ent_key (events_list w ! i) = (a, t)"
      by (metis image_iff in_set_conv_nth)
    then have "ddl_heap_idx d = int i"
      using events_get [OF ok i(1)] g by (simp add: ent_key_def)
    then show ?thesis using i by simp
  next
    case False
    have "ddl_heap_idx d = -1 \<or> (a, t) \<in> ent_key ` set (events_list w)"
      using tm a d unfolding timers_ok_def by blast
    then show ?thesis using False by auto
  qed
qed

text \<open>\<open>untimed w a t now w1\<close>: the deadline of the event \<open>t\<close> of node \<open>a\<close>, if it has one, is gone and the time
  left has been reported.\<close>

definition untimed :: "'x world_scheme \<Rightarrow> addr \<Rightarrow> io_wait_type \<Rightarrow> int \<Rightarrow> 'x world_scheme \<Rightarrow> bool" where
  "untimed w a t now w1 \<longleftrightarrow> events_ok w1 \<and> same_but_ddl (async_handlers w) (async_handlers w1)
     \<and> set (events_list w1) = {e \<in> set (events_list w). ent_key e \<noteq> (a, t)}
     \<and> (\<forall>b u. (b, u) \<notin> ent_key ` set (events_list w) \<longrightarrow> get_ddl (async_handlers w1) b u = get_ddl (async_handlers w) b u)
     \<and> (\<forall>x \<in> set (events_list w). ent_key x = (a, t) \<longrightarrow> ints w1 (ah_remaining x) = time_left x now)
     \<and> (\<exists>d h i. w1 = w\<lparr>timed_events_heap := d, async_handlers := h, ints := i\<rparr>)"

lemma distinct_keys:
  assumes "heap_idx_ok w"
  shows "distinct (map ent_key (events_list w))"
  unfolding distinct_conv_nth using ent_key_neq [OF assms] by auto

lemma dequeue_timer:
  assumes tm: "timers_ok w m" and a: "a \<in> ran m" "node_data (async_handlers w) a = Some n" "a \<noteq> NULL"
    and d: "get_evt_data n t = Some d" "callback (handler d) \<noteq> NULL"
  obtains w1 where "(if ddl_heap_idx d \<ge> 0 then dequeue_deadline (ddl_heap_idx d) now w else Some w) = Some w1"
    "untimed w a t now w1"
proof (cases "ddl_heap_idx d \<ge> 0")
  case False
  then have "\<forall>x \<in> set (events_list w). ent_key x \<noteq> (a, t)"
    using recorded_position [OF tm a d] by (auto simp: image_iff)
  moreover have "\<exists>dd h i. w = w\<lparr>timed_events_heap := dd, async_handlers := h, ints := i\<rparr>"
    by (rule exI [of _ "timed_events_heap w"], rule exI [of _ "async_handlers w"], rule exI [of _ "ints w"]) simp
  ultimately have "untimed w a t now w"
    using tm unfolding untimed_def timers_ok_def by auto
  then show ?thesis
    using that False by simp
next
  case True
  define i where "i = nat (ddl_heap_idx d)"
  let ?L = "events_list w"
  have i: "i < length ?L" "ent_key (?L ! i) = (a, t)" "ddl_heap_idx d = int i"
    using recorded_position [OF tm a d] True by (simp_all add: i_def)
  have ok: "events_ok w" and idx: "heap_idx_ok w" and rem: "ah_remaining (?L ! i) \<noteq> NULL"
    using tm i(1) by (auto simp: timers_ok_def events_ok_def)
  obtain w1 where w1: "dequeue_deadline (int i) now w = Some w1" "dequeued w (?L ! i) now w1"
    using dequeue_deadline_exec [OF ok i(1) rem] .
  have ms: "mset ?L = add_mset (?L ! i) (mset (events_list w1))"
    using w1(2) by (simp add: dequeued_def)
  then have "mset (map ent_key ?L) = add_mset (a, t) (mset (map ent_key (events_list w1)))"
    using i(2) by simp
  then have fresh: "(a, t) \<notin> set (map ent_key (events_list w1))"
    using distinct_keys [OF idx] by (metis distinct.simps(2) mset.simps(2) mset_eq_imp_distinct_iff)
  have set: "set ?L = insert (?L ! i) (set (events_list w1))"
    using arg_cong [OF ms, of set_mset] by simp
  have "x = ?L ! i" if "x \<in> set ?L" "ent_key x = (a, t)" for x
    using that set fresh by (auto simp: image_iff)
  then have "untimed w a t now w1"
    using w1(2) set fresh i(2) unfolding untimed_def dequeued_def by (auto simp: image_iff)
  then show ?thesis
    using that w1(1) True i(3) by simp
qed

lemma armed_Some: "armed n t \<longleftrightarrow> (\<exists>d. get_evt_data n t = Some d \<and> callback (handler d) \<noteq> NULL)"
  by (auto simp: armed_def event_armed_def split: option.splits)

lemma timers_ok_disarm:
  assumes tm: "timers_ok w m" and un: "untimed w a t now w1" and ev: "timed_events_heap w' = timed_events_heap w1"
    and others: "\<And>b. b \<in> ran m \<Longrightarrow> b \<noteq> a \<Longrightarrow> node_data (async_handlers w') b = node_data (async_handlers w1) b"
    and na: "node_data (async_handlers w1) a = Some n1" "node_data (async_handlers w') a = Some n'" "disarmed n1 t n'"
    and dom: "\<And>b. b \<in> ran m \<Longrightarrow> b \<noteq> NULL \<and> node_data (async_handlers w) b \<noteq> None"
  shows "timers_ok w' m"
proof -
  let ?h = "async_handlers w" and ?h1 = "async_handlers w1" and ?h' = "async_handlers w'"
  have L: "events_list w' = events_list w1"
    using ev by (simp add: events_list_def)
  have set1: "set (events_list w1) = {e \<in> set (events_list w). ent_key e \<noteq> (a, t)}"
    using un by (simp add: untimed_def)
  have kept: "get_evt_data n' u = get_evt_data n1 u" if "armed n1 u" "u \<noteq> t" for u
    using na(3) that by (simp add: disarmed_def)
  have data: "\<exists>n k. node_data ?h b = Some n \<and> node_data ?h1 b = Some k \<and> erase_ddl k = erase_ddl n" if "b \<in> ran m" for b
    using dom [OF that] same_but_ddl_data [of ?h ?h1 b] un unfolding untimed_def by (metis option.exhaust)
  have same: "\<exists>n2. node_data ?h' b = Some n2 \<and> get_evt_data n2 u = get_evt_data k u"
    if "b \<in> ran m" "node_data ?h1 b = Some k" "armed k u" "(b, u) \<noteq> (a, t)" for b k u
    using that others na kept by (cases "b = a") auto
  have ent: "\<exists>k. node_data ?h1 (ah_io_op_data e) = Some k \<and> armed k (ah_event_type e)" "ah_io_op_data e \<in> ran m"
      "ah_remaining e \<noteq> NULL" if e: "e \<in> set (events_list w1)" for e
  proof -
    have e': "e \<in> set (events_list w)" using e set1 by simp
    then show b: "ah_io_op_data e \<in> ran m" "ah_remaining e \<noteq> NULL" using tm by (auto simp: timers_ok_def)
    obtain n k where nk: "node_data ?h (ah_io_op_data e) = Some n" "node_data ?h1 (ah_io_op_data e) = Some k" "erase_ddl k = erase_ddl n"
      using data [OF b(1)] by blast
    have "armed n (ah_event_type e)" using tm e' nk(1) by (auto simp: timers_ok_def)
    then show "\<exists>k. node_data ?h1 (ah_io_op_data e) = Some k \<and> armed k (ah_event_type e)"
      using nk(2) erase_ddl_same(1) [OF nk(3)] by simp
  qed
  have keep: "\<exists>k n2. node_data ?h1 (ah_io_op_data e) = Some k \<and> node_data ?h' (ah_io_op_data e) = Some n2
      \<and> armed k (ah_event_type e) \<and> get_evt_data n2 (ah_event_type e) = get_evt_data k (ah_event_type e)"
    if e: "e \<in> set (events_list w1)" for e
  proof -
    obtain k where k: "node_data ?h1 (ah_io_op_data e) = Some k" "armed k (ah_event_type e)"
      using ent(1) [OF e] by blast
    have "(ah_io_op_data e, ah_event_type e) \<noteq> (a, t)"
      using e set1 by (simp add: ent_key_def)
    then show ?thesis
      using same [OF ent(2) [OF e] k] k by blast
  qed
  have ok: "events_ok w'"
  proof (rule events_ok_cong [of w1])
    show "events_ok w1" using un by (simp add: untimed_def)
    show "get_ddl ?h' (ah_io_op_data e) (ah_event_type e) = get_ddl ?h1 (ah_io_op_data e) (ah_event_type e)"
      if "e \<in> set (events_list w1)" for e
      using keep [OF that] by (auto simp: get_ddl_data)
  qed (rule ev)
  have third: "ddl_heap_idx dd = -1 \<or> (b, u) \<in> ent_key ` set (events_list w1)"
    if b: "b \<in> ran m" "node_data ?h' b = Some n2" "get_evt_data n2 u = Some dd" "callback (handler dd) \<noteq> NULL" for b n2 u dd
  proof -
    obtain n k where nk: "node_data ?h b = Some n" "node_data ?h1 b = Some k" "erase_ddl k = erase_ddl n"
      using data [OF b(1)] by blast
    have arm2: "armed n2 u" using b(3,4) by (auto simp: armed_Some)
    then have bu: "(b, u) \<noteq> (a, t)" using b(2) na(2,3) by (auto simp: disarmed_def)
    have k: "armed k u" "get_evt_data k u = Some dd"
    proof -
      show "armed k u"
        using others [OF b(1)] b(2) nk(2) arm2 na bu by (cases "b = a") (auto simp: disarmed_def split: if_splits)
      then show "get_evt_data k u = Some dd" using same [OF b(1) nk(2) _ bu] b(2,3) by auto
    qed
    then have "armed n u" using erase_ddl_same(1) [OF nk(3)] by simp
    then obtain dw where dw: "get_evt_data n u = Some dw" "callback (handler dw) \<noteq> NULL" by (auto simp: armed_Some)
    show ?thesis
    proof (cases "(b, u) \<in> ent_key ` set (events_list w)")
      case True
      then show ?thesis using bu set1 by auto
    next
      case False
      then have "ddl_heap_idx dw = -1" using tm b(1) nk(1) dw unfolding timers_ok_def by blast
      moreover have "get_ddl ?h1 b u = get_ddl ?h b u" using un False by (simp add: untimed_def)
      ultimately show ?thesis using dom [OF b(1)] nk k dw by (simp add: get_ddl_data)
    qed
  qed
  show ?thesis
    unfolding timers_ok_def L
  proof (intro conjI ballI allI impI)
    show "armed n (ah_event_type e)" if "e \<in> set (events_list w1)" "node_data ?h' (ah_io_op_data e) = Some n" for e n
      using keep [OF that(1)] that(2) by (auto simp: armed_def)
  qed (use ok ent third in auto)
qed

section \<open>The poll vector\<close>

text \<open>The contents of a node as the poll vector sees it.\<close>

definition poll_view :: "rb_node \<Rightarrow> int \<times> bool \<times> nat \<times> pollmask" where
  "poll_view n = (fd n, node_ok n, pollfd_idx n, node_mask n)"

lemma poll_view_erase: "erase_ddl n' = erase_ddl n \<Longrightarrow> poll_view n' = poll_view n"
  unfolding poll_view_def using erase_ddl_fields(2,3) [of n' n] erase_ddl_same(2,3) [of n' n] by simp

lemma poll_okE:
  assumes "poll_ok w m" "m k = Some a"
  obtains n where "node_data (async_handlers w) a = Some n" "fd n = k" "node_ok n" "pollfd_idx n < length (dynarr_list (pollfds w))"
    "pfd_fd (dynarr_list (pollfds w) ! pollfd_idx n) = k" "pfd_events (dynarr_list (pollfds w) ! pollfd_idx n) = node_mask n"
proof -
  have "\<exists>n. node_data (async_handlers w) a = Some n \<and> fd n = k \<and> node_ok n \<and> pollfd_idx n < length (dynarr_list (pollfds w))
      \<and> pfd_fd (dynarr_list (pollfds w) ! pollfd_idx n) = k \<and> pfd_events (dynarr_list (pollfds w) ! pollfd_idx n) = node_mask n"
    using assms unfolding poll_ok_def Let_def by blast
  then show ?thesis using that by blast
qed

lemma poll_ok_change:
  assumes pk: "poll_ok w m" and k: "m k = Some a" "node_data (async_handlers w) a = Some n"
    and others: "\<And>b nb. b \<in> ran m \<Longrightarrow> b \<noteq> a \<Longrightarrow> node_data (async_handlers w) b = Some nb \<Longrightarrow>
      \<exists>nb'. node_data (async_handlers w') b = Some nb' \<and> poll_view nb' = poll_view nb"
    and a: "node_data (async_handlers w') a = Some n'" "fd n' = k" "pollfd_idx n' = pollfd_idx n" "node_ok n'"
    and P: "dynarr_inv (pollfds w')" "dynarr_list (pollfds w') = (dynarr_list (pollfds w))[pollfd_idx n := x]"
    and x: "pfd_fd x = k" "pfd_events x = node_mask n'"
  shows "poll_ok w' m"
proof -
  let ?P = "dynarr_list (pollfds w)"
  have n: "fd n = k" "pollfd_idx n < length ?P" "pfd_fd (?P ! pollfd_idx n) = k"
    using poll_okE [OF pk k(1)] k(2) by (metis option.inject)+
  have "\<exists>n. node_data (async_handlers w') b = Some n \<and> fd n = j \<and> node_ok n \<and> pollfd_idx n < length (?P[pollfd_idx n := x])
      \<and> pollfd_idx n < length ?P \<and> pfd_fd (dynarr_list (pollfds w') ! pollfd_idx n) = j
      \<and> pfd_events (dynarr_list (pollfds w') ! pollfd_idx n) = node_mask n" if j: "m j = Some b" for j b
  proof (cases "b = a")
    case True
    then have "j = k"
      using poll_okE [OF pk j] k(2) n(1) by (metis option.inject)
    then show ?thesis using a x P(2) n True by auto
  next
    case False
    obtain nb where nb: "node_data (async_handlers w) b = Some nb" "fd nb = j" "node_ok nb" "pollfd_idx nb < length ?P"
        "pfd_fd (?P ! pollfd_idx nb) = j" "pfd_events (?P ! pollfd_idx nb) = node_mask nb"
      using poll_okE [OF pk j] .
    obtain nb' where nb': "node_data (async_handlers w') b = Some nb'" "poll_view nb' = poll_view nb"
      using others [OF ranI [of m, OF j] False nb(1)] by blast
    have "j \<noteq> k" using False j k(1) by auto
    then have "pollfd_idx nb \<noteq> pollfd_idx n" using nb(5) n(3) by auto
    then show ?thesis
      using nb nb' P(2) by (intro exI [of _ nb']) (auto simp: poll_view_def)
  qed
  moreover have "length (dynarr_list (pollfds w')) = card (dom m)"
    using pk P(2) unfolding poll_ok_def Let_def by (metis length_list_update)
  ultimately show ?thesis
    using P(1,2) unfolding poll_ok_def Let_def by (metis length_list_update)
qed

lemma tree_holds_data:
  assumes "tree_holds h m" "b \<in> ran m"
  shows "b \<noteq> NULL \<and> node_data h b \<noteq> None"
proof -
  obtain k where k: "m k = Some b"
    using assms(2) by (auto simp: ran_def)
  obtain n where "rb_store h b = Some n" "b \<noteq> NULL"
    using tree_holds_load [OF assms(1) k] .
  then show ?thesis by (simp add: node_data_def)
qed

section \<open>Dequeueing\<close>

definition evt_of :: "rb_node \<Rightarrow> io_wait_type \<Rightarrow> event_data" where
  "evt_of n t = the (get_evt_data n t)"

lemma erase_evt_of:
  assumes "erase_ddl n' = erase_ddl n" "armed n u"
  shows "armed n' u" "handler (evt_of n' u) = handler (evt_of n u)" "status (evt_of n' u) = status (evt_of n u)"
proof -
  show "armed n' u" using assms(2) erase_ddl_same(1) [OF assms(1)] by simp
  then obtain d' where d': "get_evt_data n' u = Some d'" by (auto simp: armed_Some)
  obtain d where "get_evt_data n u = Some d" "handler d' = handler d" "status d' = status d"
    using erase_ddl_evt [OF assms(1) d'] .
  then show "handler (evt_of n' u) = handler (evt_of n u)" "status (evt_of n' u) = status (evt_of n u)"
    using d' by (simp_all add: evt_of_def)
qed

text \<open>Every pending event but \<open>t\<close> of node \<open>a\<close> is still pending, with its handler and status variable, no other
  event has become pending, and every node keeps its index.\<close>

definition same_event :: "rb_node \<Rightarrow> rb_node \<Rightarrow> io_wait_type \<Rightarrow> bool" where
  "same_event n n' u \<longleftrightarrow> armed n' u = armed n u
     \<and> (armed n u \<longrightarrow> handler (evt_of n' u) = handler (evt_of n u) \<and> status (evt_of n' u) = status (evt_of n u))"

lemma same_event_refl [simp]: "same_event n n u"
  by (simp add: same_event_def)

lemma same_event_trans: "same_event n n' u \<Longrightarrow> same_event n' n'' u \<Longrightarrow> same_event n n'' u"
  by (simp add: same_event_def)

lemma same_event_erase: "erase_ddl n' = erase_ddl n \<Longrightarrow> same_event n n' u"
  using erase_evt_of [of n' n u] erase_ddl_same(1) [of n' n] by (auto simp: same_event_def)

definition others_kept :: "rb_heap \<Rightarrow> rb_heap \<Rightarrow> addr \<Rightarrow> io_wait_type \<Rightarrow> bool" where
  "others_kept h h' a t \<longleftrightarrow> (\<forall>b n. node_data h b = Some n \<longrightarrow> (\<exists>n'. node_data h' b = Some n'
     \<and> pollfd_idx n' = pollfd_idx n \<and> (\<forall>u. (b, u) \<noteq> (a, t) \<longrightarrow> same_event n n' u)))"

lemma iosvc_dequeue_exec:
  assumes inv: "svc_inv w m" and k: "m k = Some a" and n: "node_data (async_handlers w) a = Some n" and t: "armed n t"
  obtains w' n' where "iosvc_dequeue a t now st w = Some (handler (evt_of n t), w')" "svc_inv w' m"
    "node_data (async_handlers w') a = Some n'" "{u. armed n' u} = {u. armed n u} - {t}"
    "set (events_list w') = {e \<in> set (events_list w). ent_key e \<noteq> (a, t)}"
    "errcs w' = (if status (evt_of n t) = NULL then errcs w else (errcs w)(status (evt_of n t) := st))"
    "\<forall>x \<in> set (events_list w). ent_key x = (a, t) \<longrightarrow> ints w' (ah_remaining x) = time_left x now"
    "\<exists>d h i p e. w' = w\<lparr>timed_events_heap := d, async_handlers := h, ints := i, errcs := e, pollfds := p\<rparr>"
    "same_links (async_handlers w) (async_handlers w')" "others_kept (async_handlers w) (async_handlers w') a t"
    "pollfd_idx n' = pollfd_idx n"
    "dynarr_list (pollfds w') = (dynarr_list (pollfds w))[pollfd_idx n := (dynarr_list (pollfds w) ! pollfd_idx n)\<lparr>pfd_events := node_mask n'\<rparr>]"
proof -
  let ?h = "async_handlers w" and ?P = "dynarr_list (pollfds w)"
  have T: "tree_holds ?h m" and pk: "poll_ok w m" and tm: "timers_ok w m" and P: "dynarr_inv (pollfds w)"
    using inv by (auto simp: svc_inv_def poll_ok_def Let_def)
  have ar: "a \<in> ran m" using k by (rule ranI)
  obtain r where r: "rb_store ?h a = Some r" "rb_load ?h a = Some r" "a \<noteq> NULL"
    using tree_holds_load [OF T k] .
  have nr: "n = payload r" using n r(1) by (simp add: node_data_def)
  obtain d where d: "get_evt_data n t = Some d" "callback (handler d) \<noteq> NULL"
    using t by (auto simp: armed_Some)
  obtain sl where sl: "get_evt_slot r t = Some sl" "slot_event r sl = Some d"
  proof -
    have "get_evt_data r t = Some d" using d(1) by (simp add: nr)
    then show ?thesis using that by (auto simp: get_evt_data_def bind_eq_Some)
  qed
  obtain w1 where w1: "(if ddl_heap_idx d \<ge> 0 then dequeue_deadline (ddl_heap_idx d) now w else Some w) = Some w1"
      "untimed w a t now w1"
    using dequeue_timer [OF tm ar n r(3) d] .
  have sb: "same_but_ddl ?h (async_handlers w1)" and w1w: "\<exists>d h i. w1 = w\<lparr>timed_events_heap := d, async_handlers := h, ints := i\<rparr>"
    using w1(2) by (auto simp: untimed_def)
  obtain r1 where r1: "rb_store (async_handlers w1) a = Some r1" "erase_ddl r1 = erase_ddl r"
    using same_but_ddl_load [OF sb r(1)] .
  obtain d1 where d1: "slot_event r1 sl = Some d1" "handler d1 = handler d" "status d1 = status d"
  proof -
    have "map_option clear_ddl (slot_event r1 sl) = Some (clear_ddl d)"
      using erase_ddl_fields(6) [OF r1(2), of sl] sl(2) by simp
    then obtain e where "slot_event r1 sl = Some e" "clear_ddl e = clear_ddl d"
      by (auto simp: map_option_eq_Some)
    then show ?thesis using that clear_ddl_handler by blast
  qed
  let ?n' = "vacate sl d1 (payload r1)"
  let ?h' = "(async_handlers w1)\<lparr>rb_store := (rb_store (async_handlers w1))(a \<mapsto> vacate sl d1 r1)\<rparr>"
  have dis: "disarmed (payload r1) t ?n'"
  proof -
    have "node_ok (payload r)"
      using poll_okE [OF pk k] n nr by (metis option.inject)
    then have "node_ok r1" "get_evt_slot r1 t = Some sl"
      using erase_ddl_same(2) [OF r1(2)] erase_ddl_fields(5) [OF r1(2)] sl(1) by simp_all
    from vacate_disarms [OF this d1(1)] show ?thesis
      by (simp add: disarmed_def flip: payload_vacate)
  qed
  have same: "armed (payload r1) = armed n" "node_mask (payload r1) = node_mask n" "fd r1 = fd n" "pollfd_idx r1 = pollfd_idx n"
    using erase_ddl_same [OF r1(2)] erase_ddl_fields(2,3) [OF r1(2)] by (simp_all add: nr)
  have nk: "fd n = k" "pollfd_idx n < length ?P" "pfd_fd (?P ! pollfd_idx n) = k" "pfd_events (?P ! pollfd_idx n) = node_mask n"
    using poll_okE [OF pk k] n by (metis option.inject)+
  let ?x = "(?P ! pollfd_idx n)\<lparr>pfd_events := clear_events t (node_mask n)\<rparr>"
  obtain p' where p': "dynarr_set (pollfds w) (pollfd_idx n) ?x = Some p'" "dynarr_inv p'" "dynarr_list p' = ?P[pollfd_idx n := ?x]"
    using dynarr_set_list [OF P nk(2)] by metis
  define w' where "w' = (put_status (status d1) st w1)\<lparr>async_handlers := ?h', pollfds := p'\<rparr>"
  have "rb_load (async_handlers w1) a = Some r1"
    using r1(1) r(3) by (simp add: rb_load_def)
  moreover have "dynarr_get (pollfds w) (pollfd_idx n) = Some (?P ! pollfd_idx n)"
    using dynarr_get_list [OF P nk(2)] .
  ultimately have run: "iosvc_dequeue a t now st w = Some (handler (evt_of n t), w')"
    using r(2) sl w1(1) d(1) d1(1) p'(1) nk(4) same(4) w1w r1(1) r(3)
    by (auto simp: iosvc_dequeue_def with_tree_def with_pollfds_def put_status_def rb_update_Some evt_of_def w'_def)
  have ah: "async_handlers w' = ?h'" "timed_events_heap w' = timed_events_heap w1" "pollfds w' = p'" "ints w' = ints w1"
    by (simp_all add: w'_def put_status_def)
  have nd: "node_data ?h' b = node_data (async_handlers w1) b" if "b \<noteq> a" for b
    using that by (simp add: node_data_def)
  have na: "node_data (async_handlers w1) a = Some (payload r1)" "node_data (async_handlers w') a = Some ?n'"
    using r1(1) by (simp_all add: node_data_def ah payload_vacate)
  have poll: "poll_ok w' m"
  proof (rule poll_ok_change [OF pk k n _ na(2), where x = ?x])
    show "\<exists>nb'. node_data (async_handlers w') b = Some nb' \<and> poll_view nb' = poll_view nb"
      if "b \<noteq> a" "node_data ?h b = Some nb" for b nb
      using same_but_ddl_data [OF sb that(2)] nd [OF that(1)] poll_view_erase by (metis ah(1))
    show "node_ok ?n'" using dis by (simp add: disarmed_def)
  qed (use p' nk same disarmed_mask [OF dis] in \<open>simp_all add: ah\<close>)
  have timers: "timers_ok w' m"
  proof (rule timers_ok_disarm [OF tm w1(2) ah(2) _ na dis])
    show "b \<noteq> NULL \<and> node_data ?h b \<noteq> None" if "b \<in> ran m" for b
      by (rule tree_holds_data [OF T that])
  qed (use nd ah(1) in simp)
  have sl': "same_links ?h (async_handlers w')"
  proof -
    have "same_links (async_handlers w1) ?h'"
      using r1(1) by (simp add: same_links_def)
    then show ?thesis
      using same_links_trans [OF same_but_ddl_links [OF sb]] by (simp add: ah(1))
  qed
  then have tree: "tree_holds ?h' m"
    using tree_holds_links [OF T] by (simp add: ah(1))
  have fr: "\<exists>d h i p e. w' = w\<lparr>timed_events_heap := d, async_handlers := h, ints := i, errcs := e, pollfds := p\<rparr>"
  proof -
    obtain dd hh ii where "w1 = w\<lparr>timed_events_heap := dd, async_handlers := hh, ints := ii\<rparr>"
      using w1w by blast
    then have "w' = w\<lparr>timed_events_heap := dd, async_handlers := ?h', ints := ii, errcs := errcs w', pollfds := p'\<rparr>"
      by (cases "status d1 = NULL") (simp_all add: w'_def put_status_def)
    then show ?thesis by blast
  qed
  have sv: "svc_inv w' m"
    using inv fr poll timers tree ah(1) by (auto simp: svc_inv_def delay_ok_def)
  have es: "set (events_list w') = {e \<in> set (events_list w). ent_key e \<noteq> (a, t)}"
    using w1(2) ah(2) by (simp add: untimed_def events_list_def)
  have er: "errcs w' = (if status (evt_of n t) = NULL then errcs w else (errcs w)(status (evt_of n t) := st))"
    using w1w d1(3) d(1) by (auto simp: w'_def put_status_def evt_of_def)
  have ar: "{u. armed ?n' u} = {u. armed n u} - {t}"
    using disarmed_armed [OF dis] same(1) by simp
  have re: "\<forall>x \<in> set (events_list w). ent_key x = (a, t) \<longrightarrow> ints w' (ah_remaining x) = time_left x now"
    using w1(2) ah(4) by (simp add: untimed_def)
  have px: "pollfd_idx ?n' = pollfd_idx n" using same(4) by simp
  have ok: "others_kept ?h (async_handlers w') a t"
    unfolding others_kept_def
  proof (intro allI impI)
    fix b x assume x: "node_data ?h b = Some x"
    obtain x1 where x1: "node_data (async_handlers w1) b = Some x1" "erase_ddl x1 = erase_ddl x"
      using same_but_ddl_data [OF sb x] .
    show "\<exists>x'. node_data (async_handlers w') b = Some x' \<and> pollfd_idx x' = pollfd_idx x
        \<and> (\<forall>u. (b, u) \<noteq> (a, t) \<longrightarrow> same_event x x' u)"
    proof (cases "b = a")
      case False
      then show ?thesis
        using x1(1) nd [OF False] same_event_erase [OF x1(2)] erase_ddl_fields(3) [OF x1(2)] by (auto simp: ah(1))
    next
      case True
      then have e: "x = n" "x1 = payload r1" using x n x1(1) na(1) by simp_all
      have "same_event (payload r1) ?n' u" if "u \<noteq> t" for u
        using dis that by (cases "armed (payload r1) u") (auto simp: disarmed_def same_event_def armed_def evt_of_def)
      then have "same_event n ?n' u" if "u \<noteq> t" for u
        using that same_event_trans [OF same_event_erase [OF x1(2)]] e by blast
      then show ?thesis using na(2) True e px by auto
    qed
  qed
  have pl: "dynarr_list (pollfds w') = ?P[pollfd_idx n := (?P ! pollfd_idx n)\<lparr>pfd_events := node_mask ?n'\<rparr>]"
    using p'(3) disarmed_mask [OF dis] same(2) by (simp add: ah(3))
  show ?thesis
    by (rule that [OF run sv na(2) ar es er re fr sl' ok px pl])
qed

end
