(* ===== verification/Enqueue_More.thy ===== *)
theory Enqueue_More
  imports Dequeue_Props
begin

text \<open>
  Registering an event on a descriptor that has a node already, and the error returns of
  registration.
\<close>

unbundle bit_operations_syntax

section \<open>A descriptor with a node\<close>

lemma probe_old:
  assumes "tree_holds h m" "rb_probe h Root_ref key = Some (place, parent)" "m key = Some a"
  shows "deref h place = Some a"
proof -
  obtain T where T: "rb_tree h T" "tree_map T = m"
    using assms(1) by (auto simp: tree_holds_def)
  obtain pl pa where "rb_probe h Root_ref key = Some (pl, pa)" "deref h pl = Some a"
    using probe_finds [OF T(1), of key] T(2) assms(3) by auto
  then show ?thesis
    using assms(2) by simp
qed

lemma assign_idem: "deref h place = Some a \<Longrightarrow> assign place a h = Some h"
  by (cases place) (auto simp: rb_update_def set_child_def child_def rb_load_def fun_upd_idem_iff split: if_splits)

lemma rb_update_same: "rb_load h a = Some n \<Longrightarrow> rb_update a (\<lambda>_. n) h = Some h"
  by (auto simp: rb_update_def rb_load_def fun_upd_idem_iff split: if_splits)

text \<open>The reservation in an existing node: it changes that node's storage at most.\<close>

lemma reserve_old:
  assumes d: "deref (async_handlers w) place = Some a" "a \<noteq> NULL" and r: "rb_store (async_handlers w) a = Some r"
    and ri: "reserved_in r (ev_wait_type event) (mallocs w 0 \<noteq> None) = (sl, r', used)"
  obtains h' ms where "reserve_evt_mem place parent Root_ref event w = Some (map_option (Pair a) sl, w\<lparr>mallocs := ms, async_handlers := h'\<rparr>)"
    "h' = (async_handlers w)\<lparr>rb_store := (rb_store (async_handlers w))(a \<mapsto> r')\<rparr>" "same_links (async_handlers w) h'" "deref h' place = Some a"
proof -
  let ?h = "async_handlers w"
  let ?h' = "?h\<lparr>rb_store := (rb_store ?h)(a \<mapsto> r')\<rparr>"
  have u: "rb_update a (\<lambda>_. r') ?h = Some ?h'"
    using d(2) r by (simp add: rb_update_Some)
  have sl: "same_links ?h ?h'"
    using reserved_in_links [OF ri] r by (simp add: same_links_def)
  have d': "deref ?h' place = Some a"
    by (rule deref_links [OF sl d(1)])
  obtain w1 where rs: "reserve_slot r (ev_wait_type event) w = (sl, r', w1)" "\<exists>ms. w1 = w\<lparr>mallocs := ms\<rparr>"
  proof
    show "reserve_slot r (ev_wait_type event) w = (sl, r', if used then w\<lparr>mallocs := \<lambda>i. mallocs w (Suc i)\<rparr> else w)"
      using reserve_slot_in [of r "ev_wait_type event" w] ri by simp
    have "w = w\<lparr>mallocs := mallocs w\<rparr>" by simp
    then show "\<exists>ms. (if used then w\<lparr>mallocs := \<lambda>i. mallocs w (Suc i)\<rparr> else w) = w\<lparr>mallocs := ms\<rparr>" by metis
  qed
  then obtain ms where ms: "w1 = w\<lparr>mallocs := ms\<rparr>" by blast
  have "reserve_evt_mem place parent Root_ref event w = Some (map_option (Pair a) sl, w\<lparr>mallocs := ms, async_handlers := ?h'\<rparr>)"
    using d r rs(1) ms u assign_idem [OF d'] by (simp add: reserve_evt_mem_def rb_load_def Let_def)
  then show ?thesis
    using that sl d' by blast
qed

lemma enqueue_fill_old:
  assumes d: "deref (async_handlers w) place = Some a" "a \<noteq> NULL" and r: "rb_store (async_handlers w) a = Some r"
    and P: "dynarr_inv (pollfds w)" "pollfd_idx r < length (dynarr_list (pollfds w))"
    and e_def: "e = \<lparr>handler = hnd, status = st, ddl_heap_idx = -1\<rparr>"
    and x_def: "x = (dynarr_list (pollfds w) ! pollfd_idx r)\<lparr>pfd_events :=
        pfd_events (dynarr_list (pollfds w) ! pollfd_idx r) OR sched_mask (ev_wait_type event)\<rparr>"
  obtains h' d' where "enqueue_fill place False (a, sl) event hnd st w = Some (a, w\<lparr>async_handlers := h', pollfds := d'\<rparr>)"
    "h' = (async_handlers w)\<lparr>rb_store := (rb_store (async_handlers w))(a \<mapsto> set_slot_event sl e r)\<rparr>"
    "same_links (async_handlers w) h'" "dynarr_inv d'" "dynarr_list d' = (dynarr_list (pollfds w))[pollfd_idx r := x]"
proof -
  let ?h = "async_handlers w"
  let ?h' = "?h\<lparr>rb_store := (rb_store ?h)(a \<mapsto> set_slot_event sl e r)\<rparr>"
  have u: "rb_update a (set_slot_event sl e) ?h = Some ?h'"
    using d(2) r by (simp add: rb_update_Some)
  have sl: "same_links ?h ?h'"
    using r by (simp add: same_links_def)
  have i: "pollfd_idx (set_slot_event sl e r) = pollfd_idx r"
    by (cases sl) simp_all
  obtain d' where d': "dynarr_set (pollfds w) (pollfd_idx r) x = Some d'" "dynarr_inv d'"
      "dynarr_list d' = (dynarr_list (pollfds w))[pollfd_idx r := x]"
    using dynarr_set_list [OF P] by metis
  have "enqueue_fill place False (a, sl) event hnd st w = Some (a, w\<lparr>async_handlers := ?h', pollfds := d'\<rparr>)"
    using u deref_links [OF sl d(1)] d(2) i d'(1) dynarr_get_list [OF P]
    by (simp add: enqueue_fill_def with_tree_def with_pollfds_def rb_load_def dynarr_at_def e_def [symmetric] x_def [symmetric])
  then show ?thesis
    using that sl d' by blast
qed

lemma probe_runs:
  assumes "tree_holds h m"
  obtains place parent where "rb_probe h Root_ref key = Some (place, parent)"
proof -
  obtain T where T: "rb_tree h T" "tree_map T = m"
    using assms by (auto simp: tree_holds_def)
  show ?thesis
    using probe_finds [OF T(1), of key] that by blast
qed

lemma armed_with_payload: "armed_with (payload n) t e n' = armed_with n t e n'" "armed_with n t e (payload n') = armed_with n t e n'"
  by (simp_all add: armed_with_def)

lemma armed_with_mask:
  assumes "armed_with n t e n'" "callback (handler e) \<noteq> NULL"
  shows "node_mask n' = node_mask n OR sched_mask t"
  using armed_with_armed [OF assms] by (simp add: node_mask_of mask_of_insert)

lemma armed_with_kept:
  assumes "armed_with n t e n'" "\<not> armed n t"
  shows "\<forall>u. armed n u \<longrightarrow> get_evt_data n' u = get_evt_data n u"
  using assms unfolding armed_with_def by metis

lemma iosvc_enqueue_old:
  assumes inv: "svc_inv w m" and run: "svc_status w \<in> {READY, RUNNING}" and cb: "callback hnd \<noteq> NULL"
    and k: "m (ev_fd event) = Some a" and n: "node_data (async_handlers w) a = Some n"
    and t: "\<not> armed n (ev_wait_type event)" and mem: "mallocs w 0 \<noteq> None"
  obtains w' n' where "iosvc_enqueue event hnd st w = Some (EIO_OK, Some a, w')" "svc_inv w' m" "registered w w' m a n'"
    "get_evt_data n' (ev_wait_type event) = Some \<lparr>handler = hnd, status = st, ddl_heap_idx = -1\<rparr>"
    "{u. armed n' u} = insert (ev_wait_type event) {u. armed n u}"
    "\<forall>u. armed n u \<longrightarrow> get_evt_data n' u = get_evt_data n u"
proof -
  let ?t = "ev_wait_type event" and ?h = "async_handlers w" and ?P = "dynarr_list (pollfds w)"
  let ?e = "\<lparr>handler = hnd, status = st, ddl_heap_idx = -1\<rparr>"
  have T: "tree_holds ?h m" and pk: "poll_ok w m" and tm: "timers_ok w m" and P: "dynarr_inv (pollfds w)"
    using inv by (auto simp: svc_inv_def poll_ok_def Let_def)
  obtain place parent where pr: "rb_probe ?h Root_ref (ev_fd event) = Some (place, parent)"
    using probe_runs [OF T] .
  have d: "deref ?h place = Some a"
    by (rule probe_old [OF T pr k])
  obtain r where r: "rb_store ?h a = Some r" "rb_load ?h a = Some r" "a \<noteq> NULL"
    using tree_holds_load [OF T k] .
  have nr: "n = payload r" using n r(1) by (simp add: node_data_def)
  have nk: "fd n = ev_fd event" "node_ok n" "pollfd_idx n < length ?P" "pfd_fd (?P ! pollfd_idx n) = ev_fd event"
      "pfd_events (?P ! pollfd_idx n) = node_mask n"
    using poll_okE [OF pk k] n by (metis option.inject)+
  obtain slo r' used where ri: "reserved_in r ?t (mallocs w 0 \<noteq> None) = (slo, r', used)"
    by (metis prod_cases3)
  then obtain sl where sl: "slo = Some sl"
    using reserved_in_None [of r ?t "mallocs w 0 \<noteq> None" r' used] mem by (cases slo) auto
  have arm: "armed_with r ?t ?e (set_slot_event sl ?e r')"
    using reserved_in_armed [of r ?t "mallocs w 0 \<noteq> None" sl r' used ?e] nk(2) t ri sl cb by (simp add: nr)
  obtain h1 ms where h1: "reserve_evt_mem place parent Root_ref event w = Some (map_option (Pair a) slo, w\<lparr>mallocs := ms, async_handlers := h1\<rparr>)"
      "h1 = ?h\<lparr>rb_store := (rb_store ?h)(a \<mapsto> r')\<rparr>" "same_links ?h h1" "deref h1 place = Some a"
    using reserve_old [OF d r(3,1) ri] .
  let ?w1 = "w\<lparr>mallocs := ms, async_handlers := h1\<rparr>"
  have idx: "pollfd_idx r' = pollfd_idx n" "links r' = links r"
    using reserved_in_links [OF ri] by (simp_all add: nr)
  define x where "x = (?P ! pollfd_idx n)\<lparr>pfd_events := pfd_events (?P ! pollfd_idx n) OR sched_mask ?t\<rparr>"
  have pre: "deref (async_handlers ?w1) place = Some a" "rb_store (async_handlers ?w1) a = Some r'"
      "dynarr_inv (pollfds ?w1)" "pollfd_idx r' < length (dynarr_list (pollfds ?w1))"
      "x = (dynarr_list (pollfds ?w1) ! pollfd_idx r')\<lparr>pfd_events :=
        pfd_events (dynarr_list (pollfds ?w1) ! pollfd_idx r') OR sched_mask ?t\<rparr>"
    using h1(2,4) P nk(3) idx(1) by (simp_all add: x_def)
  obtain h2 d2 where fl: "enqueue_fill place False (a, sl) event hnd st ?w1 = Some (a, ?w1\<lparr>async_handlers := h2, pollfds := d2\<rparr>)"
      "h2 = (async_handlers ?w1)\<lparr>rb_store := (rb_store (async_handlers ?w1))(a \<mapsto> set_slot_event sl ?e r')\<rparr>"
      "same_links (async_handlers ?w1) h2" "dynarr_inv d2" "dynarr_list d2 = (dynarr_list (pollfds ?w1))[pollfd_idx r' := x]"
    by (rule enqueue_fill_old [OF pre(1) r(3) pre(2-4) refl pre(5), where sl = sl and hnd = hnd and st = st]) (rule that)
  let ?w' = "?w1\<lparr>async_handlers := h2, pollfds := d2\<rparr>"
  let ?na = "payload (set_slot_event sl ?e r')"
  have w': "?w' = w\<lparr>mallocs := ms, pollfds := d2, async_handlers := h2\<rparr>" by simp
  have nd: "node_data (async_handlers ?w') b = node_data ?h b" if "b \<noteq> a" for b
    using that fl(2) h1(2) by (simp add: node_data_def)
  have na: "node_data (async_handlers ?w') a = Some ?na"
    using fl(2) by (simp add: node_data_def)
  have an: "armed_with n ?t ?e ?na"
    using arm by (simp add: nr armed_with_payload del: payload_update)
  have links: "fd ?na = ev_fd event" "pollfd_idx ?na = pollfd_idx n"
  proof -
    have "links (set_slot_event sl ?e r') = links r" using idx(2) by simp
    then show "fd ?na = ev_fd event" using nk(1) by (simp add: links_def nr del: payload_update)
    show "pollfd_idx ?na = pollfd_idx n" using idx(1) by (cases sl) simp_all
  qed
  have poll: "poll_ok ?w' m"
  proof (rule poll_ok_change [OF pk k n _ na links, where x = x])
    show "node_ok ?na" using an by (simp add: armed_with_def)
    show "pfd_events x = node_mask ?na"
      using armed_with_mask [OF an] cb nk(5) by (simp add: x_def)
    show "\<exists>nb'. node_data (async_handlers ?w') b = Some nb' \<and> poll_view nb' = poll_view nb"
      if "b \<noteq> a" "node_data ?h b = Some nb" for b nb
      using nd [OF that(1)] that(2) by simp
  qed (use fl(4,5) idx(1) nk(4) in \<open>simp_all add: x_def\<close>)
  have timers: "timers_ok ?w' m"
  proof (rule timers_ok_arm [OF tm _ _ na an t])
    show "ran m = insert a (ran m)" using ranI [of m, OF k] by auto
  qed (use nd n ranI [of m, OF k] in auto)
  have "same_links ?h h2"
    using same_links_trans [OF h1(3)] fl(3) by simp
  then have tree: "tree_holds h2 m"
    using tree_holds_links [OF T] by blast
  have sv: "svc_inv ?w' m"
    using inv poll timers tree by (simp add: svc_inv_def delay_ok_def)
  have reg: "registered w ?w' m a ?na"
    unfolding registered_def using na nd w' by blast
  have "\<not> is_scheduled r event"
    using t by (simp add: is_scheduled_armed nr)
  then have "iosvc_enqueue event hnd st w = Some (EIO_OK, Some a, ?w')"
    using run cb pr d r(2,3) h1(1) sl fl(1)
    by (auto simp: iosvc_enqueue_at enqueue_at_def enqueue_reserve_def alloc_if_def)
  then show ?thesis
    using that [OF _ sv reg _ _ armed_with_kept [OF an t]] an armed_with_armed [OF an] cb by (simp add: armed_with_def)
qed

text \<open>The events beside the new one, as the user sees them.\<close>

lemma kept_same_event:
  assumes "{u. armed n' u} = insert t {u. armed n u}" "\<forall>u. armed n u \<longrightarrow> get_evt_data n' u = get_evt_data n u" "u \<noteq> t"
  shows "same_event n n' u"
proof -
  have "armed n' u \<longleftrightarrow> armed n u"
    using assms(1,3) by auto
  then show ?thesis
    using assms(2) by (simp add: same_event_def evt_of_def)
qed

section \<open>Error returns\<close>

text \<open>\<open>unchanged w w'\<close>: nothing the service registers differs; the poll vector's block may have grown.\<close>

definition unchanged :: "'x world_scheme \<Rightarrow> 'x world_scheme \<Rightarrow> bool" where
  "unchanged w w' \<longleftrightarrow> (\<exists>ms d. w' = w\<lparr>mallocs := ms, pollfds := d\<rparr> \<and> (dynarr_inv (pollfds w) \<longrightarrow> dynarr_inv d)
     \<and> dynarr_list d = dynarr_list (pollfds w))"

lemma unchanged_mallocs [simp]: "unchanged w w" "unchanged w (w\<lparr>mallocs := ms\<rparr>)"
proof -
  have "w = w\<lparr>mallocs := mallocs w, pollfds := pollfds w\<rparr>" "w\<lparr>mallocs := ms\<rparr> = w\<lparr>mallocs := ms, pollfds := pollfds w\<rparr>"
    by simp_all
  then show "unchanged w w" "unchanged w (w\<lparr>mallocs := ms\<rparr>)"
    unfolding unchanged_def by blast+
qed

lemma unchanged_svc_inv:
  assumes "svc_inv w m" "unchanged w w'"
  shows "svc_inv w' m"
proof -
  obtain ms d where w': "w' = w\<lparr>mallocs := ms, pollfds := d\<rparr>" and d: "dynarr_inv (pollfds w) \<longrightarrow> dynarr_inv d"
      "dynarr_list d = dynarr_list (pollfds w)"
    using assms(2) by (auto simp: unchanged_def)
  have "poll_ok w' m"
  proof -
    have sel: "async_handlers w' = async_handlers w" "pollfds w' = d" by (simp_all add: w')
    have "poll_ok w m" using assms(1) by (simp add: svc_inv_def)
    then show ?thesis
      unfolding poll_ok_def Let_def sel d(2) using d(1) by blast
  qed
  moreover have "timers_ok w' m = timers_ok w m"
    by (simp add: timers_ok_def events_ok_def heap_idx_ok_def events_list_def w' del: length_dynarr_list)
  ultimately show ?thesis
    using assms(1) by (simp add: svc_inv_def delay_ok_def w')
qed

text \<open>A read or a write always finds room in a new node.\<close>

lemma reserve_fresh:
  "t \<noteq> WAIT_EXCEPTION \<Longrightarrow> reserve_slot (make_rbnode f) t w =
     (Some Main_slot, (make_rbnode f)\<lparr>main_ev := (if t = WAIT_READ then READ else WRITE)\<rparr>, w)"
  by (simp add: reserve_slot_def reserve_rd_wr_def make_rbnode_def)

text \<open>The allocations that registration asks for and does not get: the block into which the poll vector
  grows, the new node, or the block for an event of an existing node.\<close>

definition out_of_memory :: "'x world_scheme \<Rightarrow> (int \<rightharpoonup> addr) \<Rightarrow> io_event \<Rightarrow> bool" where
  "out_of_memory w m event \<longleftrightarrow> mallocs w 0 = None \<or> m (ev_fd event) = None \<and> node_malloc w = None"

text \<open>The event is waiting on the descriptor's node.\<close>

definition pending_on :: "'x world_scheme \<Rightarrow> (int \<rightharpoonup> addr) \<Rightarrow> io_event \<Rightarrow> bool" where
  "pending_on w m event \<longleftrightarrow> (\<exists>a n. m (ev_fd event) = Some a \<and> node_data (async_handlers w) a = Some n \<and> armed n (ev_wait_type event))"

text \<open>Why registration returns \<open>e\<close>; the tests are made in this order.\<close>

definition refused_for :: "io_errcode \<Rightarrow> 'x world_scheme \<Rightarrow> (int \<rightharpoonup> addr) \<Rightarrow> io_event \<Rightarrow> io_handler \<Rightarrow> bool" where
  "refused_for e w m event hnd \<longleftrightarrow>
     (if svc_status w \<in> {STOPPING, DONE} then e = EIO_STOPPED
      else if callback hnd = NULL then e = EIO_INVARG
      else if pending_on w m event then e = EIO_INPROGRESS
      else e = EIO_NOMEM \<and> out_of_memory w m event)"

lemma enqueue_at_new_refused:
  assumes P: "dynarr_inv (pollfds w)" and d: "deref (async_handlers w) place = Some NULL"
    and t: "ev_wait_type event \<noteq> WAIT_EXCEPTION"
    and r: "enqueue_at place parent True event hnd st w = Some (e, n, w')" "e \<noteq> EIO_OK"
  shows "e = EIO_NOMEM \<and> unchanged w w' \<and> (mallocs w 0 = None \<or> node_malloc w = None)"
proof -
  obtain ok w1 where a: "alloc_if (dynarr_full (pollfds w)) w = (ok, w1)" by fastforce
  obtain ms where w1: "w1 = w\<lparr>mallocs := ms\<rparr>" using alloc_if_world [OF a] by blast
  obtain slot d1 where em: "dynarr_emplace_back ok (pollfds w) = (slot, d1)" by fastforce
  show ?thesis
  proof (cases slot)
    case None
    then have d1: "d1 = pollfds w" "\<not> ok" using dynarr_emplace_back_fail [of ok "pollfds w"] em by auto
    then have "mallocs w 0 = None" using a by (auto simp: alloc_if_def next_malloc_def split: if_splits)
    then show ?thesis using r a em w1 None d1(1) by (auto simp: enqueue_at_def)
  next
    case (Some p)
    let ?w2 = "w1\<lparr>pollfds := d1\<rparr>"
    have pop: "dynarr_inv (dynarr_pop_back d1)" "dynarr_list (dynarr_pop_back d1) = dynarr_list (pollfds w)"
      using dynarr_emplace_pop [OF P] em Some by auto
    show ?thesis
    proof (cases "mallocs w1 0")
      case None
      then have "reserve_evt_mem place parent Root_ref event ?w2 = Some (None, ?w2\<lparr>mallocs := \<lambda>n. mallocs w1 (Suc n)\<rparr>)"
        using d w1 by (simp add: reserve_evt_mem_def next_malloc_def)
      then have "e = EIO_NOMEM" "w' = w\<lparr>mallocs := \<lambda>n. mallocs w1 (Suc n), pollfds := dynarr_pop_back d1\<rparr>"
        using r a em Some w1 by (simp_all add: enqueue_at_def enqueue_reserve_def)
      moreover have "node_malloc w = None"
        using a None by (auto simp: node_malloc_def alloc_if_def next_malloc_def split: if_splits)
      ultimately show ?thesis using pop unfolding unchanged_def by blast
    next
      case (Some b)
      then have "data \<noteq> None" if "reserve_evt_mem place parent Root_ref event ?w2 = Some (data, w3)" for data w3
        using that d w1
        by (auto simp: reserve_fresh [OF t] reserve_evt_mem_def next_malloc_def rb_load_def bind_eq_Some Let_def split: if_splits)
      then have False
        using r a em \<open>slot = Some p\<close> w1 by (auto simp: enqueue_at_def enqueue_reserve_def bind_eq_Some split: option.splits)
      then show ?thesis ..
    qed
  qed
qed

lemma enqueue_at_old_refused:
  assumes d: "deref (async_handlers w) place = Some a" "a \<noteq> NULL" and n: "rb_store (async_handlers w) a = Some r"
    and r: "enqueue_at place parent False event hnd st w = Some (e, out, w')" "e \<noteq> EIO_OK"
  shows "e = EIO_NOMEM \<and> unchanged w w' \<and> mallocs w 0 = None"
proof -
  obtain sl r' used where ri: "reserved_in r (ev_wait_type event) (mallocs w 0 \<noteq> None) = (sl, r', used)"
    by (metis prod_cases3)
  obtain h' ms where h': "reserve_evt_mem place parent Root_ref event w = Some (map_option (Pair a) sl, w\<lparr>mallocs := ms, async_handlers := h'\<rparr>)"
      "h' = (async_handlers w)\<lparr>rb_store := (rb_store (async_handlers w))(a \<mapsto> r')\<rparr>"
    using reserve_old [OF d n ri] by metis
  have sl: "sl = None"
  proof (rule ccontr)
    assume "sl \<noteq> None"
    then have "e = EIO_OK"
      using r(1) h'(1) by (auto simp: enqueue_at_def enqueue_reserve_def alloc_if_def bind_eq_Some)
    then show False using r(2) by simp
  qed
  then have "mallocs w 0 = None" "h' = async_handlers w"
    using reserved_in_None [OF ri [unfolded sl]] n h'(2) by (simp_all add: fun_upd_idem_iff)
  moreover from this(2) have "e = EIO_NOMEM" "w' = w\<lparr>mallocs := ms\<rparr>"
    using r(1) h'(1) sl by (simp_all add: enqueue_at_def enqueue_reserve_def alloc_if_def)
  ultimately show ?thesis by simp
qed

lemma iosvc_enqueue_refused:
  assumes inv: "svc_inv w m" and t: "m (ev_fd event) = None \<longrightarrow> ev_wait_type event \<noteq> WAIT_EXCEPTION"
    and r: "iosvc_enqueue event hnd st w = Some (e, out, w')" "e \<noteq> EIO_OK"
  shows "unchanged w w' \<and> refused_for e w m event hnd"
proof -
  have T: "tree_holds (async_handlers w) m" and P: "dynarr_inv (pollfds w)"
    using inv by (auto simp: svc_inv_def poll_ok_def Let_def)
  obtain place parent where pr: "rb_probe (async_handlers w) Root_ref (ev_fd event) = Some (place, parent)"
    using probe_runs [OF T] .
  consider "svc_status w \<in> {STOPPING, DONE}" | "svc_status w \<in> {READY, RUNNING}" "callback hnd = NULL"
    | "svc_status w \<in> {READY, RUNNING}" "callback hnd \<noteq> NULL"
    by (cases "svc_status w") auto
  then show ?thesis
  proof cases
    case 3
    then have rf: "refused_for e w m event hnd \<longleftrightarrow>
        (if pending_on w m event then e = EIO_INPROGRESS else e = EIO_NOMEM \<and> out_of_memory w m event)"
      by (auto simp: refused_for_def)
    show ?thesis
    proof (cases "m (ev_fd event)")
      case None
      then have d: "deref (async_handlers w) place = Some NULL"
        by (rule probe_new [OF T pr])
      then have q: "enqueue_at place parent True event hnd st w = Some (e, out, w')"
        using r(1) 3 pr by (auto simp: iosvc_enqueue_at)
      have "e = EIO_NOMEM \<and> unchanged w w' \<and> (mallocs w 0 = None \<or> node_malloc w = None)"
        using enqueue_at_new_refused [OF P d _ q r(2)] t None by simp
      then show ?thesis
        using None unfolding rf by (simp add: pending_on_def out_of_memory_def)
    next
      case (Some a)
      have d: "deref (async_handlers w) place = Some a"
        by (rule probe_old [OF T pr Some])
      obtain n where n: "rb_store (async_handlers w) a = Some n" "rb_load (async_handlers w) a = Some n" "a \<noteq> NULL"
        using tree_holds_load [OF T Some] .
      have p: "pending_on w m event \<longleftrightarrow> is_scheduled n event"
        using Some n(1) by (simp add: pending_on_def node_data_def is_scheduled_armed)
      show ?thesis
      proof (cases "is_scheduled n event")
        case True
        then have "e = EIO_INPROGRESS" "w' = w"
          using r(1) 3 pr d n by (auto simp: iosvc_enqueue_at)
        then show ?thesis
          using True unfolding rf by (simp add: p)
      next
        case False
        then have "enqueue_at place parent False event hnd st w = Some (e, out, w')"
          using r(1) 3 pr d n by (auto simp: iosvc_enqueue_at)
        then show ?thesis
          using enqueue_at_old_refused [OF d n(3,1) _ r(2)] False unfolding rf by (simp add: p out_of_memory_def)
      qed
    qed
  qed (use r in \<open>auto simp: iosvc_enqueue_at refused_for_def\<close>)
qed

end
