(* ===== verification/Io_Service.thy ===== *)
theory Io_Service
  imports Iosvc_Dequeue
begin

text \<open>
  The event loop, \<open>src/io_service.c\<close>. \<open>call\<close> is the code behind the handlers' function pointers.
  The loops that depend on what handlers and \<open>poll\<close> do may run for ever: they are partial
  functions, \<open>None\<close> when they do not return.
\<close>

unbundle bit_operations_syntax

type_synonym 'x call = "io_handler \<Rightarrow> 'x world_scheme \<Rightarrow> 'x world_scheme option"

section \<open>Synchronous handlers\<close>

partial_function (option) run_sync_handlers :: "'x call \<Rightarrow> 'x world_scheme \<Rightarrow> 'x world_scheme option" where
  "run_sync_handlers call w =
     (if cbuf_empty (sync_handlers w) then Some w
      else do { curr_hnd \<leftarrow> cbuf_load (sync_handlers w) (cbuf_front (sync_handlers w));
                w \<leftarrow> invoke call curr_hnd w;
                run_sync_handlers call (w\<lparr>sync_handlers := cbuf_pop (sync_handlers w)\<rparr>) })"

declare run_sync_handlers.simps [code]

section \<open>Stopping\<close>

text \<open>\<open>hp\<close> is the pointer to the deadline heap's block, taken when it had \<open>hp\<close> slots.\<close>

definition stop_handler ::
  "'x call \<Rightarrow> event_data \<Rightarrow> int \<Rightarrow> nat \<Rightarrow> 'x world_scheme \<Rightarrow> 'x world_scheme option"
where
  "stop_handler call evt now hp w =
     do { let w = put_status (status evt) EIO_STOPPED w;
          w \<leftarrow> (if ddl_heap_idx evt \<ge> 0
               then do { heap_ent \<leftarrow> dynarr_deref hp (timed_events_heap w) (nat (ddl_heap_idx evt));
                         let remaining = ah_deadline heap_ent - now;
                         put_int (ah_remaining heap_ent) (if remaining > 0 then to_int remaining else 0) w }
               else Some w);
          invoke call (handler evt) w }"

text \<open>One of a node's three events: it is stopped if it is there and has a callback.\<close>

definition stop_slot ::
  "'x call \<Rightarrow> evt_slot \<Rightarrow> addr \<Rightarrow> int \<Rightarrow> nat \<Rightarrow> 'x world_scheme \<Rightarrow> 'x world_scheme option"
where
  "stop_slot call sl node now hp w =
     do { n \<leftarrow> rb_load (async_handlers w) node;
          (case slot_event n sl of
             None \<Rightarrow> Some w
           | Some evt \<Rightarrow> if callback (handler evt) \<noteq> NULL then stop_handler call evt now hp w else Some w) }"

partial_function (option) stop_async_ops ::
  "'x call \<Rightarrow> addr \<Rightarrow> int \<Rightarrow> nat \<Rightarrow> 'x world_scheme \<Rightarrow> 'x world_scheme option"
where
  "stop_async_ops call node now hp w =
     (if node = NULL then Some w
      else do { w \<leftarrow> stop_slot call Main_slot node now hp w;
                w \<leftarrow> stop_slot call Aux_slot node now hp w;
                w \<leftarrow> stop_slot call Ex_slot node now hp w;
                w \<leftarrow> with_tree (rb_update node (\<lambda>n. n\<lparr>aux_event := None, ex_event := None\<rparr>)) w;
                n \<leftarrow> rb_load (async_handlers w) node;
                w \<leftarrow> stop_async_ops call (left n) now hp w;
                n \<leftarrow> rb_load (async_handlers w) node;
                w \<leftarrow> stop_async_ops call (right n) now hp w;
                _ \<leftarrow> rb_load (async_handlers w) node;
                Some (w\<lparr>async_handlers := free_node node (async_handlers w)\<rparr>) })"

declare stop_async_ops.simps [code]

text \<open>The loop over the delayed handlers; \<open>hp\<close> is the block \<open>curr_ent\<close> points into.\<close>

partial_function (option) stop_delayed :: "'x call \<Rightarrow> nat \<Rightarrow> nat \<Rightarrow> 'x world_scheme \<Rightarrow> 'x world_scheme option" where
  "stop_delayed call hp i w =
     (if \<not> i < d_nelems (timed_handlers_heap w) then Some w
      else do { curr_ent \<leftarrow> dynarr_deref hp (timed_handlers_heap w) i;
                let w = put_status (dh_status curr_ent) EIO_STOPPED w;
                w \<leftarrow> invoke call (dh_handler curr_ent) w;
                stop_delayed call hp (Suc i) w })"

declare stop_delayed.simps [code]

definition iosvc_prep_stop :: "'x call \<Rightarrow> 'x world_scheme \<Rightarrow> 'x world_scheme option" where
  "iosvc_prep_stop call w =
     do { w \<leftarrow> stop_delayed call (d_capacity (timed_handlers_heap w)) 0 w;
          let w = w\<lparr>timed_handlers_heap := dynarr_clear (timed_handlers_heap w)\<rparr>;
          let (now, w) = current_time w;
          w \<leftarrow> stop_async_ops call (rb_root (async_handlers w)) now (d_capacity (timed_events_heap w)) w;
          Some (w\<lparr>timed_events_heap := dynarr_clear (timed_events_heap w),
                  pollfds := dynarr_clear (pollfds w),
                  async_handlers := (async_handlers w)\<lparr>rb_root := NULL\<rparr>\<rparr>) }"

section \<open>Deadlines\<close>

text \<open>The next deadline, \<open>-1\<close> for none; \<open>is_event\<close> stays uninitialised, \<open>None\<close>, if there is none.\<close>

definition next_deadline :: "'x world_scheme \<Rightarrow> (int \<times> bool option) option" where
  "next_deadline w =
     do { (deadline, is_event) \<leftarrow>
            (if \<not> dynarr_empty (timed_handlers_heap w)
             then do { top \<leftarrow> dynarr_get (timed_handlers_heap w) (dynarr_front (timed_handlers_heap w));
                       Some (dh_deadline top, Some False) }
             else Some (-1, None));
          if \<not> dynarr_empty (timed_events_heap w)
          then do { top \<leftarrow> dynarr_get (timed_events_heap w) (dynarr_front (timed_events_heap w));
                    Some (if deadline = -1 \<or> ah_deadline top < deadline
                          then (ah_deadline top, Some True) else (deadline, is_event)) }
          else Some (deadline, is_event) }"

fun ready_mask :: "io_wait_type \<Rightarrow> pollmask" where
  "ready_mask WAIT_READ = POLLIN OR POLLHUP OR POLLRDNORM OR POLLRDBAND OR POLLERR"
| "ready_mask WAIT_WRITE = POLLOUT OR POLLWRNORM OR POLLWRBAND OR POLLERR"
| "ready_mask WAIT_EXCEPTION = POLLPRI"

definition is_top_event_ready :: "'x world_scheme \<Rightarrow> bool option" where
  "is_top_event_ready w =
     (if dynarr_empty (timed_events_heap w) then Some False
      else do { top_event \<leftarrow> dynarr_get (timed_events_heap w) (dynarr_front (timed_events_heap w));
                n \<leftarrow> rb_load (async_handlers w) (ah_io_op_data top_event);
                pollent \<leftarrow> dynarr_get (pollfds w) (pollfd_idx n);
                Some (pfd_revents pollent AND ready_mask (ah_event_type top_event) \<noteq> 0) })"

text \<open>The two branches of \<open>timeout_first\<close>.\<close>

definition timeout_event :: "'x call \<Rightarrow> int \<Rightarrow> 'x world_scheme \<Rightarrow> 'x world_scheme option" where
  "timeout_event call now w =
     do { top_event \<leftarrow> dynarr_get (timed_events_heap w) (dynarr_front (timed_events_heap w));
          let node = ah_io_op_data top_event;
          (hnd, w) \<leftarrow> iosvc_dequeue node (ah_event_type top_event) now EIO_TIMEOUT w;
          w \<leftarrow> put_int (ah_remaining top_event) 0 w;
          w \<leftarrow> invoke call hnd w;
          (ref_to_this, parent) \<leftarrow> rb_ref_to_this (async_handlers w) node Root_ref;
          n \<leftarrow> rb_load (async_handlers w) node;
          pollent \<leftarrow> dynarr_get (pollfds w) (pollfd_idx n);
          if pfd_events pollent = 0 then ioevt_cleanup_evt ref_to_this parent w else Some w }"

definition timeout_delayed :: "'x call \<Rightarrow> 'x world_scheme \<Rightarrow> 'x world_scheme option" where
  "timeout_delayed call w =
     do { top_callback \<leftarrow> dynarr_get (timed_handlers_heap w) (dynarr_front (timed_handlers_heap w));
          let w = put_status (dh_status top_callback) EIO_OK w;
          w \<leftarrow> invoke call (dh_handler top_callback) w;
          let d = timed_handlers_heap w;
          last \<leftarrow> dynarr_get d (size_dec (d_nelems d));
          d \<leftarrow> dynarr_set d (dynarr_front d) last;
          let d = dynarr_pop_back d;
          d \<leftarrow> (if \<not> dynarr_empty d
               then heap_sift_down_idx dynarr_size delay_hp_ent_lt delay_hp_ent_swp 0 d else Some d);
          Some (w\<lparr>timed_handlers_heap := d\<rparr>) }"

definition timeout_first :: "'x call \<Rightarrow> bool \<Rightarrow> int \<Rightarrow> 'x world_scheme \<Rightarrow> 'x world_scheme option" where
  "timeout_first call is_event now w =
     (if is_event then timeout_event call now w else timeout_delayed call w)"

section \<open>Dispatching\<close>

text \<open>Dequeueing one event of the node at \<open>place\<close> and calling its handler.\<close>

definition dispatch_one ::
  "'x call \<Rightarrow> rb_place \<Rightarrow> io_wait_type \<Rightarrow> int \<Rightarrow> io_errcode \<Rightarrow> 'x world_scheme \<Rightarrow> 'x world_scheme option"
where
  "dispatch_one call place t now st w =
     do { p \<leftarrow> deref (async_handlers w) place;
          (hnd, w) \<leftarrow> iosvc_dequeue p t now st w;
          invoke call hnd w }"

definition cleanup_at :: "rb_place \<Rightarrow> addr \<Rightarrow> nat \<Rightarrow> 'x world_scheme \<Rightarrow> (bool \<times> 'x world_scheme) option" where
  "cleanup_at place parent i w =
     do { pollent \<leftarrow> dynarr_get (pollfds w) i;
          if pfd_events pollent = 0
          then do { w \<leftarrow> ioevt_cleanup_evt place parent w; Some (True, w) }
          else Some (False, w) }"

text \<open>The descriptor turned out to be invalid: every pending event is reported.\<close>

definition dispatch_flag ::
  "'x call \<Rightarrow> nat \<Rightarrow> rb_place \<Rightarrow> int \<Rightarrow> pollmask \<times> io_wait_type \<Rightarrow> 'x world_scheme \<Rightarrow> 'x world_scheme option"
where
  "dispatch_flag call i place now ft w =
     do { pollent \<leftarrow> dynarr_get (pollfds w) i;
          if pfd_events pollent AND fst ft \<noteq> 0
          then dispatch_one call place (snd ft) now EIO_INVARG w else Some w }"

definition dispatch_invalid ::
  "'x call \<Rightarrow> nat \<Rightarrow> rb_place \<Rightarrow> addr \<Rightarrow> int \<Rightarrow> 'x world_scheme \<Rightarrow> 'x world_scheme option"
where
  "dispatch_invalid call i place parent now w =
     do { w \<leftarrow> dispatch_flag call i place now (POLLIN, WAIT_READ) w;
          w \<leftarrow> dispatch_flag call i place now (POLLOUT, WAIT_WRITE) w;
          w \<leftarrow> dispatch_flag call i place now (POLLPRI, WAIT_EXCEPTION) w;
          pollent \<leftarrow> dynarr_get (pollfds w) i;
          w \<leftarrow> with_pollfds (\<lambda>d. dynarr_set d i (pollent\<lparr>pfd_revents := 0\<rparr>)) w;
          (_, w) \<leftarrow> cleanup_at place parent i w;
          Some w }"

text \<open>A valid descriptor: the exception, read and write handlers the returned events call for. The
  flag says whether the node was removed.\<close>

definition read_ready :: "pollmask \<Rightarrow> pollmask \<Rightarrow> bool" where
  "read_ready revents events \<longleftrightarrow>
     (let has_error = revents AND POLLERR \<noteq> 0;
          has_read = revents AND (POLLIN OR POLLHUP OR POLLRDBAND OR POLLRDNORM) \<noteq> 0;
          has_write = revents AND (POLLOUT OR POLLWRNORM OR POLLWRBAND) \<noteq> 0
      in (\<not> has_read \<and> \<not> has_write \<and> has_error \<and> events AND NOT POLLPRI = POLLERR) \<or> has_read)"

definition write_ready :: "pollmask \<Rightarrow> bool" where
  "write_ready revents \<longleftrightarrow> revents AND (POLLOUT OR POLLWRNORM OR POLLWRBAND) \<noteq> 0"

definition dispatch_valid ::
  "'x call \<Rightarrow> nat \<Rightarrow> rb_place \<Rightarrow> addr \<Rightarrow> int \<Rightarrow> 'x world_scheme \<Rightarrow> (bool \<times> 'x world_scheme) option"
where
  "dispatch_valid call i place parent now w =
     do { pollent \<leftarrow> dynarr_get (pollfds w) i;
          let revents = pfd_revents pollent;
          w \<leftarrow> (if revents AND POLLPRI \<noteq> 0 then dispatch_one call place WAIT_EXCEPTION now EIO_OK w else Some w);
          pollent \<leftarrow> dynarr_get (pollfds w) i;
          w \<leftarrow> (if read_ready revents (pfd_events pollent)
               then dispatch_one call place WAIT_READ now EIO_OK w else Some w);
          w \<leftarrow> (if write_ready revents then dispatch_one call place WAIT_WRITE now EIO_OK w else Some w);
          cleanup_at place parent i w }"

partial_function (option) dispatch_from :: "'x call \<Rightarrow> nat \<Rightarrow> int \<Rightarrow> 'x world_scheme \<Rightarrow> 'x world_scheme option" where
  "dispatch_from call i now w =
     (if \<not> i < dynarr_size (pollfds w) then Some w
      else do { pollent \<leftarrow> dynarr_get (pollfds w) i;
                (place, parent) \<leftarrow> rb_probe (async_handlers w) Root_ref (pfd_fd pollent);
                if pfd_revents pollent AND POLLNVAL \<noteq> 0
                then do { w \<leftarrow> dispatch_invalid call i place parent now w; dispatch_from call i now w }
                else do { (removed, w) \<leftarrow> dispatch_valid call i place parent now w;
                          dispatch_from call (if removed then i else Suc i) now w } })"

declare dispatch_from.simps [code]

definition dispatch_ready_events :: "'x call \<Rightarrow> int \<Rightarrow> 'x world_scheme \<Rightarrow> 'x world_scheme option" where
  "dispatch_ready_events call now w = dispatch_from call 0 now w"

section \<open>The loop\<close>

text \<open>The call of \<open>poll\<close>: the kernel writes the \<open>revents\<close> of every entry of the array.\<close>

fun set_revents :: "pollmask list \<Rightarrow> nat \<Rightarrow> pollfd dynarray \<Rightarrow> pollfd dynarray option" where
  "set_revents [] i d = Some d"
| "set_revents (r # rs) i d =
     do { p \<leftarrow> dynarr_get d i; d \<leftarrow> dynarr_set d i (p\<lparr>pfd_revents := r\<rparr>); set_revents rs (Suc i) d }"

definition svc_poll :: "int \<Rightarrow> 'x world_scheme \<Rightarrow> (int \<times> bool \<times> 'x world_scheme) option" where
  "svc_poll delay w =
     (let (ready_fds, eintr, revents) = polls w 0 (dynarr_list (pollfds w)) delay in
      do { w \<leftarrow> with_pollfds (set_revents (take (dynarr_size (pollfds w)) revents) 0) w;
           Some (ready_fds, eintr, w\<lparr>polls := \<lambda>n. polls w (Suc n)\<rparr>) })"

definition poll_delay :: "int \<Rightarrow> int \<Rightarrow> int" where
  "poll_delay deadline poll_time =
     (if deadline = -1 then -1 else if deadline > poll_time then to_int (deadline - poll_time) else 0)"

text \<open>One round of the loop after the synchronous handlers have run. Reading \<open>is_event\<close>
  uninitialised is a fault.\<close>

definition run_round :: "'x call \<Rightarrow> 'x world_scheme \<Rightarrow> 'x world_scheme option" where
  "run_round call w =
     do { (deadline, is_event) \<leftarrow> next_deadline w;
          let (poll_time, w) = current_time w;
          let delay = poll_delay deadline poll_time;
          (ready_fds, eintr, w) \<leftarrow> svc_poll delay w;
          let (completion_time, w) = current_time w;
          let elapsed = completion_time - poll_time;
          if ready_fds < 0 \<and> \<not> eintr then Some (w\<lparr>svc_status := STOPPING\<rparr>)
          else if ready_fds = 0
          then do { ev \<leftarrow> is_event; timeout_first call ev completion_time w }
          else do {
            w \<leftarrow> (if to_int elapsed \<ge> delay \<and> delay \<noteq> -1
                 then do { ev \<leftarrow> is_event;
                           ready \<leftarrow> (if ev then is_top_event_ready w else Some False);
                           if \<not> ev \<or> \<not> ready then timeout_first call ev completion_time w else Some w }
                 else Some w);
            dispatch_ready_events call completion_time w } }"

partial_function (option) run_loop :: "'x call \<Rightarrow> 'x world_scheme \<Rightarrow> 'x world_scheme option" where
  "run_loop call w =
     (if dynarr_empty (pollfds w) \<and> dynarr_empty (timed_handlers_heap w) \<and> cbuf_empty (sync_handlers w)
      then Some w
      else do { w \<leftarrow> run_sync_handlers call w;
                if svc_status w = STOPPING then iosvc_prep_stop call w
                else if dynarr_empty (pollfds w) \<and> dynarr_empty (timed_handlers_heap w) then run_loop call w
                else do { w \<leftarrow> run_round call w; run_loop call w } })"

declare run_loop.simps [code]

definition iosvc_run :: "'x call \<Rightarrow> 'x world_scheme \<Rightarrow> (io_errcode \<times> 'x world_scheme) option" where
  "iosvc_run call w =
     (if svc_status w \<noteq> READY
      then Some (if svc_status w = DONE then EIO_INVARG else EIO_INPROGRESS, w)
      else do { w \<leftarrow> run_loop call (w\<lparr>svc_status := RUNNING\<rparr>);
                let retval = (if svc_status w = RUNNING then EIO_OK else EIO_STOPPED);
                Some (retval, w\<lparr>svc_status := DONE\<rparr>) })"

end
