(* ===== verification/Io_Semaphore.thy ===== *)
theory Io_Semaphore
  imports Iosvc_Post
begin

text \<open>
  \<open>src/io_semaphore.c\<close>: a counting semaphore whose waiters are handlers, released by posting them
  to the service.

  The linked list of \<open>pending_handler_node\<close>s is the list of its handlers, head first; its nodes are
  reachable from the semaphore only. The locale \<open>poster\<close> states what the semaphore relies on of
  \<open>iosvc_post\<close>; \<open>svc_post\<close> interprets it. \<open>sem_run\<close> executes a sequence of calls.
\<close>

section \<open>The operations\<close>

record io_semaphore =
  handler_list :: "io_handler list"
  sem_val :: int

abbreviation INT_MAX :: int where
  "INT_MAX \<equiv> 2 ^ 31 - 1"

definition iosem_create :: "int \<Rightarrow> 'x world_scheme \<Rightarrow> io_semaphore option \<times> 'x world_scheme" where
  "iosem_create init_val w =
     (let (p, w) = next_malloc w in
      (if p = None then None else Some \<lparr>handler_list = [], sem_val = init_val\<rparr>, w))"

primrec post_waiters :: "io_handler list \<Rightarrow> 'x world_scheme \<Rightarrow> 'x world_scheme" where
  "post_waiters [] w = w"
| "post_waiters (hnd # next) w = post_waiters next (snd (iosvc_post hnd w))"

definition iosem_delete :: "io_semaphore \<Rightarrow> 'x world_scheme \<Rightarrow> 'x world_scheme" where
  "iosem_delete iosem w = post_waiters (handler_list iosem) w"

definition iosem_wait ::
  "io_handler \<Rightarrow> io_semaphore \<Rightarrow> 'x world_scheme \<Rightarrow> io_errcode \<times> io_semaphore \<times> 'x world_scheme"
where
  "iosem_wait hnd iosem w =
     (if sem_val iosem > 0
      then let iosem = iosem\<lparr>sem_val := sem_val iosem - 1\<rparr>; (errc, w) = iosvc_post hnd w
           in (errc, iosem, w)
      else let (curr_hnd, w) = next_malloc w in
           if curr_hnd = None then (EIO_NOMEM, iosem, w)
           else (EIO_OK, iosem\<lparr>handler_list := hnd # handler_list iosem\<rparr>, w))"

text \<open>Incrementing an \<open>int\<close> past its largest value is undefined.\<close>

definition iosem_signal ::
  "io_semaphore \<Rightarrow> 'x world_scheme \<Rightarrow> (io_errcode \<times> io_semaphore \<times> 'x world_scheme) option"
where
  "iosem_signal iosem w =
     (if sem_val iosem < 0 \<or> handler_list iosem = []
      then if sem_val iosem = INT_MAX then None
           else Some (EIO_OK, iosem\<lparr>sem_val := sem_val iosem + 1\<rparr>, w)
      else let to_sched = hd (handler_list iosem);
               iosem = iosem\<lparr>handler_list := tl (handler_list iosem)\<rparr>;
               (errc, w) = iosvc_post to_sched w
           in Some (errc, iosem, w))"

section \<open>What a poster promises\<close>

locale poster =
  fixes post :: "io_handler \<Rightarrow> 'w \<Rightarrow> io_errcode \<times> 'w"
    and queue :: "'w \<Rightarrow> io_handler list"
    and ready :: "io_handler \<Rightarrow> 'w \<Rightarrow> bool"
    and inv :: "'w \<Rightarrow> bool"
  assumes post_inv: "inv w \<Longrightarrow> post h w = (e, w') \<Longrightarrow> inv w'"
    and post_queue: "inv w \<Longrightarrow> post h w = (e, w') \<Longrightarrow>
      queue w' = (if e = EIO_OK then queue w @ [h] else queue w)"
    and post_ok: "inv w \<Longrightarrow> ready h w \<Longrightarrow> post h w = (e, w') \<Longrightarrow> e = EIO_OK"
    and ready_post: "inv w \<Longrightarrow> ready h w \<Longrightarrow> ready h' w \<Longrightarrow> post h w = (e, w') \<Longrightarrow> ready h' w'"
begin

primrec post_all :: "io_handler list \<Rightarrow> 'w \<Rightarrow> 'w" where
  "post_all [] w = w"
| "post_all (h # hs) w = post_all hs (snd (post h w))"

text \<open>Posting a list keeps the queue and adds a subsequence of it; all of it when the poster is ready.\<close>

lemma post_all_inv: "inv w \<Longrightarrow> inv (post_all hs w)"
  by (induction hs arbitrary: w) (use post_inv in \<open>auto simp: prod_eq_iff\<close>)

lemma post_all_queue:
  "inv w \<Longrightarrow> \<exists>ks. queue (post_all hs w) = queue w @ ks \<and> set ks \<subseteq> set hs \<and> length ks \<le> length hs"
proof (induction hs arbitrary: w)
  case (Cons h hs)
  obtain e w' where p: "post h w = (e, w')" by fastforce
  obtain ks where "queue (post_all hs w') = queue w' @ ks" "set ks \<subseteq> set hs" "length ks \<le> length hs"
    using Cons.IH [of w'] post_inv [OF Cons.prems p] by blast
  then show ?case
    using post_queue [OF Cons.prems p] p by (intro exI [of _ "(if e = EIO_OK then [h] else []) @ ks"]) auto
qed simp

lemma post_all_ready:
  "inv w \<Longrightarrow> \<forall>h \<in> set hs. ready h w \<Longrightarrow> queue (post_all hs w) = queue w @ hs"
proof (induction hs arbitrary: w)
  case (Cons h hs)
  obtain e w' where p: "post h w = (e, w')" by fastforce
  have "inv w'" "\<forall>h' \<in> set hs. ready h' w'" "queue w' = queue w @ [h]"
    using post_inv [OF Cons.prems(1) p] ready_post [OF Cons.prems(1) _ _ p] post_ok [OF Cons.prems(1) _ p]
      post_queue [OF Cons.prems(1) p] Cons.prems(2) by auto
  then show ?case
    using Cons.IH [of w'] p by simp
qed simp

end

text \<open>The service accepts handlers and has memory.\<close>

definition post_ready :: "'x world_scheme \<Rightarrow> bool" where
  "post_ready w \<longleftrightarrow> svc_status w \<in> {READY, RUNNING} \<and> (\<forall>n. mallocs w n \<noteq> None)"

lemma alloc_if_mallocs: "alloc_if b w = (ok, w') \<Longrightarrow> \<forall>n. mallocs w n \<noteq> None \<Longrightarrow> ok \<and> (\<forall>n. mallocs w' n \<noteq> None)"
  by (auto simp: alloc_if_def next_malloc_def split: if_splits)

lemma iosvc_post_ready:
  assumes "cbuf_inv (sync_handlers w)" "post_ready w" "callback h \<noteq> NULL" "iosvc_post h w = (e, w')"
  shows "e = EIO_OK" "post_ready w'"
proof -
  obtain ok w1 where a: "alloc_if (cbuf_must_grow (sync_handlers w)) w = (ok, w1)" by fastforce
  have w1: "ok" "\<forall>n. mallocs w1 n \<noteq> None" "svc_status w1 = svc_status w" "sync_handlers w1 = sync_handlers w"
    using alloc_if_mallocs [OF a] assms(2) alloc_if_world [OF a] by (auto simp: post_ready_def)
  then obtain p cb where "cbuf_push ok (sync_handlers w) = (Some p, cb)"
    using cbuf_push_None(1) [of ok "sync_handlers w"] by (metis not_None_eq prod.collapse)
  then show "e = EIO_OK" "post_ready w'"
    using assms(2-4) a w1 by (auto simp: iosvc_post_def post_ready_def)
qed

interpretation svc_post: poster iosvc_post "\<lambda>w. cbuf_list (sync_handlers w)"
  "\<lambda>h w. post_ready w \<and> callback h \<noteq> NULL" "\<lambda>w. cbuf_inv (sync_handlers w)"
proof unfold_locales
  fix w :: "'a world_scheme" and h e w'
  assume inv: "cbuf_inv (sync_handlers w)" and p: "iosvc_post h w = (e, w')"
  show "cbuf_inv (sync_handlers w')"
    by (rule iosvc_post_cases [OF inv p]) (use inv in auto)
  show "cbuf_list (sync_handlers w') = (if e = EIO_OK then cbuf_list (sync_handlers w) @ [h] else cbuf_list (sync_handlers w))"
    by (rule iosvc_post_cases [OF inv p]) auto
qed (use iosvc_post_ready in blast)+

lemma post_waiters_all: "post_waiters hs w = svc_post.post_all hs w"
  by (induction hs arbitrary: w) auto

section \<open>Sequences of calls\<close>

datatype sem_call = Wait io_handler | Signal

fun sem_step :: "sem_call \<Rightarrow> io_semaphore \<times> 'x world_scheme \<Rightarrow> (io_semaphore \<times> 'x world_scheme) option" where
  "sem_step (Wait h) (s, w) = Some (snd (iosem_wait h s w))"
| "sem_step Signal (s, w) = map_option snd (iosem_signal s w)"

primrec sem_run :: "sem_call list \<Rightarrow> io_semaphore \<times> 'x world_scheme \<Rightarrow> (io_semaphore \<times> 'x world_scheme) option" where
  "sem_run [] sw = Some sw"
| "sem_run (c # cs) sw = do { sw \<leftarrow> sem_step c sw; sem_run cs sw }"

fun waits :: "sem_call list \<Rightarrow> io_handler list" where
  "waits [] = []"
| "waits (Wait h # cs) = h # waits cs"
| "waits (Signal # cs) = waits cs"

fun signals :: "sem_call list \<Rightarrow> nat" where
  "signals [] = 0"
| "signals (Wait h # cs) = signals cs"
| "signals (Signal # cs) = Suc (signals cs)"

text \<open>No handler waits while a permit is free. The balance counts permits less waiters.\<close>

definition sem_inv :: "io_semaphore \<Rightarrow> bool" where
  "sem_inv s \<longleftrightarrow> (handler_list s \<noteq> [] \<longrightarrow> sem_val s \<le> 0) \<and> sem_val s \<le> INT_MAX
     \<and> (\<forall>h \<in> set (handler_list s). callback h \<noteq> NULL)"

definition sem_balance :: "io_semaphore \<Rightarrow> int" where
  "sem_balance s = sem_val s - int (length (handler_list s))"

text \<open>\<open>sem_moved s w hs n s' w'\<close>: \<open>hs\<close> came to wait and \<open>n\<close> signals were given; the handlers released
  went to the end of the service's queue, the others still wait.\<close>

definition sem_moved ::
  "io_semaphore \<Rightarrow> 'x world_scheme \<Rightarrow> io_handler list \<Rightarrow> nat \<Rightarrow> io_semaphore \<Rightarrow> 'x world_scheme \<Rightarrow> bool"
where
  "sem_moved s w hs n s' w' \<longleftrightarrow> sem_inv s' \<and> cbuf_inv (sync_handlers w') \<and> post_ready w'
     \<and> sem_balance s' = sem_balance s + int n - int (length hs)
     \<and> (0 \<le> sem_val s \<longrightarrow> 0 \<le> sem_val s')
     \<and> (\<exists>rel. cbuf_list (sync_handlers w') = cbuf_list (sync_handlers w) @ rel \<and> (rel = [] \<or> 0 \<le> sem_val s')
          \<and> mset rel + mset (handler_list s') = mset (handler_list s) + mset hs)"

lemma sem_moved_trans:
  assumes "sem_moved s w hs n s1 w1" and "sem_moved s1 w1 ks m s2 w2"
  shows "sem_moved s w (hs @ ks) (n + m) s2 w2"
proof -
  obtain r1 r2 where r: "cbuf_list (sync_handlers w1) = cbuf_list (sync_handlers w) @ r1"
      "r1 = [] \<or> 0 \<le> sem_val s1" "r2 = [] \<or> 0 \<le> sem_val s2"
      "mset r1 + mset (handler_list s1) = mset (handler_list s) + mset hs"
      "cbuf_list (sync_handlers w2) = cbuf_list (sync_handlers w1) @ r2"
      "mset r2 + mset (handler_list s2) = mset (handler_list s1) + mset ks"
    using assms by (auto simp: sem_moved_def)
  have "mset (r1 @ r2) + mset (handler_list s2) = mset (handler_list s) + mset (hs @ ks)"
    using r(4,6) by (metis add.assoc mset_append)
  moreover have "r1 @ r2 = [] \<or> 0 \<le> sem_val s2"
    using r(2,3) assms(2) by (auto simp: sem_moved_def)
  ultimately show ?thesis
    using assms r(1,5) by (auto simp: sem_moved_def intro!: exI [of _ "r1 @ r2"])
qed

lemma iosem_wait_moved:
  assumes inv: "sem_inv s" "cbuf_inv (sync_handlers w)" "post_ready w" and h: "callback h \<noteq> NULL"
  obtains s' w' where "iosem_wait h s w = (EIO_OK, s', w')" "sem_moved s w [h] 0 s' w'" "sem_val s' \<le> sem_val s"
proof (cases "sem_val s > 0")
  case True
  obtain e w' where p: "iosvc_post h w = (e, w')" by fastforce
  note post = svc_post.post_inv [OF inv(2) p] svc_post.post_queue [OF inv(2) p] iosvc_post_ready [OF inv(2,3) h p]
  have r: "iosem_wait h s w = (EIO_OK, s\<lparr>sem_val := sem_val s - 1\<rparr>, w')"
    using True p post by (simp add: iosem_wait_def)
  show ?thesis
    by (rule that [OF r]) (use post inv True in \<open>simp_all add: sem_moved_def sem_inv_def sem_balance_def\<close>)
next
  case False
  obtain a where "mallocs w 0 = Some a"
    using inv(3) by (auto simp: post_ready_def)
  then have r: "iosem_wait h s w = (EIO_OK, s\<lparr>handler_list := h # handler_list s\<rparr>, w\<lparr>mallocs := \<lambda>n. mallocs w (Suc n)\<rparr>)"
    using False by (simp add: iosem_wait_def next_malloc_def)
  show ?thesis
    by (rule that [OF r])
      (use inv False h in \<open>simp_all add: sem_moved_def sem_inv_def sem_balance_def post_ready_def\<close>)
qed

lemma iosem_signal_moved:
  assumes inv: "sem_inv s" "cbuf_inv (sync_handlers w)" "post_ready w" and v: "sem_val s < INT_MAX"
  obtains s' w' where "iosem_signal s w = Some (EIO_OK, s', w')" "sem_moved s w [] 1 s' w'" "sem_val s' \<le> sem_val s + 1"
proof (cases "sem_val s < 0 \<or> handler_list s = []")
  case True
  then have r: "iosem_signal s w = Some (EIO_OK, s\<lparr>sem_val := sem_val s + 1\<rparr>, w)"
    using v by (auto simp: iosem_signal_def)
  show ?thesis
    by (rule that [OF r]) (use inv True v in \<open>auto simp: sem_moved_def sem_inv_def sem_balance_def\<close>)
next
  case False
  then obtain h hs where hs: "handler_list s = h # hs"
    by (cases "handler_list s") auto
  obtain e w' where p: "iosvc_post h w = (e, w')" by fastforce
  have h: "callback h \<noteq> NULL" using inv(1) hs by (simp add: sem_inv_def)
  note post = svc_post.post_inv [OF inv(2) p] svc_post.post_queue [OF inv(2) p] iosvc_post_ready [OF inv(2,3) h p]
  have r: "iosem_signal s w = Some (EIO_OK, s\<lparr>handler_list := hs\<rparr>, w')"
    using False p post hs by (simp add: iosem_signal_def)
  show ?thesis
    by (rule that [OF r]) (use post inv hs False in \<open>simp_all add: sem_moved_def sem_inv_def sem_balance_def\<close>)
qed

lemma sem_run_moved:
  assumes "sem_inv s" "cbuf_inv (sync_handlers w)" "post_ready w"
    and "\<forall>h \<in> set (waits cs). callback h \<noteq> NULL" and "sem_val s + int (signals cs) \<le> INT_MAX"
  shows "\<exists>s' w'. sem_run cs (s, w) = Some (s', w') \<and> sem_moved s w (waits cs) (signals cs) s' w'"
  using assms
proof (induction cs arbitrary: s w)
  case Nil
  then show ?case by (simp add: sem_moved_def)
next
  case (Cons c cs)
  note pre = Cons.prems(1-3)
  have "\<exists>s1 w1. sem_step c (s, w) = Some (s1, w1) \<and> sem_moved s w (waits [c]) (signals [c]) s1 w1
      \<and> sem_val s1 \<le> sem_val s + int (signals [c])"
  proof (cases c)
    case (Wait h)
    then show ?thesis
      using iosem_wait_moved [OF pre, of h] Cons.prems(4) by fastforce
  next
    case Signal
    then have "sem_val s < INT_MAX"
      using Cons.prems(5) by simp
    then show ?thesis
      using iosem_signal_moved [OF pre] Signal by (metis One_nat_def of_nat_1 option.simps(9) sem_step.simps(2) signals.simps(1,3) snd_conv waits.simps(1,3))
  qed
  then obtain s1 w1 where s1: "sem_step c (s, w) = Some (s1, w1)" "sem_moved s w (waits [c]) (signals [c]) s1 w1"
      "sem_val s1 \<le> sem_val s + int (signals [c])" by blast
  have split: "waits (c # cs) = waits [c] @ waits cs" "signals (c # cs) = signals [c] + signals cs"
    by (cases c; simp)+
  then obtain s' w' where "sem_run cs (s1, w1) = Some (s', w')" "sem_moved s1 w1 (waits cs) (signals cs) s' w'"
    using Cons.IH [of s1 w1] s1(2,3) Cons.prems(4,5) by (auto simp: sem_moved_def)
  then show ?case
    using s1(1) sem_moved_trans [OF s1(2)] split by auto
qed

section \<open>Properties\<close>

definition demo_handler :: "nat \<Rightarrow> io_handler" where
  "demo_handler i = \<lparr>callback = 4096, ctx = of_nat i\<rparr>"

lemma fresh_post_ready: "cbuf_inv (sync_handlers fresh_world)" "post_ready fresh_world"
  by (simp_all add: fresh_world_def post_ready_def cbuf_inv_init)

text \<open>
  C23. Whatever sequence of waits and signals a new semaphore sees, on a service that accepts handlers
  and has memory, no waiting handler is lost or duplicated: the handlers released, in order at the
  end of the service's queue, and those still waiting are together the ones that waited. As many
  handlers are released as there are permits, the initial value and the signals, or as there are
  waits, whichever is less; in particular no handler waits while a permit is free.
\<close>

theorem semaphore_counts:
  assumes create: "iosem_create init w0 = (Some s, w)"
    and svc: "cbuf_inv (sync_handlers w)" "post_ready w"
    and hnds: "\<forall>h \<in> set (waits cs). callback h \<noteq> NULL" and val: "init + int (signals cs) \<le> INT_MAX"
  shows "\<exists>s' w' released. sem_run cs (s, w) = Some (s', w')
    \<and> cbuf_list (sync_handlers w') = cbuf_list (sync_handlers w) @ released
    \<and> mset released + mset (handler_list s') = mset (waits cs)
    \<and> length released = min (length (waits cs)) (nat (init + int (signals cs)))
    \<and> (handler_list s' = [] \<or> sem_val s' \<le> 0)"
proof -
  have s: "s = \<lparr>handler_list = [], sem_val = init\<rparr>"
    using create by (auto simp: iosem_create_def next_malloc_def split: if_splits)
  then have "sem_inv s"
    using val by (simp add: sem_inv_def)
  then obtain s' w' where r: "sem_run cs (s, w) = Some (s', w')" "sem_moved s w (waits cs) (signals cs) s' w'"
    using sem_run_moved [of s w cs] svc hnds val s by auto
  then obtain rel where rel: "cbuf_list (sync_handlers w') = cbuf_list (sync_handlers w) @ rel"
      "mset rel + mset (handler_list s') = mset (waits cs)" "rel = [] \<or> 0 \<le> sem_val s'"
    using s by (auto simp: sem_moved_def)
  have bal: "sem_val s' - int (length (handler_list s')) = init + int (signals cs) - int (length (waits cs))"
      and ws: "handler_list s' = [] \<or> sem_val s' \<le> 0"
    using r(2) s by (auto simp: sem_moved_def sem_balance_def sem_inv_def)
  have "length rel + length (handler_list s') = length (waits cs)"
    using rel(2) by (metis size_mset size_union)
  then have "length rel = min (length (waits cs)) (nat (init + int (signals cs)))"
    using bal ws rel(3) by (cases "rel = []"; cases "handler_list s' = []") auto
  then show ?thesis
    using r(1) rel ws by blast
qed

definition demo_calls :: "sem_call list" where
  "demo_calls = [Wait (demo_handler 1), Wait (demo_handler 2), Signal, Wait (demo_handler 3)]"

theorem semaphore_counts_witness:
  "\<exists>s' w' released. sem_run demo_calls (\<lparr>handler_list = [], sem_val = 1\<rparr>, snd (iosem_create 1 fresh_world)) = Some (s', w')
    \<and> cbuf_list (sync_handlers w') = released \<and> length released = 2
    \<and> mset released + mset (handler_list s') = {# demo_handler 1, demo_handler 2, demo_handler 3 #}"
proof -
  let ?w = "snd (iosem_create 1 fresh_world)"
  have c: "iosem_create 1 fresh_world = (Some \<lparr>handler_list = [], sem_val = 1\<rparr>, ?w)"
      "cbuf_inv (sync_handlers ?w)" "post_ready ?w" "cbuf_list (sync_handlers ?w) = []"
    by (simp_all add: iosem_create_def next_malloc_def fresh_world_def post_ready_def cbuf_inv_init)
  have d: "waits demo_calls = [demo_handler 1, demo_handler 2, demo_handler 3]" "signals demo_calls = 1"
    by (simp_all add: demo_calls_def)
  then have "\<forall>h \<in> set (waits demo_calls). callback h \<noteq> NULL" "1 + int (signals demo_calls) \<le> INT_MAX"
    by (simp_all add: demo_handler_def)
  from semaphore_counts [OF c(1-3) this] show ?thesis
    unfolding d c(4) by (auto simp: min_def)
qed

text \<open>Deleting a semaphore posts every handler that waits on it, in list order, when the service
  accepts handlers and has memory.
\<close>

lemma iosem_delete_posts:
  assumes "sem_inv s" "cbuf_inv (sync_handlers w)" "post_ready w"
  shows "cbuf_list (sync_handlers (iosem_delete s w)) = cbuf_list (sync_handlers w) @ handler_list s"
  using svc_post.post_all_ready [of w "handler_list s"] assms
  by (simp add: iosem_delete_def post_waiters_all sem_inv_def)

text \<open>Waiting handlers are released in the opposite order of their waits: two handlers that wait
  with no permit free are posted last first by the next two signals.
\<close>

lemma semaphore_lifo:
  assumes "sem_val s = 0" "sem_inv s" "cbuf_inv (sync_handlers w)" "post_ready w"
    and "callback a \<noteq> NULL" "callback b \<noteq> NULL"
  shows "\<exists>w'. sem_run [Wait a, Wait b, Signal, Signal] (s, w) = Some (s, w')
    \<and> cbuf_list (sync_handlers w') = cbuf_list (sync_handlers w) @ [b, a]"
proof -
  have "\<exists>x y. mallocs w 0 = Some x \<and> mallocs w 1 = Some y"
    using assms(4) by (auto simp: post_ready_def)
  then have q: "sem_run [Wait a, Wait b] (s, w) =
      Some (s\<lparr>handler_list := b # a # handler_list s\<rparr>, w\<lparr>mallocs := \<lambda>n. mallocs w (Suc (Suc n))\<rparr>)"
    using assms(1) by (auto simp: iosem_wait_def next_malloc_def)
  let ?w = "w\<lparr>mallocs := \<lambda>n. mallocs w (Suc (Suc n))\<rparr>"
  have rdy: "cbuf_inv (sync_handlers ?w)" "post_ready ?w"
    using assms(3,4) by (simp_all add: post_ready_def)
  obtain e1 w1 where p1: "iosvc_post b ?w = (e1, w1)" by fastforce
  obtain e2 w2 where p2: "iosvc_post a w1 = (e2, w2)" by fastforce
  note r1 = svc_post.post_inv [OF rdy(1) p1] iosvc_post_ready [OF rdy assms(6) p1] svc_post.post_queue [OF rdy(1) p1]
  note r2 = iosvc_post_ready [OF r1(1,3) assms(5) p2] svc_post.post_queue [OF r1(1) p2]
  have "sem_run [Wait a, Wait b, Signal, Signal] (s, w) = do { sw \<leftarrow> sem_run [Wait a, Wait b] (s, w); sem_run [Signal, Signal] sw }"
    by simp
  also have "\<dots> = Some (s, w2)"
    unfolding q using assms(1) p1 p2 r1(2) r2(1) by (simp add: iosem_signal_def)
  finally show ?thesis
    using r1 r2 by auto
qed

text \<open>A wait on a positive semaphore of a service that has stopped fails and still consumes the
  permit: the handler is not queued and the count is one less.
\<close>

lemma iosem_wait_permit_lost:
  assumes "sem_val s > 0" and "svc_status w \<in> {STOPPING, DONE}"
  shows "iosem_wait hnd s w = (EIO_STOPPED, s\<lparr>sem_val := sem_val s - 1\<rparr>, w)"
  using assms by (auto simp: iosem_wait_def iosvc_post_def)

end
