(* ===== verification/Loop_Sync.thy ===== *)
theory Loop_Sync
  imports Io_Service Deadline_Heap Io_Semaphore
begin

text \<open>
  The parts of the event loop that need no tree: the round of synchronous handlers, the choice of
  the next deadline and the expiry of a delayed handler.

  \<open>drains\<close> is the specification of a round: handlers run in queue order, and what a handler posts
  goes to the end of the queue. A derivation exists exactly when the handlers stop posting.
\<close>

section \<open>The synchronous round\<close>

inductive drains :: "(io_handler \<Rightarrow> io_handler list) \<Rightarrow> io_handler list \<Rightarrow> io_handler list \<Rightarrow> bool"
  for posts where
  drains_Nil: "drains posts [] []"
| drains_Cons: "callback h \<noteq> NULL \<Longrightarrow> drains posts (q @ posts h) tr \<Longrightarrow> drains posts (h # q) (h # tr)"

inductive_cases drains_ConsE: "drains posts (h # q) tr"

inductive_simps drains_Nil_iff [simp]: "drains posts [] tr"

text \<open>Whatever is posted meanwhile runs after the handlers that were queued before.\<close>

lemma drains_prefix: "drains posts q tr \<Longrightarrow> \<exists>rest. tr = q @ rest"
proof (induction rule: drains.induct)
  case (drains_Cons h q tr)
  then show ?case by auto
qed simp

lemma drains_quiet: "(\<And>h. h \<in> set q \<Longrightarrow> callback h \<noteq> NULL) \<Longrightarrow> drains (\<lambda>_. []) q q"
  by (induction q) (auto intro: drains.intros)

text \<open>The queue is well formed, the service runs and memory is available.\<close>

definition sync_ready :: "'x world_scheme \<Rightarrow> bool" where
  "sync_ready w \<longleftrightarrow> cbuf_inv (sync_handlers w) \<and> svc_status w = RUNNING \<and> (\<forall>n. mallocs w n \<noteq> None)"

text \<open>Callbacks that, in such a world, return, post the handlers \<open>posts h\<close> and register nothing else.\<close>

definition posting :: "'x call \<Rightarrow> (io_handler \<Rightarrow> io_handler list) \<Rightarrow> bool" where
  "posting call posts \<longleftrightarrow> (\<forall>h w. sync_ready w \<longrightarrow>
     (\<exists>w'. call h w = Some w' \<and> sync_ready w' \<and> calls w' = calls w
        \<and> pollfds w' = pollfds w \<and> timed_handlers_heap w' = timed_handlers_heap w
        \<and> cbuf_list (sync_handlers w') = cbuf_list (sync_handlers w) @ posts h))"

lemma run_sync_drains:
  assumes "posting call posts"
  shows "drains posts q tr \<Longrightarrow> sync_ready w \<Longrightarrow> cbuf_list (sync_handlers w) = q \<Longrightarrow>
    \<exists>w'. run_sync_handlers call w = Some w' \<and> sync_ready w' \<and> cbuf_list (sync_handlers w') = []
      \<and> calls w' = calls w @ tr \<and> pollfds w' = pollfds w \<and> timed_handlers_heap w' = timed_handlers_heap w"
proof (induction arbitrary: w rule: drains.induct)
  case drains_Nil
  then have "run_sync_handlers call w = Some w"
    by (subst run_sync_handlers.simps) (simp add: cbuf_empty_list)
  with drains_Nil show ?case by simp
next
  case (drains_Cons h q tr)
  let ?cb = "sync_handlers w"
  have inv: "cbuf_inv ?cb" and ne: "cbuf_list ?cb \<noteq> []" "\<not> cbuf_empty ?cb"
    using drains_Cons.prems by (auto simp: sync_ready_def cbuf_empty_list)
  have fr: "cbuf_load ?cb (cbuf_front ?cb) = Some h"
    using cbq.front_law [OF inv ne(1)] drains_Cons.prems by simp
  have "sync_ready (w\<lparr>calls := calls w @ [h]\<rparr>)"
    using drains_Cons.prems by (simp add: sync_ready_def)
  then obtain w1 where w1: "call h (w\<lparr>calls := calls w @ [h]\<rparr>) = Some w1" "sync_ready w1"
      "calls w1 = calls w @ [h]" "cbuf_list (sync_handlers w1) = (h # q) @ posts h"
      "pollfds w1 = pollfds w" "timed_handlers_heap w1 = timed_handlers_heap w"
    using assms drains_Cons.prems unfolding posting_def by fastforce
  let ?w2 = "w1\<lparr>sync_handlers := cbuf_pop (sync_handlers w1)\<rparr>"
  have "cbuf_inv (cbuf_pop (sync_handlers w1)) \<and> cbuf_list (cbuf_pop (sync_handlers w1)) = q @ posts h"
    using cbq.pop_law [of "sync_handlers w1"] w1(2,4) by (simp add: sync_ready_def)
  then have "sync_ready ?w2" "cbuf_list (sync_handlers ?w2) = q @ posts h"
    using w1(2) by (simp_all add: sync_ready_def)
  from drains_Cons.IH [OF this] obtain w' where "run_sync_handlers call ?w2 = Some w'" "sync_ready w'"
      "cbuf_list (sync_handlers w') = []" "calls w' = calls w1 @ tr" "pollfds w' = pollfds w1"
      "timed_handlers_heap w' = timed_handlers_heap w1" by auto
  moreover have "run_sync_handlers call w = run_sync_handlers call ?w2"
    using ne fr w1(1) drains_Cons.hyps(1) by (subst run_sync_handlers.simps) (simp add: invoke_def)
  ultimately show ?case
    using w1(3,5,6) by simp
qed

section \<open>The next deadline\<close>

lemma heap_front:
  assumes "is_heap (map key L)" and "L \<noteq> []"
  shows "key (L ! 0) = Min (key ` set L)"
proof (rule Min_eqI [symmetric])
  fix y assume "y \<in> key ` set L"
  then obtain i where "i < length L" "y = key (L ! i)"
    by (auto simp: in_set_conv_nth)
  then show "key (L ! 0) \<le> y"
    using is_heap_min [OF assms(1), of i] assms(2) by simp
qed (use assms(2) in auto)

definition deadlines :: "'x world_scheme \<Rightarrow> int set" where
  "deadlines w = dh_deadline ` set (dynarr_list (timed_handlers_heap w)) \<union> ah_deadline ` set (events_list w)"

lemma next_deadline_min:
  assumes d: "delay_ok w" and e: "events_ok w" and pos: "\<forall>x \<in> deadlines w. 0 \<le> x"
  shows "\<exists>is_event. next_deadline w = Some (if deadlines w = {} then -1 else Min (deadlines w), is_event)
    \<and> (is_event = None \<longleftrightarrow> deadlines w = {})
    \<and> (is_event = Some True \<longrightarrow> Min (deadlines w) \<in> ah_deadline ` set (events_list w))
    \<and> (is_event = Some False \<longrightarrow> Min (deadlines w) \<in> dh_deadline ` set (dynarr_list (timed_handlers_heap w)))"
proof -
  let ?D = "dynarr_list (timed_handlers_heap w)" and ?E = "events_list w"
  have inv: "dynarr_inv (timed_handlers_heap w)" "dynarr_inv (timed_events_heap w)"
    using d e by (auto simp: delay_ok_def events_ok_def heap_idx_ok_def)
  have emp: "dynarr_empty (timed_handlers_heap w) \<longleftrightarrow> ?D = []" "dynarr_empty (timed_events_heap w) \<longleftrightarrow> ?E = []"
    using inv by (simp_all add: dynarr_empty_list events_list_def)
  have gd: "dynarr_get (timed_handlers_heap w) (dynarr_front (timed_handlers_heap w)) = Some (?D ! 0)"
      "dh_deadline (?D ! 0) = Min (dh_deadline ` set ?D)" "0 \<le> Min (dh_deadline ` set ?D)"
    if "?D \<noteq> []"
    using that inv(1) d heap_front [of dh_deadline ?D] pos
    by (auto simp: dynarr_get_list dynarr_front_def delay_ok_def deadlines_def simp del: length_dynarr_list)
  have ge: "dynarr_get (timed_events_heap w) (dynarr_front (timed_events_heap w)) = Some (?E ! 0)"
      "ah_deadline (?E ! 0) = Min (ah_deadline ` set ?E)" "0 \<le> Min (ah_deadline ` set ?E)"
    if "?E \<noteq> []"
    using that inv(2) e heap_front [of ah_deadline ?E] pos
    by (auto simp: dynarr_get_list dynarr_front_def events_ok_def deadlines_def events_list_def
        simp del: length_dynarr_list)
  have mn: "Min (deadlines w) = min (Min (dh_deadline ` set ?D)) (Min (ah_deadline ` set ?E))"
    if "?D \<noteq> []" "?E \<noteq> []"
    using that unfolding deadlines_def by (intro Min_Un) auto
  have mem: "?D \<noteq> [] \<Longrightarrow> Min (dh_deadline ` set ?D) \<in> dh_deadline ` set ?D"
      "?E \<noteq> [] \<Longrightarrow> Min (ah_deadline ` set ?E) \<in> ah_deadline ` set ?E"
    by (intro Min_in; simp)+
  have sets: "deadlines w = {} \<longleftrightarrow> ?D = [] \<and> ?E = []" "?D = [] \<Longrightarrow> deadlines w = ah_deadline ` set ?E"
      "?E = [] \<Longrightarrow> deadlines w = dh_deadline ` set ?D"
    by (auto simp: deadlines_def)
  consider "?D = []" "?E = []" | "?D = []" "?E \<noteq> []" | "?D \<noteq> []" "?E = []" | "?D \<noteq> []" "?E \<noteq> []"
    by blast
  then show ?thesis
  proof cases
    case 1
    then show ?thesis using sets by (simp add: next_deadline_def emp)
  next
    case 2
    then show ?thesis using ge sets mem by (simp add: next_deadline_def emp) blast
  next
    case 3
    then show ?thesis using gd sets mem by (simp add: next_deadline_def emp) blast
  next
    case 4
    define a where "a = Min (dh_deadline ` set ?D)"
    define b where "b = Min (ah_deadline ` set ?E)"
    have "next_deadline w = Some (if b < a then (b, Some True) else (a, Some False))"
      using 4 gd ge unfolding a_def [symmetric] b_def [symmetric] by (simp add: next_deadline_def emp)
    moreover have "Min (deadlines w) = min a b" "a \<in> dh_deadline ` set ?D" "b \<in> ah_deadline ` set ?E"
      unfolding a_def b_def using mn [OF 4] mem(1) [OF 4(1)] mem(2) [OF 4(2)] by blast+
    ultimately show ?thesis
      using 4 sets(1) by (cases "b < a") (simp_all add: min_def, blast+)
  qed
qed

section \<open>Expiry of a delayed handler\<close>

text \<open>Dropping the front entry: the last one takes its place and sinks.\<close>

definition drop_front :: "delay_heap_entry dynarray \<Rightarrow> delay_heap_entry dynarray option" where
  "drop_front d =
     do { last \<leftarrow> dynarr_get d (size_dec (d_nelems d));
          d \<leftarrow> dynarr_set d (dynarr_front d) last;
          let d = dynarr_pop_back d;
          if \<not> dynarr_empty d then heap_sift_down_idx dynarr_size delay_hp_ent_lt delay_hp_ent_swp 0 d else Some d }"

lemma drop_front_exec:
  assumes inv: "dynarr_inv d" and hp: "is_heap (map dh_deadline (dynarr_list d))" and ne: "dynarr_list d \<noteq> []"
  obtains d' where "drop_front d = Some d'" "dynarr_inv d'" "is_heap (map dh_deadline (dynarr_list d'))"
    "mset (dynarr_list d) = add_mset (dynarr_list d ! 0) (mset (dynarr_list d'))"
proof -
  let ?L = "dynarr_list d"
  have "0 < length ?L" using ne by (cases ?L) auto
  then have n: "size_dec (d_nelems d) = length ?L - 1" "0 < length ?L"
    using inv by simp_all
  obtain d1 where d1: "do { x \<leftarrow> dynarr_get d (length ?L - 1); dynarr_set d 0 x } = Some d1"
      "dynarr_inv (dynarr_pop_back d1)" "dynarr_list (dynarr_pop_back d1) = butlast (?L[0 := last ?L])"
    using dyn.swap_remove [OF inv n(2)] by blast
  let ?d = "dynarr_pop_back d1"
  have ms: "mset ?L = add_mset (?L ! 0) (mset (dynarr_list ?d))"
    using ne d1(3) by (cases ?L rule: rev_cases; cases "butlast ?L") (auto simp: nth_append butlast_append)
  have "\<exists>d'. (if \<not> dynarr_empty ?d then heap_sift_down_idx dynarr_size delay_hp_ent_lt delay_hp_ent_swp 0 ?d
      else Some ?d) = Some d' \<and> dynarr_inv d' \<and> is_heap (map dh_deadline (dynarr_list d'))
      \<and> mset (dynarr_list d') = mset (dynarr_list ?d)"
  proof (cases "dynarr_list ?d = []")
    case True
    then show ?thesis using d1(2) by (simp add: dynarr_empty_list)
  next
    case False
    have "butlast (?L[0 := last ?L]) = (butlast ?L)[0 := last ?L]"
      using False d1(3) by (cases ?L) (auto simp: butlast_list_update)
    then have "heap_except_down (map dh_deadline (dynarr_list ?d)) 0"
      using heap_replace_root_except_down [OF is_heap_butlast [OF hp]] d1(3) by (simp add: map_update map_butlast)
    then show ?thesis
      using dh.sift_down [OF d1(2), of 0] False d1(2) by (simp add: dynarr_empty_list) blast
  qed
  then show ?thesis
    using that d1(1) ms n(1) by (auto simp: drop_front_def dynarr_front_def bind_eq_Some)
qed

lemma timeout_delayed_drop:
  "timeout_delayed call w =
     do { top \<leftarrow> dynarr_get (timed_handlers_heap w) (dynarr_front (timed_handlers_heap w));
          w \<leftarrow> invoke call (dh_handler top) (put_status (dh_status top) EIO_OK w);
          d \<leftarrow> drop_front (timed_handlers_heap w);
          Some (w\<lparr>timed_handlers_heap := d\<rparr>) }"
  by (simp add: timeout_delayed_def drop_front_def Let_def)

section \<open>A run with nothing but synchronous handlers\<close>

lemma run_loop_idle:
  assumes "dynarr_empty (pollfds w)" "dynarr_empty (timed_handlers_heap w)" "cbuf_empty (sync_handlers w)"
  shows "run_loop call w = Some w"
  using assms by (subst run_loop.simps) simp

lemma run_loop_sync:
  assumes "dynarr_empty (pollfds w)" "dynarr_empty (timed_handlers_heap w)" "\<not> cbuf_empty (sync_handlers w)"
    and "run_sync_handlers call w = Some w'" "svc_status w' = RUNNING"
    and "pollfds w' = pollfds w" "timed_handlers_heap w' = timed_handlers_heap w" "cbuf_empty (sync_handlers w')"
  shows "run_loop call w = Some w'"
proof -
  have "run_loop call w = run_loop call w'"
    using assms by (subst run_loop.simps) simp
  then show ?thesis
    using run_loop_idle [of w' call] assms by simp
qed

section \<open>Properties\<close>

text \<open>
  C28. Posting a handler appends it to the queue when it succeeds and leaves the queue alone when it
  does not; it is refused exactly when the service is stopping or done, when the function pointer is
  null, or when the queue is full and cannot grow.
\<close>

theorem iosvc_post_correct:
  assumes inv: "cbuf_inv (sync_handlers w)" and r: "iosvc_post hnd w = (e, w')"
  shows "cbuf_inv (sync_handlers w')
    \<and> cbuf_list (sync_handlers w') = cbuf_list (sync_handlers w) @ (if e = EIO_OK then [hnd] else [])
    \<and> e = (if svc_status w \<in> {STOPPING, DONE} then EIO_STOPPED
           else if callback hnd = NULL then EIO_INVARG
           else if cbuf_must_grow (sync_handlers w) \<and> mallocs w 0 = None then EIO_NOMEM else EIO_OK)
    \<and> (\<exists>m q. w' = w\<lparr>mallocs := m, sync_handlers := q\<rparr>)"
proof -
  obtain ok w1 where a: "alloc_if (cbuf_must_grow (sync_handlers w)) w = (ok, w1)" by fastforce
  have e: "e = EIO_NOMEM" if "svc_status w \<in> {READY, RUNNING}" "callback hnd \<noteq> NULL" "cbuf_must_grow (sync_handlers w)" "mallocs w 0 = None"
    using r a that alloc_if_ok [OF a] alloc_if_world [OF a] by (auto simp: iosvc_post_def cbuf_push_def)
  have upd: "\<exists>m q. w = w\<lparr>mallocs := m, sync_handlers := q\<rparr>" "\<exists>n q. w\<lparr>mallocs := m\<rparr> = w\<lparr>mallocs := n, sync_handlers := q\<rparr>" for m
    by (rule exI [of _ "mallocs w"] exI [of _ m], rule exI [of _ "sync_handlers w"], simp)+
  show ?thesis
    by (rule iosvc_post_cases [OF inv r]) (use inv e upd in auto)
qed

theorem iosvc_post_correct_witness:
  "\<exists>w'. iosvc_post (demo_handler 1) fresh_world = (EIO_OK, w') \<and> cbuf_list (sync_handlers w') = [demo_handler 1]"
proof -
  obtain e w' where p: "iosvc_post (demo_handler 1) fresh_world = (e, w')" by fastforce
  show ?thesis
    using iosvc_post_correct [OF fresh_post_ready(1) p] p by (simp add: fresh_world_def demo_handler_def)
qed

text \<open>
  C19. One round of synchronous handlers runs every queued handler exactly once, in queue order, and
  then those posted meanwhile, until the queue is empty: the round returns, with the calls made in
  the order the specification \<open>drains\<close> gives, provided the handlers stop posting at some point.
\<close>

theorem run_sync_fifo:
  assumes "posting call posts" and "drains posts (cbuf_list (sync_handlers w)) tr" and "sync_ready w"
  shows "\<exists>w' later. run_sync_handlers call w = Some w' \<and> cbuf_list (sync_handlers w') = []
    \<and> calls w' = calls w @ tr \<and> tr = cbuf_list (sync_handlers w) @ later \<and> svc_status w' = RUNNING"
  using run_sync_drains [OF assms refl] drains_prefix [OF assms(2)] by (fastforce simp: sync_ready_def)

text \<open>A callback that posts the second demonstration handler when it is the first.\<close>

definition demo_call :: "io_handler \<Rightarrow> world \<Rightarrow> world option" where
  "demo_call h w = Some (if h = demo_handler 1 then snd (iosvc_post (demo_handler 2) w) else w)"

definition demo_posts :: "io_handler \<Rightarrow> io_handler list" where
  "demo_posts h = (if h = demo_handler 1 then [demo_handler 2] else [])"

lemma demo_posting: "posting demo_call demo_posts"
  unfolding posting_def
proof (intro allI impI)
  fix h and w :: world assume r: "sync_ready w"
  obtain e w' where p: "iosvc_post (demo_handler 2) w = (e, w')" by fastforce
  have rdy: "cbuf_inv (sync_handlers w)" "post_ready w" "callback (demo_handler 2) \<noteq> NULL"
    using r by (auto simp: sync_ready_def post_ready_def demo_handler_def)
  have "calls w' = calls w \<and> pollfds w' = pollfds w \<and> timed_handlers_heap w' = timed_handlers_heap w \<and> svc_status w' = svc_status w"
    by (rule iosvc_post_cases [OF rdy(1) p]) auto
  then have "sync_ready w' \<and> calls w' = calls w \<and> pollfds w' = pollfds w \<and> timed_handlers_heap w' = timed_handlers_heap w
      \<and> cbuf_list (sync_handlers w') = cbuf_list (sync_handlers w) @ [demo_handler 2]"
    using r iosvc_post_ready [OF rdy p] svc_post.post_inv [OF rdy(1) p] svc_post.post_queue [OF rdy(1) p]
    by (auto simp: sync_ready_def post_ready_def)
  then show "\<exists>w'. demo_call h w = Some w' \<and> sync_ready w' \<and> calls w' = calls w \<and> pollfds w' = pollfds w
      \<and> timed_handlers_heap w' = timed_handlers_heap w \<and> cbuf_list (sync_handlers w') = cbuf_list (sync_handlers w) @ demo_posts h"
    using r p by (simp add: demo_call_def demo_posts_def)
qed

lemma demo_drains: "drains demo_posts [demo_handler 1, demo_handler 3] [demo_handler 1, demo_handler 3, demo_handler 2]"
  by (intro drains.intros) (simp_all add: demo_posts_def demo_handler_def drains.intros)

definition demo_running :: world where
  "demo_running = (snd (iosvc_post (demo_handler 3) (snd (iosvc_post (demo_handler 1) fresh_world))))"

lemma demo_running_queue:
  "cbuf_list (sync_handlers demo_running) = [demo_handler 1, demo_handler 3]" "cbuf_inv (sync_handlers demo_running)"
  "post_ready demo_running" "calls demo_running = []" "svc_status demo_running = READY"
  "dynarr_empty (pollfds demo_running)" "dynarr_empty (timed_handlers_heap demo_running)"
proof -
  obtain e1 w1 where p1: "iosvc_post (demo_handler 1) fresh_world = (e1, w1)" by fastforce
  obtain e2 w2 where p2: "iosvc_post (demo_handler 3) w1 = (e2, w2)" by fastforce
  have c: "callback (demo_handler i) \<noteq> NULL" for i by (simp add: demo_handler_def)
  note f = fresh_post_ready
  note q1 = iosvc_post_ready [OF f c p1] svc_post.post_inv [OF f(1) p1] svc_post.post_queue [OF f(1) p1]
  note q2 = iosvc_post_ready [OF q1(3,2) c p2] svc_post.post_inv [OF q1(3) p2] svc_post.post_queue [OF q1(3) p2]
  have d: "demo_running = w2"
    unfolding demo_running_def p1 snd_conv p2 ..
  have same: "calls w2 = calls w1 \<and> svc_status w2 = svc_status w1 \<and> pollfds w2 = pollfds w1 \<and> timed_handlers_heap w2 = timed_handlers_heap w1"
    by (rule iosvc_post_cases [OF q1(3) p2]) auto
  have same': "calls w1 = [] \<and> svc_status w1 = READY \<and> pollfds w1 = dynarr_init 8 \<and> timed_handlers_heap w1 = dynarr_init 32"
    by (rule iosvc_post_cases [OF f(1) p1]) (auto simp: fresh_world_def)
  show "cbuf_list (sync_handlers demo_running) = [demo_handler 1, demo_handler 3]" "cbuf_inv (sync_handlers demo_running)"
      "post_ready demo_running" "calls demo_running = []" "svc_status demo_running = READY"
      "dynarr_empty (pollfds demo_running)" "dynarr_empty (timed_handlers_heap demo_running)"
    using q1 q2 same same' by (simp_all add: d fresh_world_def dynarr_empty_def dynarr_init_def)
qed

theorem run_sync_fifo_witness:
  "\<exists>w'. run_sync_handlers demo_call (demo_running\<lparr>svc_status := RUNNING\<rparr>) = Some w'
    \<and> calls w' = [demo_handler 1, demo_handler 3, demo_handler 2]"
proof -
  have "sync_ready (demo_running\<lparr>svc_status := RUNNING\<rparr>)"
    using demo_running_queue by (simp add: sync_ready_def post_ready_def)
  then show ?thesis
    using run_sync_fifo [of demo_call demo_posts "demo_running\<lparr>svc_status := RUNNING\<rparr>" "[demo_handler 1, demo_handler 3, demo_handler 2]"]
      demo_posting demo_drains demo_running_queue by auto
qed

text \<open>
  A service that has only synchronous handlers queued, which stop posting at some point, runs to
  completion: \<open>iosvc_run\<close> returns \<open>EIO_OK\<close> with every handler called in order and the service done.
\<close>

lemma iosvc_run_sync_only:
  assumes "posting call posts" and "drains posts (cbuf_list (sync_handlers w)) tr"
    and "svc_status w = READY" "cbuf_inv (sync_handlers w)" "post_ready w"
    and "dynarr_empty (pollfds w)" "dynarr_empty (timed_handlers_heap w)"
  shows "\<exists>w'. iosvc_run call w = Some (EIO_OK, w') \<and> calls w' = calls w @ tr \<and> svc_status w' = DONE"
proof -
  let ?w = "w\<lparr>svc_status := RUNNING\<rparr>"
  have "\<exists>w'. run_loop call ?w = Some w' \<and> calls w' = calls w @ tr \<and> svc_status w' = RUNNING"
  proof (cases "cbuf_list (sync_handlers w) = []")
    case True
    then have "run_loop call ?w = Some ?w"
      using assms(6,7) by (intro run_loop_idle) (auto simp: cbuf_empty_list)
    then show ?thesis using True assms(2) by simp
  next
    case False
    have "sync_ready ?w"
      using assms(4,5) by (simp add: sync_ready_def post_ready_def)
    then obtain w' where w': "run_sync_handlers call ?w = Some w'" "sync_ready w'" "cbuf_list (sync_handlers w') = []"
        "calls w' = calls w @ tr" "pollfds w' = pollfds w" "timed_handlers_heap w' = timed_handlers_heap w"
      using run_sync_drains [OF assms(1,2), of ?w] by auto
    then have "run_loop call ?w = Some w'"
      using assms(6,7) False by (intro run_loop_sync) (auto simp: cbuf_empty_list sync_ready_def)
    then show ?thesis
      using w' by (auto simp: sync_ready_def)
  qed
  then show ?thesis
    using assms(3) by (auto simp: iosvc_run_def)
qed

end
