(* ===== verification/Svc_Props.thy ===== *)
theory Svc_Props
  imports Enqueue_More Loop_Sync
begin

text \<open>
  The properties of registration and removal of events: \<open>iosvc_sched\<close> and \<open>iosvc_dequeue\<close> keep the
  service invariant and change exactly the requested event.
\<close>

unbundle bit_operations_syntax

section \<open>Demonstration worlds\<close>

definition demo_event :: "int \<Rightarrow> io_wait_type \<Rightarrow> io_event" where
  "demo_event f t = \<lparr>ev_fd = f, ev_wait_type = t\<rparr>"

lemma demo_event_sel [simp]: "ev_fd (demo_event f t) = f" "ev_wait_type (demo_event f t) = t"
  by (simp_all add: demo_event_def)

lemma fresh_svc_inv: "svc_inv fresh_world Map.empty"
  by (rule svc_inv_create [of "io_service.truncate fresh_world"])
    (simp_all add: iosvc_create_def fresh_world_def io_service.truncate_def)

lemma fresh_probe: "rb_probe (async_handlers fresh_world) Root_ref f = Some (Root_ref, NULL)"
  by (simp add: rb_probe_def probe_loop.simps [of _ Root_ref] fresh_world_def)

lemma fresh_malloc: "\<forall>i. mallocs fresh_world i \<noteq> None" "node_malloc fresh_world = Some 16" "aligned (16 :: addr)"
  by (simp_all add: fresh_world_def node_malloc_def dynarr_full_def dynarr_init_def aligned_def)

lemma demo_cb: "callback (demo_handler i) \<noteq> NULL"
  by (simp add: demo_handler_def)

text \<open>A service on which reading from descriptor 5 has been registered.\<close>

definition demo_service :: world where
  "demo_service = snd (the (iosvc_sched (demo_event 5 WAIT_READ) (demo_handler 1) 40 fresh_world))"

definition demo_node :: rb_node where
  "demo_node = the (node_data (async_handlers demo_service) 16)"

lemma demo_service:
  "svc_inv demo_service [5 \<mapsto> 16]" "node_data (async_handlers demo_service) 16 = Some demo_node"
  "get_evt_data demo_node WAIT_READ = Some \<lparr>handler = demo_handler 1, status = 40, ddl_heap_idx = -1\<rparr>"
  "{u. armed demo_node u} = {WAIT_READ}" "svc_status demo_service = READY"
  "iosvc_sched (demo_event 5 WAIT_READ) (demo_handler 1) 40 fresh_world = Some (EIO_OK, demo_service)"
  "timed_events_heap demo_service = dynarr_init 32" "calls demo_service = []"
proof -
  have "svc_status fresh_world \<in> {READY, RUNNING}" "\<not> zigzag_at (async_handlers fresh_world) Root_ref"
      "Map.empty (ev_fd (demo_event 5 WAIT_READ)) = None" "(16 :: addr) \<noteq> NULL" "16 \<notin> ran Map.empty"
    by (simp_all add: fresh_world_def zigzag_at_def)
  from iosvc_enqueue_new [OF fresh_svc_inv this(1) demo_cb [of 1] fresh_probe this(3,2) fresh_malloc(1,2) this(4) fresh_malloc(3) this(5),
      where event = "demo_event 5 WAIT_READ" and st = 40]
  obtain w n where w: "iosvc_enqueue (demo_event 5 WAIT_READ) (demo_handler 1) 40 fresh_world = Some (EIO_OK, Some 16, w)"
      "svc_inv w [5 \<mapsto> 16]" "registered fresh_world w Map.empty 16 n"
      "get_evt_data n WAIT_READ = Some \<lparr>handler = demo_handler 1, status = 40, ddl_heap_idx = -1\<rparr>" "{u. armed n u} = {WAIT_READ}"
    by auto
  then show s: "iosvc_sched (demo_event 5 WAIT_READ) (demo_handler 1) 40 fresh_world = Some (EIO_OK, demo_service)"
    by (simp add: iosvc_sched_def demo_service_def)
  then have d: "demo_service = w"
    using w(1) by (simp add: iosvc_sched_def)
  have n: "node_data (async_handlers demo_service) 16 = Some n"
    using w(3) by (simp add: registered_def d)
  then show "node_data (async_handlers demo_service) 16 = Some demo_node"
      "get_evt_data demo_node WAIT_READ = Some \<lparr>handler = demo_handler 1, status = 40, ddl_heap_idx = -1\<rparr>"
      "{u. armed demo_node u} = {WAIT_READ}"
    using w(4,5) by (simp_all add: demo_node_def)
  show "svc_inv demo_service [5 \<mapsto> 16]" using w(2) d by simp
  show "svc_status demo_service = READY" "timed_events_heap demo_service = dynarr_init 32" "calls demo_service = []"
    using w(3) by (auto simp: registered_def d fresh_world_def)
qed

section \<open>Properties\<close>

text \<open>
  C1. Registering an event on a descriptor the service does not know yet: with memory available, the
  call succeeds, the descriptor gets a node of its own whose only pending event is the requested
  one, with the caller's handler and status variable, an entry of the poll vector with exactly the
  flags of that event, and everything registered before stays. The service invariant is kept. The
  place at which the new node is linked must not be below a red node on the inner side.
\<close>

theorem iosvc_sched_new:
  assumes "svc_inv w m" and "svc_status w \<in> {READY, RUNNING}" and "callback hnd \<noteq> NULL"
    and "rb_probe (async_handlers w) Root_ref (ev_fd event) = Some (place, parent)" "\<not> zigzag_at (async_handlers w) place"
    and "m (ev_fd event) = None" and "\<forall>i. mallocs w i \<noteq> None"
    and "node_malloc w = Some a" "a \<noteq> NULL" "aligned a" "a \<notin> ran m"
  shows "\<exists>w' n. iosvc_sched event hnd st w = Some (EIO_OK, w') \<and> svc_inv w' (m(ev_fd event \<mapsto> a)) \<and> registered w w' m a n
    \<and> get_evt_data n (ev_wait_type event) = Some \<lparr>handler = hnd, status = st, ddl_heap_idx = -1\<rparr>
    \<and> {u. armed n u} = {ev_wait_type event}"
proof -
  obtain w' n where r: "iosvc_enqueue event hnd st w = Some (EIO_OK, Some a, w')" "svc_inv w' (m(ev_fd event \<mapsto> a))"
      "registered w w' m a n" "get_evt_data n (ev_wait_type event) = Some \<lparr>handler = hnd, status = st, ddl_heap_idx = -1\<rparr>"
      "{u. armed n u} = {ev_wait_type event}"
    using iosvc_enqueue_new [OF assms(1-4,6,5,7-11)] .
  then have "iosvc_sched event hnd st w = Some (EIO_OK, w')"
    by (simp add: iosvc_sched_def)
  then show ?thesis
    using r(2-5) by blast
qed

theorem iosvc_sched_new_witness:
  "\<exists>w' n. iosvc_sched (demo_event 5 WAIT_READ) (demo_handler 1) NULL fresh_world = Some (EIO_OK, w')
    \<and> svc_inv w' [5 \<mapsto> 16] \<and> registered fresh_world w' Map.empty 16 n \<and> {u. armed n u} = {WAIT_READ}"
proof -
  have "svc_status fresh_world \<in> {READY, RUNNING}" "\<not> zigzag_at (async_handlers fresh_world) Root_ref"
      "Map.empty (ev_fd (demo_event 5 WAIT_READ)) = None" "(16 :: addr) \<noteq> NULL" "16 \<notin> ran Map.empty"
    by (simp_all add: fresh_world_def zigzag_at_def)
  from iosvc_sched_new [OF fresh_svc_inv this(1) demo_cb [of 1] fresh_probe this(2,3) fresh_malloc(1,2) this(4) fresh_malloc(3) this(5),
      where event = "demo_event 5 WAIT_READ" and st = NULL]
  show ?thesis by auto
qed

text \<open>
  C2. Registering an event on a descriptor that has a node, when that event is not pending there: the
  call succeeds, the event becomes pending with the caller's handler and status variable, the other
  pending events of the descriptor keep their data (handler, status variable and deadline), whatever
  storage they share, the other descriptors keep their nodes' contents, and the poll flags grow by
  exactly those of the event. The service invariant is kept.
\<close>

theorem iosvc_sched_existing:
  assumes "svc_inv w m" and "svc_status w \<in> {READY, RUNNING}" and "callback hnd \<noteq> NULL"
    and "m (ev_fd event) = Some a" "node_data (async_handlers w) a = Some n" "\<not> armed n (ev_wait_type event)"
    and "mallocs w 0 \<noteq> None"
  shows "\<exists>w' n'. iosvc_sched event hnd st w = Some (EIO_OK, w') \<and> svc_inv w' m \<and> registered w w' m a n'
    \<and> get_evt_data n' (ev_wait_type event) = Some \<lparr>handler = hnd, status = st, ddl_heap_idx = -1\<rparr>
    \<and> {u. armed n' u} = insert (ev_wait_type event) {u. armed n u} \<and> (\<forall>u. armed n u \<longrightarrow> get_evt_data n' u = get_evt_data n u)
    \<and> node_mask n' = node_mask n OR sched_mask (ev_wait_type event)"
proof -
  obtain w' n' where r: "iosvc_enqueue event hnd st w = Some (EIO_OK, Some a, w')" "svc_inv w' m" "registered w w' m a n'"
      "get_evt_data n' (ev_wait_type event) = Some \<lparr>handler = hnd, status = st, ddl_heap_idx = -1\<rparr>"
      "{u. armed n' u} = insert (ev_wait_type event) {u. armed n u}" "\<forall>u. armed n u \<longrightarrow> get_evt_data n' u = get_evt_data n u"
    using iosvc_enqueue_old [OF assms(1-7)] .
  then have "iosvc_sched event hnd st w = Some (EIO_OK, w')"
    by (simp add: iosvc_sched_def)
  moreover have "node_mask n' = node_mask n OR sched_mask (ev_wait_type event)"
    using r(5) by (simp add: node_mask_of mask_of_insert)
  ultimately show ?thesis
    using r(2-6) by blast
qed

theorem iosvc_sched_existing_witness:
  "\<exists>w' n'. iosvc_sched (demo_event 5 WAIT_WRITE) (demo_handler 2) NULL (demo_service\<lparr>mallocs := \<lambda>_. Some 800\<rparr>) = Some (EIO_OK, w')
    \<and> svc_inv w' [5 \<mapsto> 16] \<and> {u. armed n' u} = {WAIT_WRITE, WAIT_READ}
    \<and> get_evt_data n' WAIT_READ = Some \<lparr>handler = demo_handler 1, status = 40, ddl_heap_idx = -1\<rparr>"
proof -
  let ?w = "demo_service\<lparr>mallocs := \<lambda>_. Some 800\<rparr>"
  have "svc_inv ?w [5 \<mapsto> 16]"
    using unchanged_svc_inv [OF demo_service(1)] by simp
  moreover have "\<not> armed demo_node WAIT_WRITE" "svc_status ?w \<in> {READY, RUNNING}" "mallocs ?w 0 \<noteq> None"
      "node_data (async_handlers ?w) 16 = Some demo_node"
    using demo_service(2,4,5) by auto
  ultimately obtain w' n' where "iosvc_sched (demo_event 5 WAIT_WRITE) (demo_handler 2) NULL ?w = Some (EIO_OK, w')" "svc_inv w' [5 \<mapsto> 16]"
      "{u. armed n' u} = insert WAIT_WRITE {u. armed demo_node u}" "\<forall>u. armed demo_node u \<longrightarrow> get_evt_data n' u = get_evt_data demo_node u"
    using iosvc_sched_existing [of ?w "[5 \<mapsto> 16]" "demo_handler 2" "demo_event 5 WAIT_WRITE" 16 demo_node NULL] demo_cb
    by auto
  moreover have "armed demo_node WAIT_READ" using demo_service(4) by blast
  ultimately show ?thesis
    using demo_service(3,4) by metis
qed

text \<open>
  C31. A registration that is refused changes nothing that the service has registered, and its code
  tells why: \<open>EIO_STOPPED\<close> exactly when the service is stopping or done, otherwise \<open>EIO_INVARG\<close> exactly
  when the function pointer is null, otherwise \<open>EIO_INPROGRESS\<close> exactly when that event is pending on
  the descriptor already, and otherwise \<open>EIO_NOMEM\<close>, and then an allocation has failed: the first one
  asked for, or that of the new node. The exception event of a descriptor without a node is excluded:
  there, a refused call can leave a freed node in the tree (\<open>iosvc_sched_dangling\<close>).
\<close>

theorem iosvc_sched_refused:
  assumes "svc_inv w m" and "m (ev_fd event) = None \<longrightarrow> ev_wait_type event \<noteq> WAIT_EXCEPTION"
    and "iosvc_sched event hnd st w = Some (e, w')" "e \<noteq> EIO_OK"
  shows "svc_inv w' m \<and> unchanged w w' \<and>
    (if svc_status w \<in> {STOPPING, DONE} then e = EIO_STOPPED
     else if callback hnd = NULL then e = EIO_INVARG
     else if \<exists>a n. m (ev_fd event) = Some a \<and> node_data (async_handlers w) a = Some n \<and> armed n (ev_wait_type event)
     then e = EIO_INPROGRESS
     else e = EIO_NOMEM \<and> (mallocs w 0 = None \<or> m (ev_fd event) = None \<and> node_malloc w = None))"
proof -
  obtain out where "iosvc_enqueue event hnd st w = Some (e, out, w')"
    using assms(3) by (auto simp: iosvc_sched_def bind_eq_Some)
  from iosvc_enqueue_refused [OF assms(1,2) this assms(4)] show ?thesis
    using unchanged_svc_inv [OF assms(1)] unfolding refused_for_def pending_on_def out_of_memory_def by blast
qed

theorem iosvc_sched_refused_witness:
  "iosvc_sched (demo_event 5 WAIT_READ) (demo_handler 2) NULL demo_service = Some (EIO_INPROGRESS, demo_service)
   \<and> svc_inv demo_service [5 \<mapsto> 16] \<and> (\<exists>a n. a = 16 \<and> node_data (async_handlers demo_service) a = Some n \<and> armed n WAIT_READ)"
proof -
  have T: "tree_holds (async_handlers demo_service) [5 \<mapsto> 16]"
    using demo_service(1) by (simp add: svc_inv_def)
  obtain place parent where pr: "rb_probe (async_handlers demo_service) Root_ref 5 = Some (place, parent)"
    using probe_runs [OF T] .
  obtain r where r: "rb_store (async_handlers demo_service) 16 = Some r" "rb_load (async_handlers demo_service) 16 = Some r" "(16::addr) \<noteq> NULL"
    using tree_holds_load [OF T, of 5 16] by auto
  have "armed demo_node WAIT_READ" using demo_service(4) by blast
  moreover have "payload r = demo_node" using demo_service(2) r(1) by (simp add: node_data_def)
  ultimately have "armed r WAIT_READ" using armed_payload(1) [of r] by simp
  then have s: "iosvc_sched (demo_event 5 WAIT_READ) (demo_handler 2) NULL demo_service = Some (EIO_INPROGRESS, demo_service)"
    using pr probe_old [OF T pr, of 16] r demo_service(5) demo_cb
    by (simp add: iosvc_sched_def iosvc_enqueue_at is_scheduled_armed)
  have p: "[5 \<mapsto> 16] (ev_fd (demo_event 5 WAIT_READ)) = None \<longrightarrow> ev_wait_type (demo_event 5 WAIT_READ) \<noteq> WAIT_EXCEPTION"
      "EIO_INPROGRESS \<noteq> EIO_OK"
    by simp_all
  from iosvc_sched_refused [OF demo_service(1) p(1) s p(2)]
  have "\<exists>a n. [5 \<mapsto> 16] 5 = Some a \<and> node_data (async_handlers demo_service) a = Some n \<and> armed n WAIT_READ"
    using demo_service(5) demo_cb by (simp split: if_splits)
  then show ?thesis
    using s demo_service(1) by simp
qed

text \<open>
  C3. Taking an event out returns its handler, reports the status, removes its deadline and reports
  the time that was left, clears exactly its poll flags, and leaves every other event of this and
  of the other descriptors pending with its handler and status variable; the service invariant is kept.
\<close>

theorem iosvc_dequeue_correct:
  assumes "svc_inv w m" and "m k = Some a" "node_data (async_handlers w) a = Some n" "get_evt_data n t = Some d"
    and "callback (handler d) \<noteq> NULL"
  shows "\<exists>w' n'. iosvc_dequeue a t now st w = Some (handler d, w') \<and> svc_inv w' m
    \<and> node_data (async_handlers w') a = Some n' \<and> {u. armed n' u} = {u. armed n u} - {t} \<and> node_mask n' = clear_events t (node_mask n)
    \<and> others_kept (async_handlers w) (async_handlers w') a t
    \<and> set (events_list w') = {e \<in> set (events_list w). ent_key e \<noteq> (a, t)}
    \<and> (\<forall>x \<in> set (events_list w). ent_key x = (a, t) \<longrightarrow> ints w' (ah_remaining x) = time_left x now)
    \<and> errcs w' = (if status d = NULL then errcs w else (errcs w)(status d := st))"
proof -
  have t: "armed n t" "evt_of n t = d"
    using assms(4,5) by (auto simp: armed_Some evt_of_def)
  obtain w' n' where r: "iosvc_dequeue a t now st w = Some (handler (evt_of n t), w')" "svc_inv w' m"
    "node_data (async_handlers w') a = Some n'" "{u. armed n' u} = {u. armed n u} - {t}"
    "set (events_list w') = {e \<in> set (events_list w). ent_key e \<noteq> (a, t)}"
    "errcs w' = (if status (evt_of n t) = NULL then errcs w else (errcs w)(status (evt_of n t) := st))"
    "\<forall>x \<in> set (events_list w). ent_key x = (a, t) \<longrightarrow> ints w' (ah_remaining x) = time_left x now"
    "\<exists>d h i p e. w' = w\<lparr>timed_events_heap := d, async_handlers := h, ints := i, errcs := e, pollfds := p\<rparr>"
    "same_links (async_handlers w) (async_handlers w')" "others_kept (async_handlers w) (async_handlers w') a t"
    "pollfd_idx n' = pollfd_idx n"
    "dynarr_list (pollfds w') = (dynarr_list (pollfds w))[pollfd_idx n := (dynarr_list (pollfds w) ! pollfd_idx n)\<lparr>pfd_events := node_mask n'\<rparr>]"
    by (rule iosvc_dequeue_exec [OF assms(1-3) t(1), where now = now and st = st]) (rule that)
  have "node_mask n' = clear_events t (node_mask n)"
    using r(4) by (simp add: node_mask_of mask_of_remove)
  then show ?thesis
    using r t(2) by blast
qed

theorem iosvc_dequeue_correct_witness:
  "\<exists>w' n'. iosvc_dequeue 16 WAIT_READ 7 EIO_OK demo_service = Some (demo_handler 1, w') \<and> svc_inv w' [5 \<mapsto> 16]
    \<and> node_data (async_handlers w') 16 = Some n' \<and> {u. armed n' u} = {} \<and> errcs w' 40 = EIO_OK"
  using iosvc_dequeue_correct [OF demo_service(1) _ demo_service(2,3), of 5 7 EIO_OK] demo_service(4) demo_cb by auto

text \<open>A new service satisfies the service invariant, with no descriptor registered.
\<close>

lemma iosvc_create_inv:
  assumes "iosvc_create True = Some (io_service.truncate w)"
  shows "svc_inv w Map.empty"
  by (rule svc_inv_create [OF assms]) (simp_all add: io_service.truncate_def)

text \<open>An event that is not pending has no entry in the deadline heap.\<close>

lemma no_entry:
  assumes "svc_inv w m" "node_data (async_handlers w) a = Some n" "\<not> armed n t"
  shows "\<forall>x \<in> set (events_list w). ent_key x \<noteq> (a, t)"
  using assms by (auto simp: svc_inv_def timers_ok_def ent_key_def)

text \<open>
  C18. Round trip: registering an event on a descriptor and taking it out again returns the handler that
  was registered and restores what was pending: on this descriptor and on every other one, the same
  events are pending as before, each with the handler and status variable it had, the descriptor's
  poll flags are those it had, and the deadline heap holds the entries it held. The service invariant
  holds.
\<close>

theorem sched_dequeue_roundtrip:
  assumes "svc_inv w m" and "svc_status w \<in> {READY, RUNNING}" and "callback hnd \<noteq> NULL"
    and "m (ev_fd event) = Some a" "node_data (async_handlers w) a = Some n" "\<not> armed n (ev_wait_type event)"
    and "mallocs w 0 \<noteq> None"
  shows "\<exists>w1 w2 n2. iosvc_sched event hnd st w = Some (EIO_OK, w1)
    \<and> iosvc_dequeue a (ev_wait_type event) now e w1 = Some (hnd, w2) \<and> svc_inv w2 m
    \<and> node_data (async_handlers w2) a = Some n2 \<and> node_mask n2 = node_mask n
    \<and> (\<forall>b \<in> ran m. \<forall>nb. node_data (async_handlers w) b = Some nb \<longrightarrow>
         (\<exists>nb'. node_data (async_handlers w2) b = Some nb' \<and> (\<forall>u. same_event nb nb' u)))
    \<and> set (events_list w2) = set (events_list w)"
proof -
  let ?t = "ev_wait_type event"
  obtain w1 n1 where w1: "iosvc_enqueue event hnd st w = Some (EIO_OK, Some a, w1)" "svc_inv w1 m" "registered w w1 m a n1"
      "get_evt_data n1 ?t = Some \<lparr>handler = hnd, status = st, ddl_heap_idx = -1\<rparr>" "{u. armed n1 u} = insert ?t {u. armed n u}"
      "\<forall>u. armed n u \<longrightarrow> get_evt_data n1 u = get_evt_data n u"
    using iosvc_enqueue_old [OF assms] .
  have n1: "node_data (async_handlers w1) a = Some n1" "events_list w1 = events_list w"
    using w1(3) by (auto simp: registered_def events_list_def)
  have t: "armed n1 ?t" "evt_of n1 ?t = \<lparr>handler = hnd, status = st, ddl_heap_idx = -1\<rparr>"
    using w1(4,5) by (auto simp: evt_of_def)
  obtain w2 n2 where w2: "iosvc_dequeue a ?t now e w1 = Some (handler (evt_of n1 ?t), w2)" "svc_inv w2 m"
    "node_data (async_handlers w2) a = Some n2" "{u. armed n2 u} = {u. armed n1 u} - {?t}"
    "set (events_list w2) = {x \<in> set (events_list w1). ent_key x \<noteq> (a, ?t)}"
    "errcs w2 = (if status (evt_of n1 ?t) = NULL then errcs w1 else (errcs w1)(status (evt_of n1 ?t) := e))"
    "\<forall>x \<in> set (events_list w1). ent_key x = (a, ?t) \<longrightarrow> ints w2 (ah_remaining x) = time_left x now"
    "\<exists>d h i p e. w2 = w1\<lparr>timed_events_heap := d, async_handlers := h, ints := i, errcs := e, pollfds := p\<rparr>"
    "same_links (async_handlers w1) (async_handlers w2)" "others_kept (async_handlers w1) (async_handlers w2) a ?t"
    "pollfd_idx n2 = pollfd_idx n1"
    "dynarr_list (pollfds w2) = (dynarr_list (pollfds w1))[pollfd_idx n1 := (dynarr_list (pollfds w1) ! pollfd_idx n1)\<lparr>pfd_events := node_mask n2\<rparr>]"
    by (rule iosvc_dequeue_exec [OF w1(2) assms(4) n1(1) t(1), where now = now and st = e]) (rule that)
  have arm: "{u. armed n2 u} = {u. armed n u}"
    using w2(4) w1(5) assms(6) by auto
  have own: "same_event n n2 u" for u
  proof (cases "u = ?t")
    case True
    then show ?thesis using arm assms(6) by (auto simp: same_event_def)
  next
    case False
    then have "same_event n1 n2 u"
      using w2(3,10) n1(1) unfolding others_kept_def by fastforce
    then show ?thesis
      using same_event_trans [OF kept_same_event [OF w1(5,6) False]] by blast
  qed
  have "\<exists>nb'. node_data (async_handlers w2) b = Some nb' \<and> (\<forall>u. same_event nb nb' u)"
    if b: "b \<in> ran m" "node_data (async_handlers w) b = Some nb" for b nb
  proof (cases "b = a")
    case True
    then show ?thesis using b assms(5) w2(3) own by auto
  next
    case False
    then have "node_data (async_handlers w1) b = Some nb"
      using w1(3) b by (simp add: registered_def)
    then show ?thesis
      using w2(10) False unfolding others_kept_def by blast
  qed
  moreover have "set (events_list w2) = set (events_list w)"
    using w2(5) no_entry [OF assms(1,5,6)] unfolding n1(2) by blast
  moreover have "node_mask n2 = node_mask n"
    using arm by (simp add: node_mask_of)
  moreover have "iosvc_sched event hnd st w = Some (EIO_OK, w1)"
    using w1(1) by (simp add: iosvc_sched_def)
  ultimately show ?thesis
    using w2(1-3) unfolding t(2) event_data.select_convs by blast
qed

theorem sched_dequeue_roundtrip_witness:
  "\<exists>w1 w2 n2. iosvc_sched (demo_event 5 WAIT_WRITE) (demo_handler 2) NULL (demo_service\<lparr>mallocs := \<lambda>_. Some 800\<rparr>) = Some (EIO_OK, w1)
    \<and> iosvc_dequeue 16 WAIT_WRITE 9 EIO_OK w1 = Some (demo_handler 2, w2) \<and> svc_inv w2 [5 \<mapsto> 16]
    \<and> node_data (async_handlers w2) 16 = Some n2 \<and> same_event demo_node n2 WAIT_READ"
proof -
  let ?w = "demo_service\<lparr>mallocs := \<lambda>_. Some 800\<rparr>"
  have "svc_inv ?w [5 \<mapsto> 16]"
    using unchanged_svc_inv [OF demo_service(1)] by simp
  moreover have "\<not> armed demo_node WAIT_WRITE" "svc_status ?w \<in> {READY, RUNNING}" "mallocs ?w 0 \<noteq> None"
      "node_data (async_handlers ?w) 16 = Some demo_node"
    using demo_service(2,4,5) by auto
  ultimately show ?thesis
    using sched_dequeue_roundtrip [of ?w "[5 \<mapsto> 16]" "demo_handler 2" "demo_event 5 WAIT_WRITE" 16 demo_node NULL 9 EIO_OK] demo_cb
    by fastforce
qed

end
