(* ===== verification/Timeout_Props.thy ===== *)
theory Timeout_Props
  imports Svc_Props
begin

text \<open>
  \<open>iosvc_sched_timeout\<close>: registering an event with a deadline. The code reserves the heap entry before
  it registers the event, so registration runs while the deadline heap has a slot that is not yet
  filled in; it does not look at that heap.
\<close>

section \<open>Registration does not look at the deadline heap\<close>

abbreviation with_heap :: "async_heap_entry dynarray \<Rightarrow> 'x world_scheme \<Rightarrow> 'x world_scheme" where
  "with_heap d w \<equiv> w\<lparr>timed_events_heap := d\<rparr>"

lemma heap_sel:
  "async_handlers (with_heap d w) = async_handlers w" "pollfds (with_heap d w) = pollfds w"
  "async_handlers (w\<lparr>mallocs := ms, pollfds := p\<rparr>) = async_handlers w" "pollfds (w\<lparr>mallocs := ms, pollfds := p\<rparr>) = p"
  by simp_all

lemma map_option_bind: "map_option f (Option.bind x g) = Option.bind x (\<lambda>y. map_option f (g y))"
  by (cases x) simp_all

lemma bind_Pair: "Option.bind x (\<lambda>y. Some (e, y)) = map_option (Pair e) x"
  by (cases x) simp_all

lemma alloc_if_heap: "alloc_if b (with_heap d w) = map_prod id (with_heap d) (alloc_if b w)"
  by (simp add: alloc_if_def next_malloc_def)

lemma next_malloc_heap: "next_malloc (with_heap d w) = map_prod id (with_heap d) (next_malloc w)"
  by (simp add: next_malloc_def)

lemma reserve_slot_heap:
  "reserve_slot n t (with_heap d w) = map_prod id (map_prod id (with_heap d)) (reserve_slot n t w)"
  unfolding reserve_slot_in by (simp split: prod.split)

lemma reserve_evt_mem_heap:
  "reserve_evt_mem place parent root event (with_heap d w) =
     map_option (map_prod id (with_heap d)) (reserve_evt_mem place parent root event w)"
proof (cases "deref (async_handlers w) place")
  case (Some c)
  obtain p w1 where p: "(if c = NULL then next_malloc w else (Some c, w)) = (p, w1)" by fastforce
  have p': "(if c = NULL then next_malloc (with_heap d w) else (Some c, with_heap d w)) = (p, with_heap d w1)"
    using p by (auto simp: next_malloc_heap split: if_splits)
  show ?thesis
    using Some p p'
    by (cases p) (auto simp: reserve_evt_mem_def Let_def reserve_slot_heap map_option_bind split: prod.splits intro!: Option.bind_cong)
qed (simp add: reserve_evt_mem_def)

lemma enqueue_fill_heap:
  assumes "enqueue_fill place b ps event hnd st w = Some (n, w')"
  shows "enqueue_fill place b ps event hnd st (with_heap d w) = Some (n, with_heap d w')"
  using assms
  by (cases ps; cases b) (auto simp: enqueue_fill_def with_tree_def with_pollfds_def bind_eq_Some Let_def)

lemma enqueue_reserve_heap:
  assumes "enqueue_reserve place parent b event w = Some (x, w')"
  shows "enqueue_reserve place parent b event (with_heap d w) = Some (x, with_heap d w')"
proof -
  obtain w1 where "reserve_evt_mem place parent Root_ref event w = Some (x, w1)"
      "w' = (if x = None \<and> b then w1\<lparr>pollfds := dynarr_pop_back (pollfds w1)\<rparr> else w1)"
    using assms by (auto simp: enqueue_reserve_def bind_eq_Some)
  then show ?thesis
    by (simp add: enqueue_reserve_def reserve_evt_mem_heap)
qed

lemma enqueue_at_heap:
  assumes "enqueue_at place parent b event hnd st w = Some (e, n, w')"
  shows "enqueue_at place parent b event hnd st (with_heap d w) = Some (e, n, with_heap d w')"
proof -
  obtain ok w1 where a: "alloc_if (b \<and> dynarr_full (pollfds w)) w = (ok, w1)" by fastforce
  then have a': "alloc_if (b \<and> dynarr_full (pollfds w)) (with_heap d w) = (ok, with_heap d w1)"
    by (simp add: alloc_if_heap)
  obtain slot x where x: "(if b then dynarr_emplace_back ok (pollfds w1) else (Some 0, pollfds w1)) = (slot, x)" by fastforce
  have comm: "(with_heap d w1)\<lparr>pollfds := x\<rparr> = with_heap d (w1\<lparr>pollfds := x\<rparr>)"
    by simp
  show ?thesis
  proof (cases slot)
    case None
    then show ?thesis using assms a a' x by (auto simp: enqueue_at_def)
  next
    case (Some i)
    then obtain y w2 where y: "enqueue_reserve place parent b event (w1\<lparr>pollfds := x\<rparr>) = Some (y, w2)"
      using assms a x by (auto simp: enqueue_at_def bind_eq_Some)
    have y': "enqueue_reserve place parent b event ((with_heap d w1)\<lparr>pollfds := x\<rparr>) = Some (y, with_heap d w2)"
      unfolding comm by (rule enqueue_reserve_heap [OF y])
    show ?thesis
      using assms a a' x Some y y' enqueue_fill_heap [where d = d]
      by (cases y) (auto simp: enqueue_at_def bind_eq_Some)
  qed
qed

lemma iosvc_enqueue_live:
  assumes "svc_status w = READY \<or> svc_status w = RUNNING" "callback hnd \<noteq> NULL"
  shows "iosvc_enqueue event hnd st w =
    do { (place, parent) \<leftarrow> rb_probe (async_handlers w) Root_ref (ev_fd event);
         cur \<leftarrow> deref (async_handlers w) place;
         scheduled \<leftarrow> (if cur = NULL then Some False
                       else map_option (\<lambda>n. is_scheduled n event) (rb_load (async_handlers w) cur));
         if scheduled then Some (EIO_INPROGRESS, None, w)
         else enqueue_at place parent (cur = NULL) event hnd st w }"
  using assms unfolding iosvc_enqueue_at by argo

lemma iosvc_enqueue_heap:
  assumes "iosvc_enqueue event hnd st w = Some (e, n, w')"
  shows "iosvc_enqueue event hnd st (with_heap d w) = Some (e, n, with_heap d w')"
proof (cases "(svc_status w = READY \<or> svc_status w = RUNNING) \<and> callback hnd \<noteq> NULL")
  case False
  then show ?thesis using assms by (auto simp: iosvc_enqueue_at)
next
  case True
  then have live: "svc_status w = READY \<or> svc_status w = RUNNING" "callback hnd \<noteq> NULL"
      "svc_status (with_heap d w) = READY \<or> svc_status (with_heap d w) = RUNNING"
      "async_handlers (with_heap d w) = async_handlers w"
    by simp_all
  obtain place parent cur s where "rb_probe (async_handlers w) Root_ref (ev_fd event) = Some (place, parent)"
      "deref (async_handlers w) place = Some cur"
      "(if cur = NULL then Some False else map_option (\<lambda>n. is_scheduled n event) (rb_load (async_handlers w) cur)) = Some s"
      "(if s then Some (EIO_INPROGRESS, None, w) else enqueue_at place parent (cur = NULL) event hnd st w) = Some (e, n, w')"
    using assms unfolding iosvc_enqueue_live [OF live(1,2)]
    by (auto simp only: bind_eq_Some prod.case split_paired_Ex)
  then show ?thesis
    using enqueue_at_heap [of place parent "cur = NULL" event hnd st w e n w' d]
    unfolding iosvc_enqueue_live [OF live(3,2)] live(4)
    by (cases s) (simp_all split del: if_split)
qed

section \<open>A new entry of the deadline heap keeps the invariant\<close>

lemma poll_ok_ddl:
  assumes "poll_ok w m" "same_but_ddl (async_handlers w) (async_handlers w')" "pollfds w' = pollfds w"
  shows "poll_ok w' m"
proof -
  have "\<exists>n. node_data (async_handlers w') a = Some n \<and> fd n = k \<and> node_ok n
      \<and> pollfd_idx n < length (dynarr_list (pollfds w)) \<and> pfd_fd (dynarr_list (pollfds w) ! pollfd_idx n) = k
      \<and> pfd_events (dynarr_list (pollfds w) ! pollfd_idx n) = node_mask n" if a: "m k = Some a" for k a
  proof -
    obtain n where n: "node_data (async_handlers w) a = Some n" "fd n = k" "node_ok n"
        "pollfd_idx n < length (dynarr_list (pollfds w))" "pfd_fd (dynarr_list (pollfds w) ! pollfd_idx n) = k"
        "pfd_events (dynarr_list (pollfds w) ! pollfd_idx n) = node_mask n"
      using poll_okE [OF assms(1) a] .
    obtain n' where n': "node_data (async_handlers w') a = Some n'" "erase_ddl n' = erase_ddl n"
      using same_but_ddl_data [OF assms(2) n(1)] .
    show ?thesis
      using n n'(1) poll_view_erase [OF n'(2)] by (auto simp: poll_view_def)
  qed
  then show ?thesis
    using assms(1,3) by (simp add: poll_ok_def Let_def del: length_dynarr_list)
qed

lemma timers_ok_pushed:
  assumes tm: "timers_ok w m" and p: "pushed w e w'" and e: "ah_io_op_data e \<in> ran m" "ah_remaining e \<noteq> NULL"
    and n: "node_data (async_handlers w) (ah_io_op_data e) = Some n" "armed n (ah_event_type e)"
    and dom: "\<And>b. b \<in> ran m \<Longrightarrow> b \<noteq> NULL \<and> node_data (async_handlers w) b \<noteq> None"
  shows "timers_ok w' m"
proof -
  let ?h = "async_handlers w" and ?h' = "async_handlers w'"
  have ok: "events_ok w'" and sb: "same_but_ddl ?h ?h'" and ms: "mset (events_list w') = add_mset e (mset (events_list w))"
    and g: "\<And>b u. (b, u) \<notin> insert (ent_key e) (ent_key ` set (events_list w)) \<Longrightarrow> get_ddl ?h' b u = get_ddl ?h b u"
    using p by (auto simp: pushed_def)
  have L: "set (events_list w') = insert e (set (events_list w))"
    using arg_cong [OF ms, of set_mset] by simp
  have data: "\<exists>k. node_data ?h b = Some k \<and> erase_ddl k' = erase_ddl k" if "b \<in> ran m" "node_data ?h' b = Some k'" for b k'
  proof -
    from dom [OF that(1)] obtain k where k: "node_data ?h b = Some k" by blast
    obtain k2 where "node_data ?h' b = Some k2" "erase_ddl k2 = erase_ddl k" using same_but_ddl_data [OF sb k] .
    then show ?thesis using that(2) k by simp
  qed
  have ent: "ah_remaining x \<noteq> NULL \<and> ah_io_op_data x \<in> ran m
      \<and> (\<forall>k. node_data ?h (ah_io_op_data x) = Some k \<longrightarrow> armed k (ah_event_type x))" if "x \<in> set (events_list w')" for x
    using that tm e n unfolding L timers_ok_def by auto
  have third: "ddl_heap_idx dd = -1 \<or> (b, u) \<in> ent_key ` set (events_list w')"
    if b: "b \<in> ran m" "node_data ?h' b = Some k'" "get_evt_data k' u = Some dd" "callback (handler dd) \<noteq> NULL" for b k' u dd
  proof (cases "(b, u) \<in> insert (ent_key e) (ent_key ` set (events_list w))")
    case True
    then show ?thesis by (simp add: L)
  next
    case False
    obtain k where k: "node_data ?h b = Some k" "erase_ddl k' = erase_ddl k"
      using data [OF b(1,2)] by blast
    obtain d where d: "get_evt_data k u = Some d" "handler dd = handler d" "status dd = status d"
      using erase_ddl_evt [OF k(2) b(3)] .
    have cb: "callback (handler d) \<noteq> NULL" and no: "(b, u) \<notin> ent_key ` set (events_list w)"
      using b(4) d(2) False by simp_all
    have "ddl_heap_idx d = -1"
      using tm b(1) k(1) d(1) cb no unfolding timers_ok_def by blast
    then show ?thesis
      using g [OF False] dom [OF b(1)] b k(1) d(1) by (simp add: get_ddl_data)
  qed
  have "armed k' (ah_event_type x)" if "x \<in> set (events_list w')" "node_data ?h' (ah_io_op_data x) = Some k'" for x k'
    using ent [OF that(1)] data [OF _ that(2)] erase_ddl_same(1) by metis
  then show ?thesis
    using ok ent third unfolding timers_ok_def by blast
qed

lemma svc_inv_pushed:
  assumes inv: "svc_inv w m" and p: "pushed w e w'" and e: "ah_io_op_data e \<in> ran m" "ah_remaining e \<noteq> NULL"
    and n: "node_data (async_handlers w) (ah_io_op_data e) = Some n" "armed n (ah_event_type e)"
  shows "svc_inv w' m"
proof -
  have T: "tree_holds (async_handlers w) m" and pk: "poll_ok w m" and tm: "timers_ok w m"
    using inv by (auto simp: svc_inv_def)
  have sb: "same_but_ddl (async_handlers w) (async_handlers w')"
    using p by (simp add: pushed_def)
  obtain d h where w': "w' = w\<lparr>timed_events_heap := d, async_handlers := h\<rparr>"
    using p unfolding pushed_def by blast
  have "timers_ok w' m"
    by (rule timers_ok_pushed [OF tm p e n]) (rule tree_holds_data [OF T])
  moreover have "poll_ok w' m"
    by (rule poll_ok_ddl [OF pk sb]) (simp add: w')
  moreover have "tree_holds (async_handlers w') m"
    by (rule tree_holds_links [OF T same_but_ddl_links [OF sb]])
  ultimately show ?thesis
    using inv by (simp add: svc_inv_def delay_ok_def w')
qed

section \<open>Scheduling with a deadline\<close>

text \<open>The world after \<open>iosvc_sched_timeout\<close> has read the clock.\<close>

abbreviation ticked :: "'x world_scheme \<Rightarrow> 'x world_scheme" where
  "ticked w \<equiv> w\<lparr>clock := \<lambda>n. clock w (Suc n)\<rparr>"

lemma svc_inv_env [simp]: "svc_inv (w\<lparr>clock := c\<rparr>) m = svc_inv w m" "svc_inv (w\<lparr>ints := i\<rparr>) m = svc_inv w m"
  "svc_inv (w\<lparr>calls := l\<rparr>) m = svc_inv w m" "svc_inv (w\<lparr>svc_status := x\<rparr>) m = svc_inv w m"
  by (simp_all add: svc_inv_def delay_ok_def poll_ok_def timers_ok_def events_ok_def heap_idx_ok_def events_list_def
      del: length_dynarr_list)

lemma sched_timeout_run:
  assumes ms: "milliseconds \<noteq> NULL" and a: "alloc_if (dynarr_full (timed_events_heap w)) (ticked w) = (ok, w1)"
    and em: "dynarr_emplace_back ok (timed_events_heap w) = (Some p, d)"
    and q: "iosvc_enqueue event hnd st w1 = Some (e, out, w2)"
  shows "iosvc_sched_timeout event hnd st milliseconds w = (case out of
      None \<Rightarrow> Some (e, with_heap (dynarr_pop_back d) w2)
    | Some node \<Rightarrow> map_option (Pair e) (push_event p \<lparr>ah_deadline = clock w 0 + ints w milliseconds,
        ah_remaining = milliseconds, ah_io_op_data = node, ah_event_type = ev_wait_type event\<rparr> (with_heap d w2)))"
proof -
  have h: "timed_events_heap w1 = timed_events_heap w"
    using alloc_if_world [OF a] by auto
  show ?thesis
    using ms a em iosvc_enqueue_heap [OF q, of d] h
    by (cases out) (simp_all add: iosvc_sched_timeout_def current_time_def push_event_def Let_def map_option_bind bind_Pair)
qed

lemma sched_timeout_adds:
  assumes inv: "svc_inv w m" and ms: "milliseconds \<noteq> NULL" "0 \<le> clock w 0 + ints w milliseconds"
    and a: "alloc_if (dynarr_full (timed_events_heap w)) (ticked w) = (ok, w1)"
    and em: "dynarr_emplace_back ok (timed_events_heap w) = (Some p, d)"
    and q: "iosvc_enqueue event hnd st w1 = Some (EIO_OK, Some b, w2)" "svc_inv w2 m'" "registered w1 w2 m b n"
      "get_evt_data n (ev_wait_type event) = Some \<lparr>handler = hnd, status = st, ddl_heap_idx = -1\<rparr>"
    and b: "b \<in> ran m'" "callback hnd \<noteq> NULL"
  obtains w' n' where "iosvc_sched_timeout event hnd st milliseconds w = Some (EIO_OK, w')" "svc_inv w' m'"
    "node_data (async_handlers w') b = Some n'" "erase_ddl n' = erase_ddl n"
    "mset (events_list w') = add_mset \<lparr>ah_deadline = clock w 0 + ints w milliseconds, ah_remaining = milliseconds,
       ah_io_op_data = b, ah_event_type = ev_wait_type event\<rparr> (mset (events_list w))"
    "sync_handlers w' = sync_handlers w" "timed_handlers_heap w' = timed_handlers_heap w"
proof -
  let ?e = "\<lparr>ah_deadline = clock w 0 + ints w milliseconds, ah_remaining = milliseconds,
       ah_io_op_data = b, ah_event_type = ev_wait_type event\<rparr>"
  have T: "tree_holds (async_handlers w2) m'" and ok2: "events_ok w2"
    using q(2) by (auto simp: svc_inv_def timers_ok_def)
  have n: "node_data (async_handlers w2) b = Some n" and h2: "timed_events_heap w2 = timed_events_heap w"
    using q(3) alloc_if_world [OF a] by (auto simp: registered_def)
  have "b \<noteq> NULL" using tree_holds_data [OF T b(1)] by simp
  then have g: "get_ddl (async_handlers w2) (ah_io_op_data ?e) (ah_event_type ?e) = Some (-1)"
    using n q(4) by (simp add: get_ddl_data)
  have arm: "armed n (ah_event_type ?e)" using q(4) b(2) by (simp add: armed_Some)
  obtain w' where w': "push_event p ?e (with_heap d w2) = Some w'" "pushed w2 ?e w'"
    using push_event_exec [OF ok2 em [folded h2] g] ms(2) by auto
  obtain n' where n': "node_data (async_handlers w') b = Some n'" "erase_ddl n' = erase_ddl n"
    using same_but_ddl_data [OF _ n] w'(2) by (metis pushed_def)
  have "svc_inv w' m'"
    by (rule svc_inv_pushed [OF q(2) w'(2)]) (use b ms n arm in simp_all)
  moreover have "mset (events_list w') = add_mset ?e (mset (events_list w))"
    using w'(2) h2 by (simp add: pushed_def events_list_def)
  moreover have "iosvc_sched_timeout event hnd st milliseconds w = Some (EIO_OK, w')"
    by (simp add: sched_timeout_run [OF ms(1) a em q(1)] w'(1))
  moreover have "sync_handlers w' = sync_handlers w" "timed_handlers_heap w' = timed_handlers_heap w"
    using w'(2) q(3) alloc_if_world [OF a] by (auto simp: pushed_def registered_def)
  ultimately show ?thesis
    using that n' by blast
qed

lemma enqueue_out:
  assumes "iosvc_enqueue event hnd st w = Some (e, Some n, w')"
  shows "e = EIO_OK"
proof (rule ccontr)
  have at: "out = None" if "enqueue_at place parent b event hnd st w = Some (e, out, w')" "e \<noteq> EIO_OK" for place parent b out
    using that by (auto simp: enqueue_at_def bind_eq_Some Let_def split: prod.splits if_splits option.splits)
  assume "e \<noteq> EIO_OK"
  then show False
    using assms at unfolding iosvc_enqueue_at
    by (auto simp: bind_eq_Some split: if_splits)
qed

lemma sched_timeout_old:
  assumes "svc_inv w m" and "svc_status w \<in> {READY, RUNNING}" and "callback hnd \<noteq> NULL"
    and "m (ev_fd event) = Some a" "node_data (async_handlers w) a = Some n" "\<not> armed n (ev_wait_type event)"
    and "\<forall>i. mallocs w i \<noteq> None" and "milliseconds \<noteq> NULL" "0 \<le> clock w 0 + ints w milliseconds"
  shows "\<exists>w' n' d. iosvc_sched_timeout event hnd st milliseconds w = Some (EIO_OK, w') \<and> svc_inv w' m
    \<and> node_data (async_handlers w') a = Some n' \<and> {u. armed n' u} = insert (ev_wait_type event) {u. armed n u}
    \<and> get_evt_data n' (ev_wait_type event) = Some d \<and> handler d = hnd \<and> status d = st \<and> (\<forall>u. u \<noteq> ev_wait_type event \<longrightarrow> same_event n n' u)
    \<and> mset (events_list w') = add_mset \<lparr>ah_deadline = clock w 0 + ints w milliseconds, ah_remaining = milliseconds,
        ah_io_op_data = a, ah_event_type = ev_wait_type event\<rparr> (mset (events_list w))"
proof -
  have inv: "dynarr_inv (timed_events_heap w)"
    using assms(1) by (simp add: svc_inv_def timers_ok_def events_ok_def heap_idx_ok_def)
  obtain ok w1 where al: "alloc_if (dynarr_full (timed_events_heap w)) (ticked w) = (ok, w1)" by fastforce
  have mem: "\<forall>i. mallocs (ticked w) i \<noteq> None" using assms(7) by simp
  obtain p d where em: "dynarr_emplace_back ok (timed_events_heap w) = (Some p, d)" "\<forall>i. mallocs w1 i \<noteq> None"
      "\<exists>ms. w1 = (ticked w)\<lparr>mallocs := ms\<rparr>"
    by (rule alloc_emplace [OF inv mem al])
  have w1: "async_handlers w1 = async_handlers w" "svc_status w1 = svc_status w" "svc_inv w1 m"
    using em(3) unchanged_svc_inv [of "ticked w" m w1] assms(1) by auto
  have live: "svc_status w1 \<in> {READY, RUNNING}" "node_data (async_handlers w1) a = Some n" "mallocs w1 0 \<noteq> None"
    using assms(2,5) em(2) by (simp_all add: w1)
  obtain w2 n2 where r: "iosvc_enqueue event hnd st w1 = Some (EIO_OK, Some a, w2)" "svc_inv w2 m" "registered w1 w2 m a n2"
      "get_evt_data n2 (ev_wait_type event) = Some \<lparr>handler = hnd, status = st, ddl_heap_idx = -1\<rparr>"
      "{u. armed n2 u} = insert (ev_wait_type event) {u. armed n u}" "\<forall>u. armed n u \<longrightarrow> get_evt_data n2 u = get_evt_data n u"
    using iosvc_enqueue_old [OF w1(3) live(1) assms(3,4) live(2) assms(6) live(3)] .
  obtain w' n' where w': "iosvc_sched_timeout event hnd st milliseconds w = Some (EIO_OK, w')" "svc_inv w' m"
      "node_data (async_handlers w') a = Some n'" "erase_ddl n' = erase_ddl n2"
      "mset (events_list w') = add_mset \<lparr>ah_deadline = clock w 0 + ints w milliseconds, ah_remaining = milliseconds,
         ah_io_op_data = a, ah_event_type = ev_wait_type event\<rparr> (mset (events_list w))"
    by (rule sched_timeout_adds [OF assms(1,8,9) al em(1) r(1-4) ranI [of m, OF assms(4)] assms(3)])
  obtain d' where d': "get_evt_data n' (ev_wait_type event) = Some d'" "handler d' = hnd" "status d' = st"
    by (rule erase_ddl_evt [OF w'(4) [symmetric] r(4)]) simp
  have "{u. armed n' u} = insert (ev_wait_type event) {u. armed n u}"
    using r(5) erase_ddl_same(1) [OF w'(4)] by simp
  moreover have "same_event n n' u" if "u \<noteq> ev_wait_type event" for u
    using same_event_trans [OF kept_same_event [OF r(5,6) that] same_event_erase [OF w'(4)]] .
  ultimately show ?thesis
    using w'(1-3,5) d' by blast
qed

section \<open>Properties\<close>

text \<open>
  C14. Scheduling with a deadline on a known descriptor: the call succeeds, the event becomes pending
  with the caller's handler and status variable, the other events of the descriptor stay as they were,
  exactly one entry is added to the deadline heap, for the current time plus the requested milliseconds and with the variable that will receive the time
  left, and the service invariant is kept: the heap is in order and every timed event knows the
  position of its entry.
\<close>

theorem iosvc_sched_timeout_existing:
  assumes "svc_inv w m" and "svc_status w \<in> {READY, RUNNING}" and "callback hnd \<noteq> NULL"
    and "m (ev_fd event) = Some a" "node_data (async_handlers w) a = Some n" "\<not> armed n (ev_wait_type event)"
    and "\<forall>i. mallocs w i \<noteq> None" and "milliseconds \<noteq> NULL" "0 \<le> clock w 0 + ints w milliseconds"
  shows "\<exists>w' n' d. iosvc_sched_timeout event hnd st milliseconds w = Some (EIO_OK, w') \<and> svc_inv w' m
    \<and> node_data (async_handlers w') a = Some n' \<and> {u. armed n' u} = insert (ev_wait_type event) {u. armed n u}
    \<and> get_evt_data n' (ev_wait_type event) = Some d \<and> handler d = hnd \<and> status d = st \<and> (\<forall>u. u \<noteq> ev_wait_type event \<longrightarrow> same_event n n' u)
    \<and> mset (events_list w') = add_mset \<lparr>ah_deadline = clock w 0 + ints w milliseconds, ah_remaining = milliseconds,
        ah_io_op_data = a, ah_event_type = ev_wait_type event\<rparr> (mset (events_list w))"
  using assms by (rule sched_timeout_old)

theorem iosvc_sched_timeout_existing_witness:
  "\<exists>w' n' d. iosvc_sched_timeout (demo_event 5 WAIT_WRITE) (demo_handler 2) NULL 48
      (demo_service\<lparr>mallocs := \<lambda>_. Some 800, clock := \<lambda>_. 7, ints := \<lambda>_. 100\<rparr>) = Some (EIO_OK, w')
    \<and> svc_inv w' [5 \<mapsto> 16] \<and> node_data (async_handlers w') 16 = Some n' \<and> {u. armed n' u} = {WAIT_WRITE, WAIT_READ}
    \<and> get_evt_data n' WAIT_WRITE = Some d \<and> handler d = demo_handler 2
    \<and> mset (events_list w') = {#\<lparr>ah_deadline = 107, ah_remaining = 48, ah_io_op_data = 16, ah_event_type = WAIT_WRITE\<rparr>#}"
proof -
  let ?w = "demo_service\<lparr>mallocs := \<lambda>_. Some 800, clock := \<lambda>_. 7, ints := \<lambda>_. 100\<rparr>"
  have "svc_inv ?w [5 \<mapsto> 16]"
    using unchanged_svc_inv [OF demo_service(1)] by simp
  moreover have "\<not> armed demo_node WAIT_WRITE" "svc_status ?w \<in> {READY, RUNNING}" "\<forall>i. mallocs ?w i \<noteq> None"
      "node_data (async_handlers ?w) 16 = Some demo_node" "(48 :: addr) \<noteq> NULL" "0 \<le> clock ?w 0 + ints ?w 48"
    using demo_service(2,4,5) by auto
  moreover have "events_list ?w = []"
    by (simp add: events_list_def demo_service(7))
  ultimately show ?thesis
    using iosvc_sched_timeout_existing [of ?w "[5 \<mapsto> 16]" "demo_handler 2" "demo_event 5 WAIT_WRITE" 16 demo_node 48 NULL]
      demo_service(4) demo_cb
    by auto
qed

text \<open>
  C32. A refused \<open>iosvc_sched_timeout\<close> gives back the slot it had reserved in the deadline heap: the heap's
  entries, the descriptor tree and the poll vector are as before and the service invariant holds. The
  exception event of a descriptor without a node is excluded: there, a call refused for want of memory
  leaves the address of a freed node in the tree (\<open>iosvc_sched_dangling\<close>).
\<close>

theorem iosvc_sched_timeout_refused:
  assumes "svc_inv w m" and "m (ev_fd event) = None \<longrightarrow> ev_wait_type event \<noteq> WAIT_EXCEPTION"
    and "iosvc_sched_timeout event hnd st milliseconds w = Some (e, w')" "e \<noteq> EIO_OK"
  shows "svc_inv w' m \<and> events_list w' = events_list w \<and> async_handlers w' = async_handlers w
    \<and> dynarr_list (pollfds w') = dynarr_list (pollfds w)"
proof -
  have ms: "milliseconds \<noteq> NULL"
    using assms(3) by (auto simp: iosvc_sched_timeout_def)
  have inv: "dynarr_inv (timed_events_heap w)"
    using assms(1) by (simp add: svc_inv_def timers_ok_def events_ok_def heap_idx_ok_def)
  obtain ok w1 where al: "alloc_if (dynarr_full (timed_events_heap w)) (ticked w) = (ok, w1)" by fastforce
  obtain mm where w1: "w1 = (ticked w)\<lparr>mallocs := mm\<rparr>" using alloc_if_world [OF al] by blast
  have inv1: "svc_inv w1 m" using assms(1) unchanged_svc_inv [of "ticked w" m w1] by (simp add: w1)
  obtain slot d where em: "dynarr_emplace_back ok (timed_events_heap w) = (slot, d)" by fastforce
  show ?thesis
  proof (cases slot)
    case None
    then have "d = timed_events_heap w"
      using dynarr_emplace_back_fail [of ok "timed_events_heap w"] em by simp
    then have "w' = w1"
      using assms(3) ms al em None w1 by (simp add: iosvc_sched_timeout_def current_time_def)
    then show ?thesis using inv1 by (simp add: w1 events_list_def)
  next
    case (Some p)
    obtain e0 out w2 where q: "iosvc_enqueue event hnd st (with_heap d w1) = Some (e0, out, w2)"
      using assms(3) ms al em Some w1 by (auto simp: iosvc_sched_timeout_def current_time_def bind_eq_Some)
    have "iosvc_enqueue event hnd st w1 = Some (e0, out, with_heap (timed_events_heap w1) w2)"
      using iosvc_enqueue_heap [OF q, of "timed_events_heap w1"] by simp
    note q1 = this
    have run: "(case out of None \<Rightarrow> Some (e0, with_heap (dynarr_pop_back d) w2) | Some node \<Rightarrow> map_option (Pair e0)
        (push_event p \<lparr>ah_deadline = clock w 0 + ints w milliseconds, ah_remaining = milliseconds,
          ah_io_op_data = node, ah_event_type = ev_wait_type event\<rparr> (with_heap d w2))) = Some (e, w')"
      using assms(3) sched_timeout_run [OF ms al em [unfolded Some] q1] by (cases out) simp_all
    have e0: "e0 = e" "out = None" "w' = with_heap (dynarr_pop_back d) w2"
      using run enqueue_out [of event hnd st w1 e0] q1 assms(4) by (cases out; auto)+
    have un: "unchanged w1 (with_heap (timed_events_heap w1) w2)"
      using iosvc_enqueue_refused [OF inv1 assms(2) q1] e0(1) assms(4) by blast
    have pop: "dynarr_inv (dynarr_pop_back d)" "dynarr_list (dynarr_pop_back d) = dynarr_list (timed_events_heap w)"
      using dynarr_emplace_pop [OF inv em [unfolded Some]] .
    have "svc_inv (with_heap (timed_events_heap w1) w2) m"
      by (rule unchanged_svc_inv [OF inv1 un])
    then have "svc_inv w' m"
      using pop by (simp add: e0(3) w1 svc_inv_def delay_ok_def poll_ok_def timers_ok_def events_ok_def heap_idx_ok_def
          events_list_def del: length_dynarr_list)
    moreover obtain ms' d' where d': "with_heap (timed_events_heap w1) w2 = w1\<lparr>mallocs := ms', pollfds := d'\<rparr>"
        "dynarr_list d' = dynarr_list (pollfds w1)"
      using un unfolding unchanged_def by blast
    have "async_handlers w2 = async_handlers w1" "pollfds w2 = d'"
      using arg_cong [OF d'(1), of async_handlers] arg_cong [OF d'(1), of pollfds] unfolding heap_sel by blast+
    ultimately show ?thesis
      using pop d'(2) by (simp add: e0(3) w1 events_list_def)
  qed
qed

theorem iosvc_sched_timeout_refused_witness:
  "\<exists>w'. iosvc_sched_timeout (demo_event 5 WAIT_READ) (demo_handler 2) NULL 48 (fresh_world\<lparr>svc_status := DONE\<rparr>) = Some (EIO_STOPPED, w')
    \<and> svc_inv w' Map.empty \<and> events_list w' = []"
proof -
  let ?w = "fresh_world\<lparr>svc_status := DONE\<rparr>" and ?ev = "demo_event 5 WAIT_READ"
  have inv: "svc_inv ?w Map.empty" "events_list ?w = []"
  proof -
    show "svc_inv ?w Map.empty" using fresh_svc_inv by simp
  qed (simp add: events_list_def fresh_world_def)
  obtain ok w1 where al: "alloc_if (dynarr_full (timed_events_heap ?w)) (ticked ?w) = (ok, w1)" by fastforce
  have "dynarr_inv (timed_events_heap ?w)" "\<forall>i. mallocs (ticked ?w) i \<noteq> None"
    using inv(1) by (simp_all add: svc_inv_def timers_ok_def events_ok_def heap_idx_ok_def fresh_world_def)
  from alloc_emplace [OF this al] obtain p d where em: "dynarr_emplace_back ok (timed_events_heap ?w) = (Some p, d)"
    by metis
  have st: "iosvc_enqueue ?ev (demo_handler 2) NULL w1 = Some (EIO_STOPPED, None, w1)"
    using alloc_if_world [OF al] by (auto simp: iosvc_enqueue_at)
  have w': "iosvc_sched_timeout ?ev (demo_handler 2) NULL 48 ?w = Some (EIO_STOPPED, with_heap (dynarr_pop_back d) w1)"
    using sched_timeout_run [OF _ al em st, of 48] by simp
  have "Map.empty (ev_fd ?ev) = None \<longrightarrow> ev_wait_type ?ev \<noteq> WAIT_EXCEPTION" "EIO_STOPPED \<noteq> EIO_OK" by simp_all
  from iosvc_sched_timeout_refused [OF inv(1) this(1) w' this(2)] show ?thesis
    using w' inv(2) by simp
qed

end
