(* ===== verification/Cleanup_Props.thy ===== *)
theory Cleanup_Props
  imports Timeout_Props
begin

text \<open>
  \<open>ioevt_cleanup_evt\<close> and \<open>iosvc_cancel\<close>: the node of a descriptor without pending events leaves the tree,
  the last entry of the poll vector takes the place of its entry, and the node of that entry learns
  its new index.
\<close>

section \<open>Releasing a node that is not in the tree\<close>

lemma rep_free: "a \<notin> addrs t \<Longrightarrow> rep (s(a := None)) p t \<longleftrightarrow> rep s p t"
  by (induction t arbitrary: p) (auto simp: node_at_def)

lemma tree_holds_free:
  assumes "tree_holds h m" "a \<notin> ran m"
  shows "tree_holds (free_node a h) m"
proof -
  obtain T where T: "rb_tree h T" "tree_map T = m"
    using assms(1) by (auto simp: tree_holds_def)
  then have "a \<notin> addrs T"
    using addrs_ran assms(2) by (auto simp: rb_tree_def)
  then have "rb_tree (free_node a h) T"
    using T(1) by (simp add: rb_tree_def trep_def free_node_def rep_free)
  then show ?thesis using T(2) by (auto simp: tree_holds_def)
qed

section \<open>Nodes and poll entries correspond\<close>

lemma poll_ok_inj:
  assumes "poll_ok w m" "m j = Some a" "m k = Some a"
  shows "j = k"
proof -
  obtain x where "node_data (async_handlers w) a = Some x" "fd x = j" by (rule poll_okE [OF assms(1,2)])
  moreover obtain y where "node_data (async_handlers w) a = Some y" "fd y = k" by (rule poll_okE [OF assms(1,3)])
  ultimately show ?thesis by simp
qed

text \<open>There are as many entries as nodes, so every entry belongs to a node.\<close>

lemma poll_entry_node:
  assumes pk: "poll_ok w m" and fin: "finite (dom m)" and i: "i < length (dynarr_list (pollfds w))"
  obtains k a n where "m k = Some a" "node_data (async_handlers w) a = Some n" "pollfd_idx n = i"
proof -
  let ?P = "dynarr_list (pollfds w)"
  define f where "f k = pollfd_idx (the (node_data (async_handlers w) (the (m k))))" for k
  have f: "f k < length ?P \<and> pfd_fd (?P ! f k) = k" if "k \<in> dom m" for k
  proof -
    from that obtain a where a: "m k = Some a" by blast
    show ?thesis
      by (rule poll_okE [OF pk a]) (simp add: f_def a)
  qed
  have "inj_on f (dom m)"
  proof (rule inj_onI)
    fix x y assume "x \<in> dom m" "y \<in> dom m" and e: "f x = f y"
    then have "pfd_fd (?P ! f x) = x" "pfd_fd (?P ! f y) = y" using f by blast+
    then show "x = y" unfolding e by (rule trans [OF sym])
  qed
  moreover have "length ?P = card (dom m)"
    using pk by (simp add: poll_ok_def Let_def del: length_dynarr_list)
  ultimately have "f ` dom m = {..<length ?P}"
    using f fin by (intro card_subset_eq) (auto simp: card_image simp del: length_dynarr_list)
  then have "i \<in> f ` dom m" using i by simp
  then obtain k where k: "k \<in> dom m" "f k = i" by blast
  then obtain a where a: "m k = Some a" by blast
  show ?thesis
    by (rule poll_okE [OF pk a], rule that [OF a]) (use k(2) a in \<open>simp_all add: f_def\<close>)
qed

text \<open>The poll vector after the entry \<open>i\<close> has been replaced by the last one.\<close>

definition drop_entry :: "nat \<Rightarrow> 'a list \<Rightarrow> 'a list" where
  "drop_entry i P = butlast (P[i := last P])"

lemma drop_entry:
  assumes "i < length P"
  shows "length (drop_entry i P) = length P - 1"
    "j < length P - 1 \<Longrightarrow> drop_entry i P ! j = (if j = i then last P else P ! j)"
  using assms by (auto simp: drop_entry_def nth_butlast)

lemma pollfds_drop:
  assumes P: "dynarr_inv d" and i: "i < length (dynarr_list d)"
  obtains d' d'' where "dynarr_get d (size_dec (d_nelems d)) = Some (last (dynarr_list d))"
    "dynarr_set d i (last (dynarr_list d)) = Some d'" "dynarr_pop_back d' = d''" "dynarr_inv d''"
    "dynarr_list d'' = drop_entry i (dynarr_list d)"
proof -
  have n: "size_dec (d_nelems d) = length (dynarr_list d) - 1" "dynarr_list d \<noteq> []"
  proof -
    show "dynarr_list d \<noteq> []" using i by (metis length_pos_if_in_set list.size(3) not_less_zero)
    then show "size_dec (d_nelems d) = length (dynarr_list d) - 1"
      using P i by simp
  qed
  then have g: "dynarr_get d (size_dec (d_nelems d)) = Some (last (dynarr_list d))"
    using dynarr_get_list [OF P, of "length (dynarr_list d) - 1"] i
    by (simp add: last_conv_nth del: length_dynarr_list)
  obtain d' where d': "dynarr_set d i (last (dynarr_list d)) = Some d'" "dynarr_inv d'"
      "dynarr_list d' = (dynarr_list d)[i := last (dynarr_list d)]"
    using dynarr_set_list [OF P i] .
  have "dynarr_list d' \<noteq> []" using d'(3) n(2) by auto
  from dynarr_pop_back_list [OF d'(2) this] show ?thesis
    using that [OF g d'(1) refl] d'(3) by (simp add: drop_entry_def)
qed

text \<open>The contents of a node once the entry \<open>i\<close> of a poll vector of length \<open>l\<close> has been dropped.\<close>

definition reindex :: "nat \<Rightarrow> nat \<Rightarrow> rb_node \<Rightarrow> rb_node" where
  "reindex l i n = (if pollfd_idx n = l - 1 then n\<lparr>pollfd_idx := i\<rparr> else n)"

lemma reindex_sel [simp]:
  "get_evt_data (reindex l i n) = get_evt_data n" "armed (reindex l i n) = armed n" "fd (reindex l i n) = fd n"
  "node_ok (reindex l i n) = node_ok n" "node_mask (reindex l i n) = node_mask n"
  by (simp_all add: reindex_def node_upd)

lemma poll_index_unique:
  assumes "poll_ok w m" "m j = Some a" "m k = Some b" "node_data (async_handlers w) a = Some x"
    "node_data (async_handlers w) b = Some y" "pollfd_idx x = pollfd_idx y"
  shows "j = k"
  using poll_okE [OF assms(1,2)] poll_okE [OF assms(1,3)] assms(4-6) by (metis option.inject)

text \<open>Node \<open>a\<close> of descriptor \<open>k\<close>, whose poll entry is \<open>i\<close>, is gone.\<close>

definition node_gone :: "'x world_scheme \<Rightarrow> (int \<rightharpoonup> addr) \<Rightarrow> int \<Rightarrow> addr \<Rightarrow> nat \<Rightarrow> 'x world_scheme \<Rightarrow> bool" where
  "node_gone w m k a i w' \<longleftrightarrow> (\<exists>h d. w' = w\<lparr>async_handlers := h, pollfds := d\<rparr> \<and> tree_holds h (m(k := None)) \<and> dynarr_inv d
     \<and> dynarr_list d = drop_entry i (dynarr_list (pollfds w))
     \<and> (\<forall>b n. b \<in> ran m \<longrightarrow> b \<noteq> a \<longrightarrow> node_data (async_handlers w) b = Some n \<longrightarrow>
          node_data h b = Some (reindex (length (dynarr_list (pollfds w))) i n)))"

lemma svc_inv_gone:
  assumes inv: "svc_inv w m" and k: "m k = Some a" "node_data (async_handlers w) a = Some n" "\<forall>u. \<not> armed n u"
    and g: "node_gone w m k a (pollfd_idx n) w'"
  shows "svc_inv w' (m(k := None))"
proof -
  let ?P = "dynarr_list (pollfds w)" and ?h = "async_handlers w" and ?m = "m(k := None)"
  obtain h d where w': "w' = w\<lparr>async_handlers := h, pollfds := d\<rparr>" and T: "tree_holds h ?m" and d: "dynarr_inv d"
      "dynarr_list d = drop_entry (pollfd_idx n) ?P"
    and data: "\<And>b x. b \<in> ran m \<Longrightarrow> b \<noteq> a \<Longrightarrow> node_data ?h b = Some x \<Longrightarrow> node_data h b = Some (reindex (length ?P) (pollfd_idx n) x)"
    using g unfolding node_gone_def by blast
  have pk: "poll_ok w m" and tm: "timers_ok w m" and TH: "tree_holds ?h m"
    using inv by (auto simp: svc_inv_def)
  have fin: "finite (dom m)" using tree_holds_finite [OF TH] .
  have len: "length ?P = card (dom m)" using pk by (simp add: poll_ok_def Let_def del: length_dynarr_list)
  have nk: "fd n = k" "pollfd_idx n < length ?P"
    using poll_okE [OF pk k(1)] k(2) by (metis option.inject)+
  have old: "b \<in> ran m \<and> b \<noteq> a \<and> (\<exists>x. node_data ?h b = Some x)" if "?m j = Some b" for j b
  proof -
    have "m j = Some b" "j \<noteq> k" using that by (auto split: if_splits)
    then show ?thesis
      using poll_ok_inj [OF pk _ k(1)] tree_holds_data [OF TH] ranI [of m j b] by blast
  qed
  have ran: "ran ?m = ran m - {a}"
  proof (intro equalityI subsetI)
    fix b assume "b \<in> ran ?m"
    then obtain j where "?m j = Some b" unfolding ran_def by blast
    then show "b \<in> ran m - {a}" using old by blast
  next
    fix b assume b: "b \<in> ran m - {a}"
    then obtain j where j: "m j = Some b" unfolding ran_def by blast
    then have "j \<noteq> k" using b k(1) by auto
    then have "?m j = Some b" using j by simp
    then show "b \<in> ran ?m" by (rule ranI)
  qed
  have "poll_ok w' ?m"
  proof -
    have "\<exists>x. node_data h b = Some x \<and> fd x = j \<and> node_ok x \<and> pollfd_idx x < length (dynarr_list d)
        \<and> pfd_fd (dynarr_list d ! pollfd_idx x) = j \<and> pfd_events (dynarr_list d ! pollfd_idx x) = node_mask x"
      if j: "?m j = Some b" for j b
    proof -
      have jk: "j \<noteq> k" "m j = Some b" using j by (auto split: if_splits)
      obtain x where x: "node_data ?h b = Some x" "fd x = j" "node_ok x" "pollfd_idx x < length ?P"
          "pfd_fd (?P ! pollfd_idx x) = j" "pfd_events (?P ! pollfd_idx x) = node_mask x"
        using poll_okE [OF pk jk(2)] .
      have ne: "pollfd_idx x \<noteq> pollfd_idx n"
        using poll_index_unique [OF pk jk(2) k(1) x(1) k(2)] jk(1) by blast
      have last: "last ?P = ?P ! (length ?P - 1)"
        using x(4) by (intro last_conv_nth) auto
      show ?thesis
        using data [OF _ _ x(1)] old [OF j] x ne nk(2) drop_entry [OF nk(2)] last
        by (auto simp: d(2) reindex_def node_upd simp del: length_dynarr_list)
    qed
    moreover have "length (dynarr_list d) = card (dom ?m)"
      using drop_entry(1) [OF nk(2)] k(1) fin len card_Diff_singleton [OF domI [of m k a]]
      by (simp add: d(2) del: length_dynarr_list)
    ultimately show ?thesis
      using d(1) by (simp add: poll_ok_def Let_def w' del: length_dynarr_list)
  qed
  moreover have "timers_ok w' ?m"
  proof -
    have ent: "ah_remaining e \<noteq> NULL \<and> ah_io_op_data e \<in> ran ?m \<and> (\<forall>x. node_data ?h (ah_io_op_data e) = Some x \<longrightarrow> armed x (ah_event_type e))"
      if "e \<in> set (events_list w)" for e
      using that tm k(2,3) unfolding timers_ok_def ran by blast
    have same: "\<exists>x. node_data ?h b = Some x \<and> node_data h b = Some (reindex (length ?P) (pollfd_idx n) x)" if "b \<in> ran ?m" for b
      using that data tree_holds_data [OF TH] unfolding ran by blast
    have "events_ok w'"
    proof (rule events_ok_cong [of w])
      show "events_ok w" using tm by (simp add: timers_ok_def)
      show "get_ddl (async_handlers w') (ah_io_op_data e) (ah_event_type e) = get_ddl ?h (ah_io_op_data e) (ah_event_type e)"
        if "e \<in> set (events_list w)" for e
        using same [of "ah_io_op_data e"] ent [OF that] by (auto simp: get_ddl_data w')
    qed (simp add: w')
    moreover have "ddl_heap_idx dd = -1 \<or> (b, u) \<in> ent_key ` set (events_list w)"
      if "b \<in> ran ?m" "node_data h b = Some y" "get_evt_data y u = Some dd" "callback (handler dd) \<noteq> NULL" for b y u dd
    proof -
      from same [OF that(1)] that(2,3) obtain x where x: "node_data ?h b = Some x" "get_evt_data x u = Some dd"
        by auto
      have "b \<in> ran m" using that(1) unfolding ran by blast
      then show ?thesis
        using tm x that(4) unfolding timers_ok_def by blast
    qed
    moreover have "armed y (ah_event_type e)" if "e \<in> set (events_list w)" "node_data h (ah_io_op_data e) = Some y" for e y
      using same [of "ah_io_op_data e"] ent [OF that(1)] that(2) by auto
    moreover have "events_list w' = events_list w" "async_handlers w' = h"
      by (simp_all add: w' events_list_def)
    ultimately show ?thesis
      unfolding timers_ok_def using ent by auto
  qed
  ultimately show ?thesis
    using inv T by (simp add: svc_inv_def delay_ok_def w')
qed

section \<open>Removing a node\<close>

lemma cleanup_exec:
  assumes inv: "svc_inv w m" and k: "m k = Some a" and n: "node_data (async_handlers w) a = Some n"
    and pr: "rb_probe (async_handlers w) Root_ref k = Some (place, parent)" and safe: "extract_safe (async_handlers w) a"
  obtains w' where "ioevt_cleanup_evt place parent w = Some w'" "node_gone w m k a (pollfd_idx n) w'"
proof -
  let ?P = "dynarr_list (pollfds w)" and ?h = "async_handlers w" and ?m = "m(k := None)" and ?i = "pollfd_idx n"
  have pk: "poll_ok w m" and TH: "tree_holds ?h m" and P: "dynarr_inv (pollfds w)"
    using inv by (auto simp: svc_inv_def poll_ok_def Let_def)
  obtain i: "?i < length ?P"
    by (rule poll_okE [OF pk k]) (use n in simp)
  obtain T where T: "rb_tree ?h T" "tree_map T = m" using TH by (auto simp: tree_holds_def)
  obtain h1 T1 where h1: "rb_extract place parent Root_ref ?h = Some (a, h1)" "rb_tree h1 T1" "tree_map T1 = ?m" "rb_frame ?h h1"
    using extract_removes [OF T(1) pr _ safe] k T(2) by auto
  let ?h2 = "free_node a h1"
  have "a \<notin> ran ?m"
    using poll_ok_inj [OF pk _ k] by (auto simp: ran_def split: if_splits)
  then have T2: "tree_holds ?h2 ?m"
    using h1(2,3) by (intro tree_holds_free) (auto simp: tree_holds_def)
  have data2: "node_data ?h2 b = node_data ?h b" if "b \<noteq> a" for b
    using that node_data_frame [OF h1(4), of b] by (simp add: node_data_def free_node_def)
  obtain r where r: "rb_load h1 a = Some r" "pollfd_idx r = ?i"
  proof -
    have "node_data h1 a = Some n" "a \<noteq> NULL"
      using node_data_frame [OF h1(4), of a] n tree_holds_data [OF TH ranI [of m, OF k]] by simp_all
    then show ?thesis using that by (auto simp: node_data_def rb_load_def)
  qed
  obtain d' d where d: "dynarr_get (pollfds w) (size_dec (d_nelems (pollfds w))) = Some (last ?P)"
      "dynarr_set (pollfds w) ?i (last ?P) = Some d'" "dynarr_pop_back d' = d" "dynarr_inv d" "dynarr_list d = drop_entry ?i ?P"
    using pollfds_drop [OF P i] .
  have size: "dynarr_size d = length ?P - 1"
    using d(4,5) drop_entry(1) [OF i] by (simp add: dynarr_size_list del: length_dynarr_list)
  let ?w = "w\<lparr>async_handlers := ?h2, pollfds := d\<rparr>"
  have run: "ioevt_cleanup_evt place parent w =
      (if ?i < length ?P - 1
       then do { moved \<leftarrow> dynarr_get d ?i; (place, _) \<leftarrow> rb_probe ?h2 Root_ref (pfd_fd moved);
                 p \<leftarrow> deref ?h2 place; with_tree (rb_update p (\<lambda>n. n\<lparr>pollfd_idx := ?i\<rparr>)) ?w }
       else Some ?w)"
    using h1(1) r d(1-3) size by (simp add: ioevt_cleanup_evt_def with_pollfds_def Let_def)
  show ?thesis
  proof (cases "?i < length ?P - 1")
    case False
    then have l: "?i = length ?P - 1" using i by linarith
    have "node_data ?h2 b = Some (reindex (length ?P) ?i x)" if "b \<in> ran m" "b \<noteq> a" "node_data ?h b = Some x" for b x
    proof -
      from that(1) obtain j where j: "m j = Some b" unfolding ran_def by blast
      have "pollfd_idx x \<noteq> ?i"
        using poll_index_unique [OF pk j k that(3) n] j k that(2) by auto
      then show ?thesis using data2 [OF that(2)] that(3) l by (simp add: reindex_def)
    qed
    then have "node_gone w m k a ?i ?w"
      using T2 d(4,5) unfolding node_gone_def by blast
    then show ?thesis using that run False by simp
  next
    case True
    have li: "length ?P - 1 < length ?P" using i by linarith
    obtain j b x where x: "m j = Some b" "node_data ?h b = Some x" "pollfd_idx x = length ?P - 1"
      using poll_entry_node [OF pk tree_holds_finite [OF TH] li] .
    have ba: "b \<noteq> a" using x(2,3) n True by auto
    then have jk: "?m j = Some b" using x(1) k by auto
    obtain fdj: "pfd_fd (last ?P) = j"
    proof (rule poll_okE [OF pk x(1)])
      fix y assume "node_data ?h b = Some y" "pfd_fd (?P ! pollfd_idx y) = j"
      then have "pfd_fd (last ?P) = j" using x(2,3) li by (subst last_conv_nth) auto
      then show ?thesis using that by blast
    qed
    obtain pl pa where pl: "rb_probe ?h2 Root_ref j = Some (pl, pa)"
      using probe_runs [OF T2] .
    have dp: "deref ?h2 pl = Some b" using probe_old [OF T2 pl jk] .
    have b0: "b \<noteq> NULL" using tree_holds_data [OF TH ranI [of m, OF x(1)]] by blast
    obtain h3 where h3: "rb_update b (\<lambda>n. n\<lparr>pollfd_idx := ?i\<rparr>) ?h2 = Some h3" "same_links ?h2 h3"
        "node_data h3 b = Some (x\<lparr>pollfd_idx := ?i\<rparr>)" "\<And>c. c \<noteq> b \<Longrightarrow> node_data h3 c = node_data ?h2 c"
      by (rule rb_update_data [of ?h2 b x "\<lambda>n. n\<lparr>pollfd_idx := ?i\<rparr>"]) (use data2 [OF ba] x(2) b0 in simp_all)
    have g: "dynarr_get d ?i = Some (last ?P)"
      using dynarr_get_list [OF d(4), of ?i] drop_entry [OF i] True by (simp add: d(5) del: length_dynarr_list)
    have "ioevt_cleanup_evt place parent w = Some (w\<lparr>async_handlers := h3, pollfds := d\<rparr>)"
      using run True g fdj pl dp h3(1) by (simp add: with_tree_def)
    moreover have "node_data h3 c = Some (reindex (length ?P) ?i y)" if "c \<in> ran m" "c \<noteq> a" "node_data ?h c = Some y" for c y
    proof (cases "c = b")
      case True
      then show ?thesis using h3(3) that(3) x(2,3) by (simp add: reindex_def)
    next
      case False
      from that(1) obtain l where l: "m l = Some c" unfolding ran_def by blast
      have "pollfd_idx y \<noteq> length ?P - 1"
        using poll_index_unique [OF pk l x(1) that(3) x(2)] l x(1,3) False by auto
      then show ?thesis using h3(4) [OF False] data2 [OF that(2)] that(3) by (simp add: reindex_def)
    qed
    then have "node_gone w m k a ?i (w\<lparr>async_handlers := h3, pollfds := d\<rparr>)"
      using tree_holds_links [OF T2 h3(2)] d(4,5) unfolding node_gone_def by blast
    ultimately show ?thesis using that by blast
  qed
qed

section \<open>Cancelling\<close>

lemma probe_links:
  assumes "rb_tree h T" "same_links h h'"
  shows "rb_probe h' Root_ref key = rb_probe h Root_ref key"
proof -
  obtain C p t where loc: "locate key [] (cpar []) T = (C, p, t)"
    by (cases "locate key [] (cpar []) T") auto
  have "trep h (plug [] T)" "trep h' (plug [] T)"
    using assms(1) rb_tree_links [OF assms] by (simp_all add: rb_tree_def)
  from this [THEN probe_loop_locate [OF _ loc]] show ?thesis
    by (simp add: rb_probe_def)
qed

lemma extract_safe_links:
  assumes "same_links h h'" "extract_safe h a"
  shows "extract_safe h' a"
proof -
  have load: "\<exists>n'. rb_load h' p = Some n' \<and> links n' = links n" if "rb_load h p = Some n" for p n
    using that assms(1) by (auto simp: rb_load_def same_links_def split: if_splits)
  obtain n where n: "rb_load h a = Some n" using assms(2) by (auto simp: extract_safe_def split: option.splits)
  obtain n' where n': "rb_load h' a = Some n'" "links n' = links n" using load [OF n] by blast
  show ?thesis
  proof (cases "left n = NULL \<or> right n = NULL")
    case True
    then show ?thesis using n' by (auto simp: extract_safe_def links_def)
  next
    case False
    then obtain l where l: "rb_load h (left n) = Some l" "right l \<noteq> NULL \<or> meta_red (meta l)"
      using assms(2) n by (auto simp: extract_safe_def split: option.splits)
    obtain l' where "rb_load h' (left n) = Some l'" "links l' = links l" using load [OF l(1)] by blast
    then show ?thesis using n' l(2) by (auto simp: extract_safe_def links_def)
  qed
qed

text \<open>
  Callbacks that, while the service is in state \<open>s\<close>, leave it and the values it reports alone and neither call \<open>poll\<close> nor read
  the clock. In the state \<open>STOPPING\<close> the service itself refuses new work.
\<close>

definition detached_in :: "svc_status \<Rightarrow> 'x call \<Rightarrow> bool" where
  "detached_in s call \<longleftrightarrow> (\<forall>h w. svc_status w = s \<longrightarrow> (\<exists>w'. call h w = Some w'
     \<and> io_service.truncate w' = io_service.truncate w \<and> calls w' = calls w \<and> errcs w' = errcs w \<and> ints w' = ints w \<and> polls w' = polls w \<and> clock w' = clock w))"

lemma truncate_fields:
  assumes "io_service.truncate w' = io_service.truncate w"
  shows "sync_handlers w' = sync_handlers w" "timed_handlers_heap w' = timed_handlers_heap w" "pollfds w' = pollfds w"
    "timed_events_heap w' = timed_events_heap w" "async_handlers w' = async_handlers w" "svc_status w' = svc_status w"
  using assms by (simp_all add: io_service.truncate_def)

lemma svc_inv_truncate:
  assumes "io_service.truncate w' = io_service.truncate w"
  shows "svc_inv w' m = svc_inv w m"
  using truncate_fields [OF assms]
  by (simp add: svc_inv_def delay_ok_def poll_ok_def timers_ok_def events_ok_def heap_idx_ok_def events_list_def
      del: length_dynarr_list)

text \<open>The parts of the service that have nothing to do with descriptors are as they were; no deadline has been added.\<close>

definition rest_kept :: "'x world_scheme \<Rightarrow> 'x world_scheme \<Rightarrow> bool" where
  "rest_kept w w' \<longleftrightarrow> sync_handlers w' = sync_handlers w \<and> timed_handlers_heap w' = timed_handlers_heap w \<and> polls w' = polls w \<and> clock w' = clock w
     \<and> set (events_list w') \<subseteq> set (events_list w)"

lemma rest_kept_refl [simp]: "rest_kept w w"
  by (simp add: rest_kept_def)

lemma rest_kept_trans: "rest_kept w v \<Longrightarrow> rest_kept v w' \<Longrightarrow> rest_kept w w'"
  by (auto simp: rest_kept_def)

lemma rest_kept_upd [simp]: "rest_kept v (w\<lparr>async_handlers := h\<rparr>) = rest_kept v w" "rest_kept v (w\<lparr>pollfds := d\<rparr>) = rest_kept v w"
  by (simp_all add: rest_kept_def events_list_def)

text \<open>The event \<open>t\<close> of node \<open>a\<close> has been taken out and its handler called.\<close>

definition called_out ::
  "'x world_scheme \<Rightarrow> (int \<rightharpoonup> addr) \<Rightarrow> addr \<Rightarrow> rb_node \<Rightarrow> io_wait_type \<Rightarrow> io_errcode \<Rightarrow> 'x world_scheme \<Rightarrow> rb_node \<Rightarrow> bool"
where
  "called_out w m a n t st w' n' \<longleftrightarrow> svc_inv w' m \<and> node_data (async_handlers w') a = Some n'
     \<and> {u. armed n' u} = {u. armed n u} - {t} \<and> pollfd_idx n' = pollfd_idx n
     \<and> dynarr_list (pollfds w') = (dynarr_list (pollfds w))[pollfd_idx n := (dynarr_list (pollfds w) ! pollfd_idx n)\<lparr>pfd_events := node_mask n'\<rparr>]
     \<and> set (events_list w') = {e \<in> set (events_list w). ent_key e \<noteq> (a, t)}
     \<and> calls w' = calls w @ [handler (evt_of n t)]
     \<and> errcs w' = (if status (evt_of n t) = NULL then errcs w else (errcs w)(status (evt_of n t) := st))
     \<and> same_links (async_handlers w) (async_handlers w') \<and> others_kept (async_handlers w) (async_handlers w') a t
     \<and> svc_status w' = svc_status w \<and> rest_kept w w'"

lemma dequeue_invoke:
  assumes inv: "svc_inv w m" and k: "m k = Some a" and n: "node_data (async_handlers w) a = Some n" and t: "armed n t"
    and call: "detached_in (svc_status w) call"
  obtains w1 where "iosvc_dequeue a t now st w = Some (handler (evt_of n t), w1)"
    "\<forall>x \<in> set (events_list w). ent_key x = (a, t) \<longrightarrow> ints w1 (ah_remaining x) = time_left x now"
    "\<And>i. \<exists>w2 n2. invoke call (handler (evt_of n t)) (w1\<lparr>ints := i\<rparr>) = Some w2 \<and> called_out w m a n t st w2 n2 \<and> ints w2 = i"
proof -
  obtain w1 n1 where r: "iosvc_dequeue a t now st w = Some (handler (evt_of n t), w1)" "svc_inv w1 m"
    "node_data (async_handlers w1) a = Some n1" "{u. armed n1 u} = {u. armed n u} - {t}"
    "set (events_list w1) = {e \<in> set (events_list w). ent_key e \<noteq> (a, t)}"
    "errcs w1 = (if status (evt_of n t) = NULL then errcs w else (errcs w)(status (evt_of n t) := st))"
    "\<forall>x \<in> set (events_list w). ent_key x = (a, t) \<longrightarrow> ints w1 (ah_remaining x) = time_left x now"
    "\<exists>d h i p e. w1 = w\<lparr>timed_events_heap := d, async_handlers := h, ints := i, errcs := e, pollfds := p\<rparr>"
    "same_links (async_handlers w) (async_handlers w1)" "others_kept (async_handlers w) (async_handlers w1) a t"
    "pollfd_idx n1 = pollfd_idx n"
    "dynarr_list (pollfds w1) = (dynarr_list (pollfds w))[pollfd_idx n := (dynarr_list (pollfds w) ! pollfd_idx n)\<lparr>pfd_events := node_mask n1\<rparr>]"
    by (rule iosvc_dequeue_exec [OF inv k n t, where now = now and st = st]) (rule that)
  have st: "svc_status w1 = svc_status w" "calls w1 = calls w" using r(8) by auto
  have cb: "callback (handler (evt_of n t)) \<noteq> NULL" using t by (auto simp: armed_Some evt_of_def)
  have "\<exists>w2 n2. invoke call (handler (evt_of n t)) (w1\<lparr>ints := i\<rparr>) = Some w2 \<and> called_out w m a n t st w2 n2 \<and> ints w2 = i" for i
  proof -
    let ?v = "w1\<lparr>ints := i, calls := calls w1 @ [handler (evt_of n t)]\<rparr>"
    have "svc_status ?v = svc_status w" by (simp add: st)
    then obtain w2 where w2: "call (handler (evt_of n t)) ?v = Some w2" "io_service.truncate w2 = io_service.truncate ?v"
        "calls w2 = calls ?v" "errcs w2 = errcs ?v" "ints w2 = ints ?v" "polls w2 = polls ?v" "clock w2 = clock ?v"
      using call unfolding detached_in_def by blast
    note f = truncate_fields [OF w2(2)]
    have "svc_inv w2 m"
      unfolding svc_inv_truncate [OF w2(2)] using r(2) by simp
    moreover have "rest_kept w w2"
      using r(5,8) f w2(6,7) by (auto simp: rest_kept_def events_list_def)
    ultimately have "called_out w m a n t st w2 n1"
      using r(3-6,9-12) f w2(3,4) st by (simp add: called_out_def events_list_def)
    moreover have "invoke call (handler (evt_of n t)) (w1\<lparr>ints := i\<rparr>) = Some w2"
      using w2(1) cb by (simp add: invoke_def)
    ultimately show ?thesis using w2(5) by auto
  qed
  then show ?thesis using that r(1,7) by blast
qed

text \<open>An idle node's entry is the one whose flags are all clear.\<close>

lemma cleanup_if_idle_exec:
  assumes inv: "svc_inv w m" and k: "m k = Some a" and n: "node_data (async_handlers w) a = Some n"
    and pr: "rb_probe (async_handlers w) Root_ref k = Some (place, parent)"
    and safe: "{u. armed n u} = {} \<Longrightarrow> extract_safe (async_handlers w) a"
  obtains w' where "cleanup_if_idle place parent w = Some w'"
    "svc_inv w' (if {u. armed n u} = {} then m(k := None) else m)" "\<exists>h d. w' = w\<lparr>async_handlers := h, pollfds := d\<rparr>"
proof -
  let ?P = "dynarr_list (pollfds w)" and ?h = "async_handlers w"
  have pk: "poll_ok w m" and TH: "tree_holds ?h m" and P: "dynarr_inv (pollfds w)"
    using inv by (auto simp: svc_inv_def poll_ok_def Let_def)
  obtain i: "pollfd_idx n < length ?P" and ev: "pfd_events (?P ! pollfd_idx n) = node_mask n"
    by (rule poll_okE [OF pk k]) (use n in simp)
  obtain r where r: "rb_load ?h a = Some r" "pollfd_idx r = pollfd_idx n"
  proof -
    have "a \<noteq> NULL" using tree_holds_data [OF TH ranI [of m, OF k]] by blast
    then show ?thesis using that n by (auto simp: node_data_def rb_load_def)
  qed
  have run: "cleanup_if_idle place parent w = (if {u. armed n u} = {} then ioevt_cleanup_evt place parent w else Some w)"
    using probe_old [OF TH pr k] r dynarr_get_list [OF P i] ev
    by (simp add: cleanup_if_idle_def node_mask_of mask_of_empty)
  show ?thesis
  proof (cases "{u. armed n u} = {}")
    case True
    obtain w' where w': "ioevt_cleanup_evt place parent w = Some w'" "node_gone w m k a (pollfd_idx n) w'"
      using cleanup_exec [OF inv k n pr safe [OF True]] .
    have "svc_inv w' (m(k := None))"
      using svc_inv_gone [OF inv k n _ w'(2)] True by blast
    moreover have "\<exists>h d. w' = w\<lparr>async_handlers := h, pollfds := d\<rparr>"
      using w'(2) unfolding node_gone_def by blast
    ultimately show ?thesis using that [of w'] run w'(1) True by simp
  next
    case False
    have "\<exists>h d. w = w\<lparr>async_handlers := h, pollfds := d\<rparr>"
      by (rule exI [of _ ?h], rule exI [of _ "pollfds w"]) simp
    then show ?thesis
      by (rule that [rotated 2]) (use run inv False in auto)
  qed
qed

lemma cancel_exec:
  assumes "svc_inv w m" and "svc_status w = RUNNING" and "m (ev_fd event) = Some a" "node_data (async_handlers w) a = Some n"
    and "get_evt_data n (ev_wait_type event) = Some d" "callback (handler d) \<noteq> NULL" and "detached_in RUNNING call"
    and "{u. armed n u} = {ev_wait_type event} \<longrightarrow> extract_safe (async_handlers w) a"
  shows "\<exists>w'. iosvc_cancel call event w = Some (EIO_OK, w') \<and> calls w' = calls w @ [handler d]
    \<and> svc_inv w' (if {u. armed n u} = {ev_wait_type event} then m(ev_fd event := None) else m)
    \<and> (status d \<noteq> NULL \<longrightarrow> errcs w' (status d) = EIO_CANCELLED)
    \<and> set (events_list w') = {e \<in> set (events_list w). ent_key e \<noteq> (a, ev_wait_type event)}
    \<and> (\<forall>x \<in> set (events_list w). ent_key x = (a, ev_wait_type event) \<longrightarrow> ints w' (ah_remaining x) = to_int (ah_deadline x))
    \<and> rest_kept w w'"
proof -
  let ?t = "ev_wait_type event" and ?k = "ev_fd event" and ?h = "async_handlers w"
  have TH: "tree_holds ?h m" using assms(1) by (simp add: svc_inv_def)
  obtain T where T: "rb_tree ?h T" "tree_map T = m" using TH by (auto simp: tree_holds_def)
  have t: "armed n ?t" "evt_of n ?t = d"
    using assms(5,6) by (auto simp: armed_Some evt_of_def)
  have call: "detached_in (svc_status w) call" using assms(2,7) by simp
  obtain w1 where w1: "iosvc_dequeue a ?t 0 EIO_CANCELLED w = Some (handler (evt_of n ?t), w1)"
      "\<forall>x \<in> set (events_list w). ent_key x = (a, ?t) \<longrightarrow> ints w1 (ah_remaining x) = time_left x 0"
      "\<And>i. \<exists>w2 n2. invoke call (handler (evt_of n ?t)) (w1\<lparr>ints := i\<rparr>) = Some w2 \<and> called_out w m a n ?t EIO_CANCELLED w2 n2 \<and> ints w2 = i"
    by (rule dequeue_invoke [OF assms(1,3,4) t(1) call]) (rule that)
  from w1(3) [of "ints w1"] obtain w2 n2 where w2: "invoke call (handler d) w1 = Some w2" "called_out w m a n ?t EIO_CANCELLED w2 n2" "ints w2 = ints w1"
    by (auto simp: t(2))
  have c: "svc_inv w2 m" "node_data (async_handlers w2) a = Some n2" "{u. armed n2 u} = {u. armed n u} - {?t}"
      "set (events_list w2) = {e \<in> set (events_list w). ent_key e \<noteq> (a, ?t)}" "calls w2 = calls w @ [handler d]"
      "errcs w2 = (if status d = NULL then errcs w else (errcs w)(status d := EIO_CANCELLED))"
      "same_links ?h (async_handlers w2)" "rest_kept w w2"
    using w2(2) by (simp_all add: called_out_def t(2))
  obtain place parent where pr: "rb_probe ?h Root_ref ?k = Some (place, parent)"
    using probe_runs [OF TH] .
  have pr2: "rb_probe (async_handlers w2) Root_ref ?k = Some (place, parent)"
    using pr probe_links [OF T(1) c(7)] by simp
  have idle: "{u. armed n2 u} = {} \<longleftrightarrow> {u. armed n u} = {?t}" using c(3) t(1) by auto
  obtain w' where w': "cleanup_if_idle place parent w2 = Some w'"
      "svc_inv w' (if {u. armed n2 u} = {} then m(?k := None) else m)" "\<exists>h d. w' = w2\<lparr>async_handlers := h, pollfds := d\<rparr>"
  proof (rule cleanup_if_idle_exec [OF c(1) assms(3) c(2) pr2])
    show "extract_safe (async_handlers w2) a" if "{u. armed n2 u} = {}"
      using that idle assms(8) extract_safe_links [OF c(7)] by simp
  qed (rule that)
  obtain rn where rn: "rb_load ?h a = Some rn" "a \<noteq> NULL" "rb_store ?h a = Some rn" using tree_holds_load [OF TH assms(3)] .
  have "event_armed (get_evt_data rn ?t)"
    using t(1) assms(4) rn(3) by (auto simp: node_data_def armed_def)
  then have "iosvc_cancel call event w = Some (EIO_OK, w')"
    using assms(2) pr probe_old [OF TH pr assms(3)] rn w1(1) t(2) w2(1) w'(1) by (simp add: iosvc_cancel_def)
  moreover have "calls w' = calls w @ [handler d]" "errcs w' = errcs w2" "ints w' = ints w1" "events_list w' = events_list w2" "rest_kept w w'"
    using w'(3) c(5,8) w2(3) by (auto simp: events_list_def)
  moreover have "time_left x 0 = to_int (ah_deadline x)" if "x \<in> set (events_list w)" for x
  proof -
    have "0 \<le> ah_deadline x" using assms(1) that by (simp add: svc_inv_def timers_ok_def events_ok_def)
    then show ?thesis by (cases "ah_deadline x = 0") (simp_all add: time_left_def to_int_def)
  qed
  ultimately show ?thesis
    using w'(2) c(4,6) w1(2) unfolding idle by auto
qed

section \<open>Properties\<close>

text \<open>
  C4. Cancelling a pending event of a running service: the call returns \<open>EIO_OK\<close>, the event's handler is
  called exactly once, with the status \<open>EIO_CANCELLED\<close> reported, its deadline leaves the heap, and a
  descriptor without further events leaves the tree and the poll vector, in which the moved entry's
  node is found again under its new index: the service invariant is kept. The value reported as the
  time left is the absolute deadline, because the current time is passed as zero.
\<close>

theorem iosvc_cancel_correct:
  assumes "svc_inv w m" and "svc_status w = RUNNING" and "m (ev_fd event) = Some a" "node_data (async_handlers w) a = Some n"
    and "get_evt_data n (ev_wait_type event) = Some d" "callback (handler d) \<noteq> NULL" and "detached_in RUNNING call"
    and "{u. armed n u} = {ev_wait_type event} \<longrightarrow> extract_safe (async_handlers w) a"
  shows "\<exists>w'. iosvc_cancel call event w = Some (EIO_OK, w') \<and> calls w' = calls w @ [handler d]
    \<and> svc_inv w' (if {u. armed n u} = {ev_wait_type event} then m(ev_fd event := None) else m)
    \<and> (status d \<noteq> NULL \<longrightarrow> errcs w' (status d) = EIO_CANCELLED)
    \<and> set (events_list w') = {e \<in> set (events_list w). ent_key e \<noteq> (a, ev_wait_type event)}
    \<and> (\<forall>x \<in> set (events_list w). ent_key x = (a, ev_wait_type event) \<longrightarrow> ints w' (ah_remaining x) = to_int (ah_deadline x))
    \<and> rest_kept w w'"
  using assms by (rule cancel_exec)

theorem iosvc_cancel_correct_witness:
  "\<exists>w'. iosvc_cancel (\<lambda>_. Some) (demo_event 5 WAIT_READ) (demo_service\<lparr>svc_status := RUNNING\<rparr>) = Some (EIO_OK, w')
    \<and> calls w' = [demo_handler 1] \<and> svc_inv w' Map.empty \<and> errcs w' 40 = EIO_CANCELLED \<and> set (events_list w') = {}"
proof -
  let ?w = "demo_service\<lparr>svc_status := RUNNING\<rparr>" and ?ev = "demo_event 5 WAIT_READ"
    and ?d = "\<lparr>handler = demo_handler 1, status = 40, ddl_heap_idx = -1\<rparr> :: event_data"
  have h: "svc_inv ?w [5 \<mapsto> 16]" "svc_status ?w = RUNNING" "[5 \<mapsto> 16] (ev_fd ?ev) = Some 16"
      "node_data (async_handlers ?w) 16 = Some demo_node" "get_evt_data demo_node (ev_wait_type ?ev) = Some ?d"
      "callback (handler ?d) \<noteq> NULL" "detached_in RUNNING (\<lambda>_. Some :: world \<Rightarrow> world option)"
    using demo_service demo_cb by (simp_all add: detached_in_def)
  have "extract_safe (async_handlers demo_service) 16"
    unfolding demo_service_def by code_simp
  then have s: "{u. armed demo_node u} = {ev_wait_type ?ev} \<longrightarrow> extract_safe (async_handlers ?w) 16"
    by simp
  have "events_list ?w = []" "calls ?w = []"
    using demo_service(7,8) by (simp_all add: events_list_def)
  then show ?thesis
    using iosvc_cancel_correct [OF h s] demo_service(4) by auto
qed

end
