(* ===== verification/Loop_Timers.thy ===== *)
theory Loop_Timers
  imports Loop_Sync
begin

text \<open>
  Properties of the deadlines of the event loop: scheduling a delayed handler, choosing the next
  deadline, how long to wait for it, and expiry in deadline order; and of the service's states.
\<close>

section \<open>Delayed handlers\<close>

abbreviation delayed :: "'x world_scheme \<Rightarrow> delay_heap_entry list" where
  "delayed w \<equiv> dynarr_list (timed_handlers_heap w)"

text \<open>A delayed handler that is not due before the front one does not take its place.\<close>

lemma post_delay_keeps_front:
  assumes ok: "delay_ok w" and ne: "delayed w \<noteq> []" and late: "dh_deadline (delayed w ! 0) \<le> clock w 0 + ms"
    and r: "iosvc_post_delay hnd st ms w = Some (e, w')"
  shows "delay_ok w' \<and> delayed w' \<noteq> [] \<and> delayed w' ! 0 = delayed w ! 0"
proof -
  have keep: "delay_ok w' \<and> delayed w' \<noteq> [] \<and> delayed w' ! 0 = delayed w ! 0" if "timed_handlers_heap w' = timed_handlers_heap w"
    using that ok ne by (simp add: delay_ok_def)
  show ?thesis
  proof (cases rule: iosvc_post_delay_cases [OF ok, of hnd st ms])
    case (4 m d w1)
    have "timed_handlers_heap w' = d" "delay_ok w'"
      using 4 r by auto
    moreover have "dynarr_list d \<noteq> []"
      using 4(7) by auto
    ultimately show ?thesis
      using 4(8) late ne by (simp add: front_kept_def)
  qed (use r keep in auto)
qed

lemma invoke_Some: "callback h \<noteq> NULL \<Longrightarrow> invoke call h w = call h (w\<lparr>calls := calls w @ [h]\<rparr>)"
  by (simp add: invoke_def)

lemma put_status_sel [simp]:
  "timed_handlers_heap (put_status p e w) = timed_handlers_heap w" "calls (put_status p e w) = calls w"
  by (simp_all add: put_status_def)

section \<open>Properties\<close>

text \<open>
  C27. Scheduling a delayed handler always returns; it adds exactly one entry, due that many
  milliseconds from now, keeps all the others and the heap order, or reports why it did not and
  leaves the heap as it was.
\<close>

theorem iosvc_post_delay_correct:
  assumes "delay_ok w"
  shows "\<exists>e w'. iosvc_post_delay hnd st ms w = Some (e, w') \<and> delay_ok w'
    \<and> mset (delayed w') = mset (delayed w) + (if e = EIO_OK then {# \<lparr>dh_deadline = clock w 0 + ms, dh_handler = hnd, dh_status = st\<rparr> #} else {#})
    \<and> (e = EIO_INVARG \<longleftrightarrow> callback hnd = NULL \<or> ms < 0)
    \<and> (e = EIO_STOPPED \<longleftrightarrow> callback hnd \<noteq> NULL \<and> 0 \<le> ms \<and> svc_status w \<in> {STOPPING, DONE})
    \<and> (e = EIO_NOMEM \<longrightarrow> mallocs w 0 = None) \<and> e \<in> {EIO_OK, EIO_INVARG, EIO_STOPPED, EIO_NOMEM}"
  by (rule iosvc_post_delay_cases [OF assms, of hnd st ms]) (use assms in \<open>auto simp: delay_ok_def\<close>)

theorem iosvc_post_delay_correct_witness:
  "\<exists>e w'. iosvc_post_delay (demo_handler 1) NULL 50 fresh_world = Some (e, w') \<and> delay_ok w' \<and> e \<noteq> EIO_INVARG"
proof -
  have "delay_ok fresh_world" "callback (demo_handler 1) \<noteq> NULL"
    by (simp_all add: delay_ok_def fresh_world_def demo_handler_def)
  then show ?thesis
    using iosvc_post_delay_correct [of fresh_world "demo_handler 1" NULL 50] by auto
qed

text \<open>
  C26. The deadline the loop waits for is the earliest of all delayed handlers and all timed events,
  \<open>-1\<close> when there is none, and it says which of the two kinds it belongs to.
\<close>

theorem next_deadline_earliest:
  assumes "delay_ok w" "events_ok w" "\<forall>x \<in> deadlines w. 0 \<le> x"
  shows "\<exists>is_event. next_deadline w = Some (if deadlines w = {} then -1 else Min (deadlines w), is_event)
    \<and> (is_event = None \<longleftrightarrow> deadlines w = {})
    \<and> (is_event = Some True \<longrightarrow> Min (deadlines w) \<in> ah_deadline ` set (events_list w))
    \<and> (is_event = Some False \<longrightarrow> Min (deadlines w) \<in> dh_deadline ` set (delayed w))"
  using assms by (rule next_deadline_min)

definition demo_delayed :: world where
  "demo_delayed = fresh_world\<lparr>timed_handlers_heap := \<lparr>d_data = [Some \<lparr>dh_deadline = 30, dh_handler = demo_handler 1, dh_status = 40\<rparr>,
      Some \<lparr>dh_deadline = 70, dh_handler = demo_handler 2, dh_status = NULL\<rparr>], d_nelems = 2, d_capacity = 2, d_obj_size = 32\<rparr>\<rparr>"

lemma demo_delayed_ok: "delay_ok demo_delayed" "events_list demo_delayed = []"
    "delayed demo_delayed = [\<lparr>dh_deadline = 30, dh_handler = demo_handler 1, dh_status = 40\<rparr>,
       \<lparr>dh_deadline = 70, dh_handler = demo_handler 2, dh_status = NULL\<rparr>]"
  by (auto simp: delay_ok_def demo_delayed_def dynarr_inv_def dynarr_list_def is_heap_def heap_up_def less_Suc_eq
      events_list_def fresh_world_def dynarr_init_def numeral_2_eq_2)

theorem next_deadline_earliest_witness:
  "\<exists>is_event. next_deadline demo_delayed = Some (30, is_event) \<and> is_event \<noteq> None"
proof -
  have "events_ok demo_delayed"
    using demo_delayed_ok(2) by (simp add: events_ok_def heap_idx_ok_def) (simp add: demo_delayed_def fresh_world_def)
  moreover have "deadlines demo_delayed = {30, 70}"
    using demo_delayed_ok by (auto simp: deadlines_def)
  ultimately show ?thesis
    using next_deadline_earliest [of demo_delayed] demo_delayed_ok(1) by auto
qed

text \<open>
  Expiry of the delayed handler at the front: its status is reported, it is called once, and
  exactly its entry leaves the heap, as long as the handler leaves it at the front. What handlers may
  do keeps it there: scheduling a delayed handler due no earlier does (\<open>post_delay_keeps_front\<close>).
\<close>

lemma timeout_delayed_correct:
  assumes ok: "delay_ok w" and ne: "delayed w \<noteq> []"
    and x: "x = delayed w ! 0" "callback (dh_handler x) \<noteq> NULL"
    and call: "call (dh_handler x) ((put_status (dh_status x) EIO_OK w)\<lparr>calls := calls w @ [dh_handler x]\<rparr>) = Some w1"
    and kept: "delay_ok w1" "delayed w1 \<noteq> []" "delayed w1 ! 0 = x"
  shows "\<exists>w'. timeout_first call False now w = Some w' \<and> delay_ok w'
    \<and> mset (delayed w1) = add_mset x (mset (delayed w')) \<and> (\<exists>d. w' = w1\<lparr>timed_handlers_heap := d\<rparr>)"
proof -
  have g: "dynarr_get (timed_handlers_heap w) (dynarr_front (timed_handlers_heap w)) = Some x"
    using ok ne x(1) by (simp add: delay_ok_def dynarr_get_list dynarr_front_def del: length_dynarr_list)
  have c: "invoke call (dh_handler x) (put_status (dh_status x) EIO_OK w) = Some w1"
    using call x(2) by (simp add: invoke_Some)
  obtain d where d: "drop_front (timed_handlers_heap w1) = Some d" "dynarr_inv d" "is_heap (map dh_deadline (dynarr_list d))"
      "mset (delayed w1) = add_mset (delayed w1 ! 0) (mset (dynarr_list d))"
    using drop_front_exec [of "timed_handlers_heap w1"] kept by (auto simp: delay_ok_def)
  have "timeout_first call False now w = Some (w1\<lparr>timed_handlers_heap := d\<rparr>)"
    using g c d(1) by (simp add: timeout_first_def timeout_delayed_drop)
  then show ?thesis
    using d kept by (auto simp: delay_ok_def)
qed

text \<open>Expiring the front entry again and again, with handlers that schedule nothing.\<close>

primrec expire :: "nat \<Rightarrow> 'x call \<Rightarrow> int \<Rightarrow> 'x world_scheme \<Rightarrow> 'x world_scheme option" where
  "expire 0 call now w = Some w"
| "expire (Suc n) call now w = do { w \<leftarrow> timeout_first call False now w; expire n call now w }"

definition quiet :: "'x call \<Rightarrow> bool" where
  "quiet call \<longleftrightarrow> (\<forall>h w. \<exists>w'. call h w = Some w' \<and> timed_handlers_heap w' = timed_handlers_heap w \<and> calls w' = calls w)"

lemma timeout_quiet:
  assumes q: "quiet call" and ok: "delay_ok w" and ne: "delayed w \<noteq> []" and cb: "callback (dh_handler (delayed w ! 0)) \<noteq> NULL"
  obtains w' where "timeout_first call False now w = Some w'" "delay_ok w'" "calls w' = calls w @ [dh_handler (delayed w ! 0)]"
    "mset (delayed w) = add_mset (delayed w ! 0) (mset (delayed w'))"
proof -
  let ?x = "delayed w ! 0"
  obtain w1 where w1: "call (dh_handler ?x) ((put_status (dh_status ?x) EIO_OK w)\<lparr>calls := calls w @ [dh_handler ?x]\<rparr>) = Some w1"
      "timed_handlers_heap w1 = timed_handlers_heap w" "calls w1 = calls w @ [dh_handler ?x]"
    using q unfolding quiet_def by fastforce
  have g: "dynarr_get (timed_handlers_heap w) (dynarr_front (timed_handlers_heap w)) = Some ?x"
    using ok ne by (simp add: delay_ok_def dynarr_get_list dynarr_front_def del: length_dynarr_list)
  obtain d where d: "drop_front (timed_handlers_heap w) = Some d" "dynarr_inv d" "is_heap (map dh_deadline (dynarr_list d))"
      "mset (delayed w) = add_mset ?x (mset (dynarr_list d))"
    using drop_front_exec [of "timed_handlers_heap w"] ok ne by (auto simp: delay_ok_def)
  have "timeout_first call False now w = Some (w1\<lparr>timed_handlers_heap := d\<rparr>)"
    using g w1 cb d(1) by (simp add: timeout_first_def timeout_delayed_drop invoke_Some)
  then show ?thesis
    using that d w1(3) by (simp add: delay_ok_def)
qed

text \<open>Delayed handlers expire in the order of their deadlines: letting the front one expire as often as
  there are entries calls every handler exactly once, sorted by deadline, and empties the heap.
\<close>

lemma expire_sorted:
  assumes "quiet call" and "delay_ok w" and "\<forall>x \<in> set (delayed w). callback (dh_handler x) \<noteq> NULL"
  shows "\<exists>xs w'. expire (length (delayed w)) call now w = Some w' \<and> calls w' = calls w @ map dh_handler xs
    \<and> sorted (map dh_deadline xs) \<and> mset xs = mset (delayed w) \<and> delayed w' = []"
proof -
  have "\<exists>xs w'. expire n call now w = Some w' \<and> calls w' = calls w @ map dh_handler xs
      \<and> sorted (map dh_deadline xs) \<and> mset xs = mset (delayed w) \<and> delayed w' = []"
    if "length (delayed w) = n" "delay_ok w" "\<forall>x \<in> set (delayed w). callback (dh_handler x) \<noteq> NULL" for n w
    using that
  proof (induction n arbitrary: w)
    case 0
    then show ?case by (intro exI [of _ "[]"]) simp
  next
    case (Suc n)
    let ?x = "delayed w ! 0"
    have ne: "delayed w \<noteq> []" and x: "?x \<in> set (delayed w)" using Suc.prems(1) by (auto simp del: length_dynarr_list)
    obtain w1 where w1: "timeout_first call False now w = Some w1" "delay_ok w1" "calls w1 = calls w @ [dh_handler ?x]"
        "mset (delayed w) = add_mset ?x (mset (delayed w1))"
      using timeout_quiet [OF assms(1) Suc.prems(2) ne] Suc.prems(3) x by metis
    have len: "length (delayed w1) = n"
      using arg_cong [OF w1(4), of size] Suc.prems(1) by (simp del: length_dynarr_list)
    have sub: "set (delayed w1) \<subseteq> set (delayed w)"
      using arg_cong [OF w1(4), of set_mset] by auto
    then have "\<forall>y \<in> set (delayed w1). callback (dh_handler y) \<noteq> NULL" using Suc.prems(3) by blast
    from Suc.IH [OF len w1(2) this] obtain xs w' where xs: "expire n call now w1 = Some w'" "calls w' = calls w1 @ map dh_handler xs"
        "sorted (map dh_deadline xs)" "mset xs = mset (delayed w1)" "delayed w' = []" by blast
    have "dh_deadline ?x \<le> dh_deadline y" if "y \<in> set xs" for y
    proof -
      have "y \<in> set (delayed w)" using that xs(4) sub by (metis mset_eq_setD subsetD)
      then show ?thesis
        using heap_front [of dh_deadline "delayed w"] Suc.prems(2) ne by (simp add: Min_le delay_ok_def)
    qed
    then show ?case
      using w1 xs by (intro exI [of _ "?x # xs"] exI [of _ w']) auto
  qed
  then show ?thesis
    using assms(2,3) by blast
qed

text \<open>The time handed to \<open>poll\<close> is exact: for a deadline at most \<open>INT_MAX\<close> milliseconds away it is the
  remaining time, zero once the deadline has passed, and it is negative, an unlimited wait, exactly
  when there is no deadline.
\<close>

lemma poll_delay_exact:
  assumes "deadline = -1 \<or> 0 \<le> deadline" and "deadline - poll_time \<le> INT_MAX"
  shows "poll_delay deadline poll_time = (if deadline = -1 then -1 else max 0 (deadline - poll_time))
    \<and> (poll_delay deadline poll_time < 0 \<longleftrightarrow> deadline = -1) \<and> poll_delay deadline poll_time \<le> INT_MAX"
  using assms by (auto simp: poll_delay_def to_int_id max_def)

section \<open>The states of the service\<close>

text \<open>The life of a service: it is started, may be asked to stop, ends, and can be reset.\<close>

inductive svc_step :: "svc_status \<Rightarrow> svc_status \<Rightarrow> bool" where
  start: "svc_step READY RUNNING"
| stop: "svc_step RUNNING STOPPING"
| finish: "svc_step RUNNING DONE"
| stopped: "svc_step STOPPING DONE"
| reset: "svc_step DONE READY"

inductive_simps svc_step_iff: "svc_step a b"

text \<open>
  Stopping and resetting follow the service's life cycle: each returns \<open>EIO_OK\<close> exactly when it
  makes a step or when resetting changes nothing, and nothing but the state changes. A second stop request is
  reported as \<open>EIO_INPROGRESS\<close>, a request while the loop is not running as \<open>EIO_NOENTRY\<close>, where the
  documentation of \<open>iosvc_stop\<close> names \<open>EIO_INVARG\<close>.
\<close>

lemma stop_reset_states:
  "(case iosvc_stop w of (e, w') \<Rightarrow>
      e = (case svc_status w of RUNNING \<Rightarrow> EIO_OK | STOPPING \<Rightarrow> EIO_INPROGRESS | _ \<Rightarrow> EIO_NOENTRY)
      \<and> (if e = EIO_OK then svc_step (svc_status w) (svc_status w') else w' = w) \<and> (\<exists>s. w' = w\<lparr>svc_status := s\<rparr>))
   \<and> (case iosvc_reset w of (e, w') \<Rightarrow>
      e = (if svc_status w \<in> {READY, DONE} then EIO_OK else EIO_INPROGRESS)
      \<and> (if e = EIO_OK then svc_status w' = READY \<and> (svc_status w = READY \<or> svc_step (svc_status w) READY) else w' = w)
      \<and> (\<exists>s. w' = w\<lparr>svc_status := s\<rparr>))"
proof -
  have "\<exists>s. w = w\<lparr>svc_status := s\<rparr>"
    by (rule exI [of _ "svc_status w"]) simp
  then show ?thesis
    by (cases "svc_status w") (auto simp: iosvc_stop_def iosvc_reset_def svc_step_iff)
qed

end
