(* ===== verification/Stop_Props.thy ===== *)
theory Stop_Props
  imports Cleanup_Props Loop_Timers
begin

text \<open>
  Releasing the whole tree: \<open>iosvc_delete\<close>, and \<open>iosvc_prep_stop\<close>, which calls every pending handler
  once with the status \<open>EIO_STOPPED\<close> before it releases it.
\<close>

section \<open>Memory below a node\<close>

abbreviation without :: "addr set \<Rightarrow> rb_heap \<Rightarrow> rb_heap" where
  "without A h \<equiv> h\<lparr>rb_store := rb_store h |` (- A)\<rparr>"

lemma without_without: "without A (without B h) = without (B \<union> A) h"
  by (simp add: Int_commute Un_commute)

lemma free_node_without: "free_node a h = without {a} h"
  by (auto simp: free_node_def restrict_map_def fun_eq_iff)

text \<open>What a tree's representation says of its root node and its two subtrees, which share no node.\<close>

lemma rep_parts:
  assumes "rep (rb_store h) p (Nd c l a k r)" "distinct (map fst (inorder (Nd c l a k r)))"
  obtains n where "rb_store h a = Some n" "rb_load h a = Some n" "left n = ptr l" "right n = ptr r" "a \<noteq> NULL"
    "rep (rb_store h) a l" "rep (rb_store h) a r" "distinct (map fst (inorder l))" "distinct (map fst (inorder r))"
    "a \<notin> addrs l" "a \<notin> addrs r" "addrs l \<inter> addrs r = {}"
proof -
  have "addrs l = set (map fst (inorder l))" "addrs r = set (map fst (inorder r))"
    by (simp_all add: addrs_inorder)
  then show ?thesis
    using assms that by (auto simp: node_at_def rb_load_def)
qed

section \<open>Deletion\<close>

lemma del_rb_node_frees:
  "rep (rb_store h) p t \<Longrightarrow> distinct (map fst (inorder t)) \<Longrightarrow> del_rb_node (ptr t) h = Some (without (addrs t) h)"
proof (induction t arbitrary: p h)
  case Lf
  then show ?case by (subst del_rb_node.simps) (simp add: restrict_map_def)
next
  case (Nd c l a k r)
  obtain n where n: "rb_store h a = Some n" "rb_load h a = Some n" "left n = ptr l" "right n = ptr r" "a \<noteq> NULL"
      "rep (rb_store h) a l" "rep (rb_store h) a r" "distinct (map fst (inorder l))" "distinct (map fst (inorder r))"
      "a \<notin> addrs l" "a \<notin> addrs r" "addrs l \<inter> addrs r = {}"
    using rep_parts [OF Nd.prems] .
  let ?n = "n\<lparr>aux_event := None, ex_event := None\<rparr>"
  let ?h = "h\<lparr>rb_store := (rb_store h)(a \<mapsto> ?n)\<rparr>"
  have l: "del_rb_node (ptr l) ?h = Some (without (addrs l) ?h)"
  proof (rule Nd.IH(1) [OF _ n(8)])
    show "rep (rb_store ?h) a l" using n by (subst rep_cong [of l _ "rb_store h"]) auto
  qed
  have "rep (rb_store (without (addrs l) ?h)) a r"
    using n by (subst rep_cong [of r _ "rb_store h"]) (auto simp: restrict_map_def)
  from Nd.IH(2) [OF this n(9)] have r: "del_rb_node (ptr r) (without (addrs l) ?h) = Some (without (addrs l \<union> addrs r) ?h)"
    unfolding without_without .
  have "rb_update a (\<lambda>n. n\<lparr>aux_event := None, ex_event := None\<rparr>) h = Some ?h"
    using n by (simp add: rb_update_Some)
  moreover have "rb_load ?h a = Some ?n" "rb_load (without (addrs l) ?h) a = Some ?n" "rb_load (without (addrs l \<union> addrs r) ?h) a = Some ?n"
    using n by (simp_all add: rb_load_def)
  ultimately have "del_rb_node a h = Some (free_node a (without (addrs l \<union> addrs r) ?h))"
    using l r n by (subst del_rb_node.simps) simp
  also have "free_node a (without (addrs l \<union> addrs r) ?h) = without (addrs (Nd c l a k r)) h"
    by (auto simp: free_node_def restrict_map_def fun_eq_iff)
  finally show ?case by simp
qed

section \<open>Stopping one event\<close>

text \<open>\<open>stopped w es w'\<close>: the handlers of \<open>es\<close> have been called in this order, their statuses reported, and
  nothing of the service but its tree has changed.\<close>

definition stopped :: "'x world_scheme \<Rightarrow> (io_handler \<times> addr) list \<Rightarrow> 'x world_scheme \<Rightarrow> bool" where
  "stopped w es w' \<longleftrightarrow> io_service.truncate (w'\<lparr>async_handlers := async_handlers w\<rparr>) = io_service.truncate w
     \<and> calls w' = calls w @ map fst es
     \<and> errcs w' = (\<lambda>x. if x \<noteq> NULL \<and> x \<in> snd ` set es then EIO_STOPPED else errcs w x)"

lemma stopped_fields:
  assumes "stopped w es w'"
  shows "sync_handlers w' = sync_handlers w" "timed_handlers_heap w' = timed_handlers_heap w" "pollfds w' = pollfds w"
    "timed_events_heap w' = timed_events_heap w" "svc_status w' = svc_status w"
  using assms truncate_fields [of "w'\<lparr>async_handlers := async_handlers w\<rparr>" w] by (simp_all add: stopped_def)

lemma stopped_trans:
  assumes "stopped w es w1" "stopped w1 fs w'"
  shows "stopped w (es @ fs) w'"
  using assms stopped_fields [OF assms(1)] stopped_fields [OF assms(2)]
  by (auto simp: stopped_def io_service.truncate_def fun_eq_iff)

lemma stopped_tree: "stopped w es w' \<Longrightarrow> stopped w es (w'\<lparr>async_handlers := h\<rparr>)"
  by (simp add: stopped_def)

lemma stopped_Nil: "stopped w [] w"
  by (simp add: stopped_def)

abbreviation evt_note :: "event_data \<Rightarrow> io_handler \<times> addr" where
  "evt_note e \<equiv> (handler e, status e)"

text \<open>A timed event's entry is where the event says, with a variable for the time left.\<close>

definition stoppable :: "async_heap_entry dynarray \<Rightarrow> event_data \<Rightarrow> bool" where
  "stoppable d e \<longleftrightarrow> callback (handler e) \<noteq> NULL \<longrightarrow> ddl_heap_idx e < 0
     \<or> nat (ddl_heap_idx e) < length (dynarr_list d) \<and> ah_remaining (dynarr_list d ! nat (ddl_heap_idx e)) \<noteq> NULL"

lemma invoke_stopped:
  assumes call: "detached_in (svc_status w) call" and cb: "callback h \<noteq> NULL"
  obtains w' where "invoke call h ((put_status p EIO_STOPPED w)\<lparr>ints := i\<rparr>) = Some w'" "stopped w [(h, p)] w'"
    "async_handlers w' = async_handlers w"
proof -
  let ?w2 = "(put_status p EIO_STOPPED w)\<lparr>ints := i, calls := calls w @ [h]\<rparr>"
  have "svc_status ?w2 = svc_status w" by (simp add: put_status_def)
  then obtain w' where w': "call h ?w2 = Some w'" "io_service.truncate w' = io_service.truncate ?w2"
      "calls w' = calls ?w2" "errcs w' = errcs ?w2"
    using call unfolding detached_in_def by blast
  have "stopped w [(h, p)] w'" "async_handlers w' = async_handlers w"
    using w'(2-4) truncate_fields [OF w'(2)] by (auto simp: stopped_def put_status_def io_service.truncate_def)
  then show ?thesis using that w'(1) cb by (simp add: invoke_def)
qed

lemma stop_handler_exec:
  assumes call: "detached_in (svc_status w) call" and cb: "callback (handler e) \<noteq> NULL"
    and d: "dynarr_inv (timed_events_heap w)" "stoppable (timed_events_heap w) e" "hp = d_capacity (timed_events_heap w)"
  obtains w' where "stop_handler call e now hp w = Some w'" "stopped w [evt_note e] w'" "async_handlers w' = async_handlers w"
proof -
  let ?w1 = "put_status (status e) EIO_STOPPED w"
  have t: "timed_events_heap ?w1 = timed_events_heap w" by (simp add: put_status_def)
  obtain i where i: "(if ddl_heap_idx e \<ge> 0
        then do { heap_ent \<leftarrow> dynarr_deref hp (timed_events_heap ?w1) (nat (ddl_heap_idx e));
                  let remaining = ah_deadline heap_ent - now;
                  put_int (ah_remaining heap_ent) (if remaining > 0 then to_int remaining else 0) ?w1 }
        else Some ?w1) = Some (?w1\<lparr>ints := i\<rparr>)"
  proof (cases "ddl_heap_idx e \<ge> 0")
    case True
    then have "dynarr_deref hp (timed_events_heap w) (nat (ddl_heap_idx e)) = Some (dynarr_list (timed_events_heap w) ! nat (ddl_heap_idx e))"
        "ah_remaining (dynarr_list (timed_events_heap w) ! nat (ddl_heap_idx e)) \<noteq> NULL"
      using d cb by (auto simp: stoppable_def dynarr_deref_def dynarr_get_list simp del: length_dynarr_list)
    then show ?thesis using that True by (simp add: t put_int_def Let_def)
  next
    case False
    then show ?thesis using that [of "ints ?w1"] by simp
  qed
  obtain w' where "invoke call (handler e) (?w1\<lparr>ints := i\<rparr>) = Some w'" "stopped w [evt_note e] w'" "async_handlers w' = async_handlers w"
    using invoke_stopped [OF call cb] .
  then show ?thesis
    using that i unfolding stop_handler_def Let_def by simp
qed

section \<open>Stopping the events of a tree\<close>

text \<open>The pending events of a node, in the order of its storage.\<close>

definition slot_events :: "rb_node \<Rightarrow> evt_slot \<Rightarrow> event_data list" where
  "slot_events n sl = (case slot_event n sl of None \<Rightarrow> [] | Some e \<Rightarrow> if callback (handler e) \<noteq> NULL then [e] else [])"

definition node_events :: "rb_node \<Rightarrow> event_data list" where
  "node_events n = slot_events n Main_slot @ slot_events n Aux_slot @ slot_events n Ex_slot"

lemma node_events_payload [simp]: "node_events (payload n) = node_events n"
  by (simp add: node_events_def slot_events_def payload_def)

lemma node_events_armed:
  assumes "node_ok n"
  shows "set (node_events n) = {d. \<exists>t. get_evt_data n t = Some d \<and> callback (handler d) \<noteq> NULL}"
proof -
  have ex: "(\<exists>t. P t) \<longleftrightarrow> P WAIT_READ \<or> P WAIT_WRITE \<or> P WAIT_EXCEPTION" for P
    by (metis io_wait_type.exhaust)
  show ?thesis
    using assms unfolding ex
    by (cases "main_ev n"; cases "aux_event n"; cases "ex_event n")
      (auto simp: node_events_def slot_events_def node_ok_def get_evt_data_def get_evt_slot_def event_armed_def split: if_splits)
qed

lemma stop_slot_exec:
  assumes call: "detached_in (svc_status w) call" and n: "rb_load (async_handlers w) a = Some n"
    and d: "dynarr_inv (timed_events_heap w)" "\<And>e. slot_event n sl = Some e \<Longrightarrow> stoppable (timed_events_heap w) e"
      "hp = d_capacity (timed_events_heap w)"
  obtains w' where "stop_slot call sl a now hp w = Some w'" "stopped w (map evt_note (slot_events n sl)) w'"
    "async_handlers w' = async_handlers w"
proof (cases "slot_events n sl")
  case Nil
  then have "stop_slot call sl a now hp w = Some w"
    using n by (auto simp: stop_slot_def slot_events_def split: option.splits if_splits)
  then show ?thesis using that Nil stopped_Nil [of w] by simp
next
  case (Cons e es)
  then have e: "slot_event n sl = Some e" "callback (handler e) \<noteq> NULL" "es = []"
    by (auto simp: slot_events_def split: option.splits if_splits)
  obtain w' where "stop_handler call e now hp w = Some w'" "stopped w [evt_note e] w'" "async_handlers w' = async_handlers w"
    using stop_handler_exec [OF call e(2) d(1) d(2) [OF e(1)] d(3)] .
  then show ?thesis using that n e Cons by (simp add: stop_slot_def)
qed

lemma stop_node_exec:
  assumes call: "detached_in (svc_status w) call" and n: "rb_load (async_handlers w) a = Some n"
    and d: "dynarr_inv (timed_events_heap w)" "\<And>sl e. slot_event n sl = Some e \<Longrightarrow> stoppable (timed_events_heap w) e"
      "hp = d_capacity (timed_events_heap w)"
  obtains w1 w2 w3 where "stop_slot call Main_slot a now hp w = Some w1" "stop_slot call Aux_slot a now hp w1 = Some w2"
    "stop_slot call Ex_slot a now hp w2 = Some w3" "stopped w (map evt_note (node_events n)) w3"
    "async_handlers w3 = async_handlers w"
proof -
  obtain w1 where w1: "stop_slot call Main_slot a now hp w = Some w1" "stopped w (map evt_note (slot_events n Main_slot)) w1"
      "async_handlers w1 = async_handlers w"
    using stop_slot_exec [OF call n d(1) d(2) d(3)] .
  obtain w2 where w2: "stop_slot call Aux_slot a now hp w1 = Some w2" "stopped w1 (map evt_note (slot_events n Aux_slot)) w2"
      "async_handlers w2 = async_handlers w1"
    by (rule stop_slot_exec [of w1 call a n Aux_slot hp now]) (use call n d d(2) [of Aux_slot] stopped_fields [OF w1(2)] w1(3) in auto)
  obtain w3 where w3: "stop_slot call Ex_slot a now hp w2 = Some w3" "stopped w2 (map evt_note (slot_events n Ex_slot)) w3"
      "async_handlers w3 = async_handlers w2"
    by (rule stop_slot_exec [of w2 call a n Ex_slot hp now])
      (use call n d d(2) [of Ex_slot] stopped_fields [OF w1(2)] stopped_fields [OF w2(2)] w1(3) w2(3) in auto)
  have "stopped w (map evt_note (node_events n)) w3"
    using stopped_trans [OF w1(2) stopped_trans [OF w2(2) w3(2)]] by (simp add: node_events_def)
  then show ?thesis using that w1 w2 w3 by auto
qed

fun preorder :: "rbt \<Rightarrow> addr list" where
  "preorder Lf = []"
| "preorder (Nd c l a k r) = a # preorder l @ preorder r"

lemma set_preorder [simp]: "set (preorder t) = addrs t"
  by (induction t) auto

lemma distinct_preorder: "distinct (map fst (inorder t)) \<Longrightarrow> distinct (preorder t)"
proof (induction t)
  case (Nd c l a k r)
  have "addrs l = set (map fst (inorder l))" "addrs r = set (map fst (inorder r))"
    by (simp_all add: addrs_inorder)
  then show ?case using Nd by auto
qed simp

abbreviation tree_events :: "(addr \<rightharpoonup> rb_node) \<Rightarrow> rbt \<Rightarrow> event_data list" where
  "tree_events s t \<equiv> concat (map (\<lambda>a. node_events (the (s a))) (preorder t))"

lemma tree_events_cong: "(\<And>a. a \<in> addrs t \<Longrightarrow> s' a = s a) \<Longrightarrow> tree_events s' t = tree_events s t"
  by (intro arg_cong [of _ _ concat] map_cong) auto

lemma stop_async_ops_exec:
  assumes "rep (rb_store (async_handlers w)) p t" "distinct (map fst (inorder t))" "detached_in (svc_status w) call"
    "dynarr_inv (timed_events_heap w)" "hp = d_capacity (timed_events_heap w)"
    "\<And>a n sl e. a \<in> addrs t \<Longrightarrow> rb_store (async_handlers w) a = Some n \<Longrightarrow> slot_event n sl = Some e \<Longrightarrow>
      stoppable (timed_events_heap w) e"
  shows "\<exists>w'. stop_async_ops call (ptr t) now hp w = Some w' \<and> async_handlers w' = without (addrs t) (async_handlers w)
    \<and> stopped w (map evt_note (tree_events (rb_store (async_handlers w)) t)) w'"
  using assms
proof (induction t arbitrary: p w)
  case Lf
  then show ?case by (subst stop_async_ops.simps) (simp add: restrict_map_def stopped_Nil)
next
  case (Nd c l a k r)
  let ?h = "async_handlers w"
  obtain n where n: "rb_store ?h a = Some n" "rb_load ?h a = Some n" "left n = ptr l" "right n = ptr r" "a \<noteq> NULL"
      "rep (rb_store ?h) a l" "rep (rb_store ?h) a r" "distinct (map fst (inorder l))" "distinct (map fst (inorder r))"
      "a \<notin> addrs l" "a \<notin> addrs r" "addrs l \<inter> addrs r = {}"
    using rep_parts [OF Nd.prems(1,2)] .
  have st: "stoppable (timed_events_heap w) e" if "slot_event n sl = Some e" for sl e
    using Nd.prems(6) [of a n sl e] n(1) that by simp
  obtain w1 w2 w3 where w3: "stop_slot call Main_slot a now hp w = Some w1" "stop_slot call Aux_slot a now hp w1 = Some w2"
      "stop_slot call Ex_slot a now hp w2 = Some w3" "stopped w (map evt_note (node_events n)) w3" "async_handlers w3 = ?h"
    using stop_node_exec [OF Nd.prems(3) n(2) Nd.prems(4) st Nd.prems(5)] .
  note f3 = stopped_fields [OF w3(4)]
  let ?n = "n\<lparr>aux_event := None, ex_event := None\<rparr>"
  define h4 where "h4 = ?h\<lparr>rb_store := (rb_store ?h)(a \<mapsto> ?n)\<rparr>"
  have upd: "with_tree (rb_update a (\<lambda>n. n\<lparr>aux_event := None, ex_event := None\<rparr>)) w3 = Some (w3\<lparr>async_handlers := h4\<rparr>)"
    using n w3(5) by (simp add: with_tree_def rb_update_Some h4_def)
  have h4: "rb_load h4 a = Some ?n" "\<And>b. b \<noteq> a \<Longrightarrow> rb_store h4 b = rb_store ?h b"
    using n by (simp_all add: h4_def rb_load_def)
  have sub: "b \<in> addrs l \<union> addrs r \<Longrightarrow> rb_store h4 b = rb_store ?h b" for b
    using h4(2) [of b] n(10,11) by blast
  let ?w4 = "w3\<lparr>async_handlers := h4\<rparr>"
  have "\<exists>w5. stop_async_ops call (ptr l) now hp ?w4 = Some w5 \<and> async_handlers w5 = without (addrs l) (async_handlers ?w4)
      \<and> stopped ?w4 (map evt_note (tree_events (rb_store (async_handlers ?w4)) l)) w5"
  proof (rule Nd.IH(1) [OF _ n(8)])
    show "rep (rb_store (async_handlers ?w4)) a l"
      using n sub by (subst rep_cong [of l _ "rb_store ?h"]) auto
    show "stoppable (timed_events_heap ?w4) e" if "b \<in> addrs l" "rb_store (async_handlers ?w4) b = Some x" "slot_event x sl = Some e" for b x sl e
      using that Nd.prems(6) [of b x sl e] h4(2) [of b] n(10) by (cases "b = a") (simp_all add: f3)
  qed (use Nd.prems f3 in simp_all)
  then obtain w5 where w5: "stop_async_ops call (ptr l) now hp ?w4 = Some w5" "async_handlers w5 = without (addrs l) h4"
      "stopped ?w4 (map evt_note (tree_events (rb_store h4) l)) w5"
    by auto
  note f5 = stopped_fields [OF w5(3)]
  have "\<exists>w6. stop_async_ops call (ptr r) now hp w5 = Some w6 \<and> async_handlers w6 = without (addrs r) (async_handlers w5)
      \<and> stopped w5 (map evt_note (tree_events (rb_store (async_handlers w5)) r)) w6"
  proof (rule Nd.IH(2) [OF _ n(9)])
    show "rep (rb_store (async_handlers w5)) a r"
      using n sub w5(2) by (subst rep_cong [of r _ "rb_store ?h"]) (auto simp: restrict_map_def)
    show "stoppable (timed_events_heap w5) e" if "b \<in> addrs r" "rb_store (async_handlers w5) b = Some x" "slot_event x sl = Some e" for b x sl e
      using that Nd.prems(6) [of b x sl e] h4(2) [of b] n(11) w5(2)
      by (cases "b = a") (simp_all add: f3 f5 restrict_map_def split: if_splits)
  qed (use Nd.prems f3 f5 in simp_all)
  then obtain w6 where w6: "stop_async_ops call (ptr r) now hp w5 = Some w6" "async_handlers w6 = without (addrs l \<union> addrs r) h4"
      "stopped w5 (map evt_note (tree_events (rb_store (without (addrs l) h4)) r)) w6"
    unfolding w5(2) without_without by blast
  have loads: "rb_load (async_handlers w5) a = Some ?n" "rb_load (async_handlers w6) a = Some ?n"
    using h4(1) n by (simp_all add: w5(2) w6(2) rb_load_def)
  let ?w' = "w6\<lparr>async_handlers := free_node a (async_handlers w6)\<rparr>"
  have "stop_async_ops call a now hp w = Some ?w'"
    using n w3(1-3) upd w5(1) w6(1) loads h4(1) by (subst stop_async_ops.simps) simp
  moreover have "free_node a (async_handlers w6) = without (addrs (Nd c l a k r)) ?h"
    by (auto simp: w6(2) h4_def free_node_def restrict_map_def fun_eq_iff)
  moreover have "stopped w (map evt_note (tree_events (rb_store ?h) (Nd c l a k r))) ?w'"
  proof -
    have "tree_events (rb_store h4) l = tree_events (rb_store ?h) l"
      using sub by (intro tree_events_cong) auto
    moreover have "tree_events (rb_store (without (addrs l) h4)) r = tree_events (rb_store ?h) r"
      using sub n(12) by (intro tree_events_cong) (auto simp: restrict_map_def)
    ultimately show ?thesis
      using stopped_tree [OF stopped_trans [OF stopped_trans [OF stopped_tree [OF w3(4)] w5(3)] w6(3)]] n(1) by simp
  qed
  ultimately show ?case by auto
qed

section \<open>Stopping the delayed handlers\<close>

abbreviation dh_note :: "delay_heap_entry \<Rightarrow> io_handler \<times> addr" where
  "dh_note x \<equiv> (dh_handler x, dh_status x)"

lemma stop_delayed_exec:
  assumes "detached_in (svc_status w) call" "dynarr_inv (timed_handlers_heap w)" "hp = d_capacity (timed_handlers_heap w)"
    "\<forall>x \<in> set (delayed w). callback (dh_handler x) \<noteq> NULL" "i \<le> length (delayed w)"
  shows "\<exists>w'. stop_delayed call hp i w = Some w' \<and> stopped w (map dh_note (drop i (delayed w))) w' \<and> async_handlers w' = async_handlers w"
  using assms
proof (induction "length (delayed w) - i" arbitrary: i w)
  case 0
  then show ?case by (subst stop_delayed.simps) (simp add: stopped_Nil)
next
  case (Suc k)
  then have i: "i < length (delayed w)" by linarith
  let ?x = "delayed w ! i"
  have g: "dynarr_deref hp (timed_handlers_heap w) i = Some ?x"
    using Suc.prems(2,3) i by (simp add: dynarr_deref_def dynarr_get_list del: length_dynarr_list)
  have cb: "callback (dh_handler ?x) \<noteq> NULL" using Suc.prems(4) nth_mem [OF i] by blast
  obtain w1 where w1: "invoke call (dh_handler ?x) (put_status (dh_status ?x) EIO_STOPPED w) = Some w1" "stopped w [dh_note ?x] w1"
      "async_handlers w1 = async_handlers w"
    using invoke_stopped [OF Suc.prems(1) cb, where p = "dh_status ?x" and i = "ints (put_status (dh_status ?x) EIO_STOPPED w)"] by auto
  note f = stopped_fields [OF w1(2)]
  obtain w' where w': "stop_delayed call hp (Suc i) w1 = Some w'" "stopped w1 (map dh_note (drop (Suc i) (delayed w1))) w'"
      "async_handlers w' = async_handlers w1"
  proof -
    have "k = length (delayed w1) - Suc i" unfolding f using Suc.hyps(2) by linarith
    from Suc.hyps(1) [OF this] show ?thesis
      using that Suc.prems f i by auto
  qed
  have "stop_delayed call hp i w = Some w'"
    using i g w1(1) w'(1) Suc.prems(2) by (subst stop_delayed.simps) simp
  moreover have "stopped w (map dh_note (drop i (delayed w))) w'"
    using stopped_trans [OF w1(2) w'(2)] i by (simp add: f Cons_nth_drop_Suc [symmetric] del: length_dynarr_list)
  ultimately show ?case using w'(3) w1(3) by simp
qed

section \<open>Stopping the service\<close>

lemma svc_inv_stoppable:
  assumes inv: "svc_inv w m" and a: "a \<in> ran m" and n: "rb_store (async_handlers w) a = Some n" "slot_event n sl = Some e"
  shows "stoppable (timed_events_heap w) e"
proof (cases "callback (handler e) = NULL")
  case False
  have pk: "poll_ok w m" and tm: "timers_ok w m" and TH: "tree_holds (async_handlers w) m"
    using inv by (auto simp: svc_inv_def)
  obtain k where k: "m k = Some a" using a by (auto simp: ran_def)
  have nd: "node_data (async_handlers w) a = Some (payload n)" using n(1) by (simp add: node_data_def)
  have ok: "node_ok (payload n)"
    by (rule poll_okE [OF pk k]) (use nd in simp)
  have "e \<in> set (node_events (payload n))"
    using n(2) False by (cases sl) (auto simp: node_events_def slot_events_def)
  then obtain t where t: "get_evt_data (payload n) t = Some e"
    unfolding node_events_armed [OF ok] by blast
  have a0: "a \<noteq> NULL" using tree_holds_data [OF TH a] by simp
  from recorded_position [OF tm a nd a0 t False] show ?thesis
    using tm nth_mem [of "nat (ddl_heap_idx e)" "events_list w"]
    by (auto simp: stoppable_def timers_ok_def events_list_def simp del: length_dynarr_list split: if_splits)
qed (simp add: stoppable_def)

text \<open>The whole of \<open>iosvc_prep_stop\<close>; the nodes are visited in the tree's order.\<close>

lemma prep_stop_exec:
  assumes inv: "svc_inv w m" and cb: "\<forall>x \<in> set (delayed w). callback (dh_handler x) \<noteq> NULL"
    and call: "detached_in (svc_status w) call"
  obtains w' as where "iosvc_prep_stop call w = Some w'" "distinct as" "set as = ran m"
    "calls w' = calls w @ map dh_handler (delayed w) @ map handler (concat (map (\<lambda>a. node_events (the (node_data (async_handlers w) a))) as))"
    "errcs w' = (\<lambda>x. if x \<noteq> NULL \<and> x \<in> dh_status ` set (delayed w) \<union> status ` set (concat (map (\<lambda>a. node_events (the (node_data (async_handlers w) a))) as))
       then EIO_STOPPED else errcs w x)"
    "async_handlers w' = \<lparr>rb_root = NULL, rb_store = rb_store (async_handlers w) |` (- ran m)\<rparr>"
    "sync_handlers w' = sync_handlers w" "svc_status w' = svc_status w" "delayed w' = []" "events_list w' = []"
    "dynarr_list (pollfds w') = []" "svc_inv w' Map.empty"
proof -
  let ?h = "async_handlers w"
  have TH: "tree_holds ?h m" and dl: "delay_ok w" and ev: "dynarr_inv (timed_events_heap w)" and pf: "dynarr_inv (pollfds w)"
    using inv by (auto simp: svc_inv_def poll_ok_def Let_def timers_ok_def events_ok_def heap_idx_ok_def)
  obtain T where T: "rb_tree ?h T" "tree_map T = m" using TH by (auto simp: tree_holds_def)
  have rep: "rep (rb_store ?h) NULL T" "rb_root ?h = ptr T" "distinct (map fst (inorder T))" "addrs T = ran m"
    using T addrs_ran [of T] by (auto simp: rb_tree_def trep_def)
  obtain w1 where w1: "stop_delayed call (d_capacity (timed_handlers_heap w)) 0 w = Some w1"
      "stopped w (map dh_note (delayed w)) w1" "async_handlers w1 = ?h"
    using stop_delayed_exec [OF call _ refl cb, of 0] dl by (auto simp: delay_ok_def)
  note f1 = stopped_fields [OF w1(2)]
  define w2 where "w2 = w1\<lparr>timed_handlers_heap := dynarr_clear (timed_handlers_heap w1), clock := \<lambda>n. clock w1 (Suc n)\<rparr>"
  have f2: "async_handlers w2 = ?h" "timed_events_heap w2 = timed_events_heap w" "svc_status w2 = svc_status w"
      "sync_handlers w2 = sync_handlers w" "pollfds w2 = pollfds w" "calls w2 = calls w1" "errcs w2 = errcs w1"
    by (simp_all add: w2_def f1 w1(3))
  have "\<exists>w3. stop_async_ops call (ptr T) (clock w1 0) (d_capacity (timed_events_heap w2)) w2 = Some w3
      \<and> async_handlers w3 = without (addrs T) (async_handlers w2)
      \<and> stopped w2 (map evt_note (tree_events (rb_store (async_handlers w2)) T)) w3"
    by (rule stop_async_ops_exec [OF _ rep(3) _ _ refl])
      (use rep call ev svc_inv_stoppable [OF inv] in \<open>auto simp: f2\<close>)
  then obtain w3 where w3: "stop_async_ops call (ptr T) (clock w1 0) (d_capacity (timed_events_heap w2)) w2 = Some w3"
      "async_handlers w3 = without (ran m) ?h" "stopped w2 (map evt_note (tree_events (rb_store ?h) T)) w3"
    by (auto simp: f2 rep(4))
  note f3 = stopped_fields [OF w3(3)]
  define w' where "w' = w3\<lparr>timed_events_heap := dynarr_clear (timed_events_heap w3), pollfds := dynarr_clear (pollfds w3),
      async_handlers := (async_handlers w3)\<lparr>rb_root := NULL\<rparr>\<rparr>"
  have run: "iosvc_prep_stop call w = Some w'"
    using w1(1,3) w3(1) rep(2) f2(1,2) f1(4)
    by (simp add: iosvc_prep_stop_def current_time_def w2_def [symmetric] w'_def Let_def)
  have te: "tree_events (rb_store ?h) T = concat (map (\<lambda>a. node_events (the (node_data ?h a))) (preorder T))"
  proof (intro arg_cong [of _ _ concat] map_cong refl)
    fix a assume "a \<in> set (preorder T)"
    then obtain n where "rb_store ?h a = Some n"
      using rep(1) rep_addrs [of "rb_store ?h" NULL T a] by auto
    then show "node_events (the (rb_store ?h a)) = node_events (the (node_data ?h a))"
      by (simp add: node_data_def)
  qed
  have ah: "async_handlers w' = \<lparr>rb_root = NULL, rb_store = rb_store ?h |` (- ran m)\<rparr>"
    by (simp add: w'_def w3(2))
  have lists: "delayed w' = []" "events_list w' = []" "dynarr_list (pollfds w') = []"
    by (simp_all add: w'_def f3 w2_def events_list_def)
  have "tree_holds (async_handlers w') Map.empty"
    unfolding tree_holds_def
    by (rule exI [of _ Lf]) (simp add: ah rb_tree_def trep_def tree_map_def rb_ok_def keys_def)
  then have "svc_inv w' Map.empty"
    using inv dl ev pf lists
    by (simp add: svc_inv_def delay_ok_def poll_ok_def timers_ok_def events_ok_def heap_idx_ok_def w'_def f3 w2_def f1)
  moreover have "calls w' = calls w @ map dh_handler (delayed w)
      @ map handler (concat (map (\<lambda>a. node_events (the (node_data ?h a))) (preorder T)))"
    using w1(2) w3(3) te by (simp add: stopped_def w'_def f2)
  moreover have "errcs w' = (\<lambda>x. if x \<noteq> NULL \<and> x \<in> dh_status ` set (delayed w)
      \<union> status ` set (concat (map (\<lambda>a. node_events (the (node_data ?h a))) (preorder T))) then EIO_STOPPED else errcs w x)"
  proof -
    have "errcs w' = (\<lambda>x. if x \<noteq> NULL \<and> x \<in> status ` set (tree_events (rb_store ?h) T) then EIO_STOPPED else errcs w1 x)"
      using w3(3) by (auto simp: stopped_def w'_def f2 image_image fun_eq_iff)
    then show ?thesis
      using w1(2) unfolding te stopped_def by (auto simp: image_image fun_eq_iff)
  qed
  moreover have "sync_handlers w' = sync_handlers w" "svc_status w' = svc_status w"
    by (simp_all add: w'_def f3 f2)
  moreover have "set (preorder T) = ran m" by (simp add: rep(4))
  ultimately show ?thesis
    using that [OF run distinct_preorder [OF rep(3)]] ah lists by blast
qed

section \<open>Properties\<close>

text \<open>The pending events of the node at an address.\<close>

abbreviation pending :: "'x world_scheme \<Rightarrow> addr \<Rightarrow> event_data list" where
  "pending w a \<equiv> node_events (the (node_data (async_handlers w) a))"

lemma demo_stop_facts:
  "delayed demo_service = []" "node_events demo_node = [\<lparr>handler = demo_handler 1, status = 40, ddl_heap_idx = -1\<rparr>]"
  "distinct as \<Longrightarrow> set as = ran [5 \<mapsto> (16 :: addr)] \<Longrightarrow> as = [16]"
proof -
  show "delayed demo_service = []" "node_events demo_node = [\<lparr>handler = demo_handler 1, status = 40, ddl_heap_idx = -1\<rparr>]"
    unfolding demo_node_def demo_service_def by code_simp+
  show "distinct as \<Longrightarrow> set as = ran [5 \<mapsto> (16 :: addr)] \<Longrightarrow> as = [16]"
    by (cases as; cases "tl as") auto
qed

text \<open>
  C10. Stopping: \<open>iosvc_prep_stop\<close> returns after it has called every delayed handler and then every handler
  pending on a descriptor exactly once, each with the status \<open>EIO_STOPPED\<close> reported to whoever asked for
  it; both heaps, the poll vector and the tree are empty and every node is released, and the service
  invariant holds, so the service can be reset and used again. The events of a node are those that
  are armed (\<open>node_events_armed\<close>). The callbacks must leave the service alone, as the operations of a stopping
  service do.
\<close>

theorem iosvc_prep_stop_correct:
  assumes "svc_inv w m" and "\<forall>x \<in> set (delayed w). callback (dh_handler x) \<noteq> NULL" and "detached_in (svc_status w) call"
  shows "\<exists>w' as es. iosvc_prep_stop call w = Some w' \<and> distinct as \<and> set as = ran m \<and> es = concat (map (pending w) as)
    \<and> calls w' = calls w @ map dh_handler (delayed w) @ map handler es
    \<and> (\<forall>x. errcs w' x = (if x \<noteq> NULL \<and> x \<in> dh_status ` set (delayed w) \<union> status ` set es then EIO_STOPPED else errcs w x))
    \<and> svc_inv w' Map.empty \<and> delayed w' = [] \<and> events_list w' = [] \<and> dynarr_list (pollfds w') = []
    \<and> (\<forall>a \<in> ran m. rb_store (async_handlers w') a = None) \<and> svc_status w' = svc_status w"
proof -
  obtain w' as where r: "iosvc_prep_stop call w = Some w'" "distinct as" "set as = ran m"
    "calls w' = calls w @ map dh_handler (delayed w) @ map handler (concat (map (pending w) as))"
    "errcs w' = (\<lambda>x. if x \<noteq> NULL \<and> x \<in> dh_status ` set (delayed w) \<union> status ` set (concat (map (pending w) as)) then EIO_STOPPED else errcs w x)"
    "async_handlers w' = \<lparr>rb_root = NULL, rb_store = rb_store (async_handlers w) |` (- ran m)\<rparr>"
    "sync_handlers w' = sync_handlers w" "svc_status w' = svc_status w" "delayed w' = []" "events_list w' = []"
    "dynarr_list (pollfds w') = []" "svc_inv w' Map.empty"
    by (rule prep_stop_exec [OF assms]) (rule that)
  have "\<forall>a \<in> ran m. rb_store (async_handlers w') a = None"
    by (simp add: r(6))
  moreover have "\<forall>x. errcs w' x = (if x \<noteq> NULL \<and> x \<in> dh_status ` set (delayed w) \<union> status ` set (concat (map (pending w) as))
      then EIO_STOPPED else errcs w x)"
    unfolding r(5) by (rule allI) (rule refl)
  ultimately show ?thesis
    using r(1-4,8-12) by blast
qed

theorem iosvc_prep_stop_correct_witness:
  "\<exists>w'. iosvc_prep_stop (\<lambda>_. Some) (demo_service\<lparr>svc_status := STOPPING\<rparr>) = Some w'
    \<and> calls w' = [demo_handler 1] \<and> errcs w' 40 = EIO_STOPPED \<and> svc_inv w' Map.empty \<and> rb_store (async_handlers w') 16 = None"
proof -
  let ?w = "demo_service\<lparr>svc_status := STOPPING\<rparr>"
  have h: "svc_inv ?w [5 \<mapsto> 16]" "detached_in (svc_status ?w) (\<lambda>_. Some :: world \<Rightarrow> world option)" "calls ?w = []"
    using demo_service by (simp_all add: detached_in_def)
  then show ?thesis
    using iosvc_prep_stop_correct [OF h(1) _ h(2)] demo_stop_facts demo_service(2) by fastforce
qed

text \<open>
  C11. Deleting a service releases all the memory it owns: every node of the tree, with its event
  blocks, the three arrays and the queue; no other node is touched, and nothing is used after its
  release.
\<close>

theorem iosvc_delete_releases:
  assumes "svc_inv w m"
  shows "\<exists>w'. iosvc_delete w = Some w' \<and> rb_store (async_handlers w') = rb_store (async_handlers w) |` (- ran m)
    \<and> d_data (timed_events_heap w') = [] \<and> d_data (timed_handlers_heap w') = [] \<and> d_data (pollfds w') = []
    \<and> sync_handlers w' = cbuf_delete (sync_handlers w) \<and> calls w' = calls w"
proof -
  let ?h = "async_handlers w"
  obtain T where T: "rb_tree ?h T" "tree_map T = m" using assms by (auto simp: svc_inv_def tree_holds_def)
  then have "del_rb_node (rb_root ?h) ?h = Some (without (ran m) ?h)"
    using del_rb_node_frees [of ?h NULL T] addrs_ran [of T] by (simp add: rb_tree_def trep_def)
  then show ?thesis
    by (simp add: iosvc_delete_def with_tree_def dynarr_delete_def)
qed

theorem iosvc_delete_releases_witness:
  "\<exists>w'. iosvc_delete demo_service = Some w' \<and> rb_store (async_handlers w') 16 = None"
  using iosvc_delete_releases [OF demo_service(1)] by auto

end
