(* ===== verification/Run_Props.thy ===== *)
theory Run_Props
  imports Stop_Props
begin

text \<open>
  Whole runs of the event loop: a run that a handler stops, and a run with delayed handlers only.
\<close>

section \<open>Stopping from a handler\<close>

text \<open>The handler \<open>h0\<close> calls \<open>iosvc_stop\<close>; the others leave the service and the values it reports alone and neither call
  \<open>poll\<close> nor read the clock.\<close>

definition stops_at :: "io_handler \<Rightarrow> 'x call \<Rightarrow> bool" where
  "stops_at h0 call \<longleftrightarrow> (\<forall>w. call h0 w = Some (snd (iosvc_stop w)))
     \<and> (\<forall>h w. h \<noteq> h0 \<longrightarrow> (\<exists>w'. call h w = Some w' \<and> io_service.truncate w' = io_service.truncate w
           \<and> calls w' = calls w \<and> errcs w' = errcs w \<and> ints w' = ints w \<and> polls w' = polls w \<and> clock w' = clock w))"

lemma stops_at_detached:
  assumes "stops_at h0 call"
  shows "detached_in STOPPING call"
  unfolding detached_in_def
proof (intro allI impI)
  fix h and w :: "'a world_scheme" assume "svc_status w = STOPPING"
  then have "snd (iosvc_stop w) = w" by (simp add: iosvc_stop_def)
  then show "\<exists>w'. call h w = Some w' \<and> io_service.truncate w' = io_service.truncate w \<and> calls w' = calls w
      \<and> errcs w' = errcs w \<and> ints w' = ints w \<and> polls w' = polls w \<and> clock w' = clock w"
    using assms unfolding stops_at_def by (cases "h = h0") auto
qed

text \<open>Nothing but the queue and the state of the service has changed.\<close>

definition only_sync :: "'x world_scheme \<Rightarrow> io_handler cbuffer \<Rightarrow> svc_status \<Rightarrow> 'x world_scheme \<Rightarrow> bool" where
  "only_sync w cb s w' \<longleftrightarrow> io_service.truncate w' = io_service.truncate (w\<lparr>sync_handlers := cb, svc_status := s\<rparr>)
     \<and> errcs w' = errcs w"

lemma only_sync_fields:
  assumes "only_sync w cb s w'"
  shows "sync_handlers w' = cb" "svc_status w' = s" "timed_handlers_heap w' = timed_handlers_heap w" "pollfds w' = pollfds w"
    "timed_events_heap w' = timed_events_heap w" "async_handlers w' = async_handlers w" "errcs w' = errcs w"
  using assms truncate_fields [of w' "w\<lparr>sync_handlers := cb, svc_status := s\<rparr>"] by (simp_all add: only_sync_def)

lemma invoke_stops_at:
  assumes "stops_at h0 call" "callback h \<noteq> NULL"
  obtains w' where "invoke call h w = Some w'" "calls w' = calls w @ [h]"
    "only_sync w (sync_handlers w) (if h = h0 \<and> svc_status w = RUNNING then STOPPING else svc_status w) w'"
proof (cases "h = h0")
  case True
  then show ?thesis
    using that [of "snd (iosvc_stop (w\<lparr>calls := calls w @ [h]\<rparr>))"] assms
    by (cases "svc_status w") (simp_all add: invoke_def stops_at_def iosvc_stop_def only_sync_def io_service.truncate_def)
next
  case False
  let ?w = "w\<lparr>calls := calls w @ [h]\<rparr>"
  obtain w' where "call h ?w = Some w'" "io_service.truncate w' = io_service.truncate ?w" "calls w' = calls ?w" "errcs w' = errcs ?w"
    using assms(1) False unfolding stops_at_def by blast
  then show ?thesis
    using that [of w'] assms(2) False by (simp add: invoke_def only_sync_def io_service.truncate_def)
qed

lemma run_sync_stops:
  assumes "stops_at h0 call"
  shows "cbuf_inv (sync_handlers w) \<Longrightarrow> cbuf_list (sync_handlers w) = q \<Longrightarrow> \<forall>h \<in> set q. callback h \<noteq> NULL \<Longrightarrow>
    \<exists>w' cb. run_sync_handlers call w = Some w' \<and> cbuf_inv cb \<and> cbuf_list cb = [] \<and> calls w' = calls w @ q
      \<and> only_sync w cb (if h0 \<in> set q \<and> svc_status w = RUNNING then STOPPING else svc_status w) w'"
proof (induction q arbitrary: w)
  case Nil
  then have "run_sync_handlers call w = Some w"
    by (subst run_sync_handlers.simps) (simp add: cbuf_empty_list)
  then show ?case
    using Nil by (intro exI [of _ w] exI [of _ "sync_handlers w"]) (simp add: only_sync_def)
next
  case (Cons h q)
  let ?cb = "sync_handlers w"
  have ne: "\<not> cbuf_empty ?cb" "cbuf_load ?cb (cbuf_front ?cb) = Some h"
    using Cons.prems cbq.front_law [OF Cons.prems(1)] by (simp_all add: cbuf_empty_list)
  let ?s = "if h = h0 \<and> svc_status w = RUNNING then STOPPING else svc_status w"
  have cb: "callback h \<noteq> NULL" using Cons.prems(3) by simp
  obtain w1 where w1: "invoke call h w = Some w1" "calls w1 = calls w @ [h]" "only_sync w ?cb ?s w1"
    using invoke_stops_at [OF assms cb] .
  have f1: "sync_handlers w1 = ?cb" "svc_status w1 = ?s" "errcs w1 = errcs w"
    using only_sync_fields [OF w1(3)] by simp_all
  let ?w2 = "w1\<lparr>sync_handlers := cbuf_pop (sync_handlers w1)\<rparr>"
  have p: "cbuf_inv (sync_handlers ?w2)" "cbuf_list (sync_handlers ?w2) = q"
    using cbq.pop_law [of ?cb] Cons.prems by (simp_all add: f1)
  have "\<forall>h \<in> set q. callback h \<noteq> NULL" using Cons.prems(3) by simp
  from Cons.IH [OF p this] obtain w' cb where w': "run_sync_handlers call ?w2 = Some w'" "cbuf_inv cb" "cbuf_list cb = []"
      "calls w' = calls ?w2 @ q" "only_sync ?w2 cb (if h0 \<in> set q \<and> svc_status ?w2 = RUNNING then STOPPING else svc_status ?w2) w'"
    by blast
  have "run_sync_handlers call w = Some w'"
    using ne w1(1) w'(1) by (subst run_sync_handlers.simps) simp
  moreover have "only_sync w cb (if h0 \<in> set (h # q) \<and> svc_status w = RUNNING then STOPPING else svc_status w) w'"
    using w'(5) w1(3) f1 by (auto simp: only_sync_def io_service.truncate_def split: if_splits)
  ultimately show ?case
    using w' w1(2) by auto
qed

lemma svc_inv_only_sync:
  assumes "svc_inv w m" "only_sync w cb s w'" "cbuf_inv cb"
  shows "svc_inv w' m"
proof -
  have "svc_inv w' m = svc_inv (w\<lparr>sync_handlers := cb, svc_status := s\<rparr>) m"
    using assms(2) by (intro svc_inv_truncate) (simp add: only_sync_def)
  also have "\<dots>"
    using assms(1,3) by (simp add: svc_inv_def delay_ok_def poll_ok_def timers_ok_def events_ok_def heap_idx_ok_def events_list_def
        del: length_dynarr_list)
  finally show ?thesis .
qed

section \<open>Delayed handlers only\<close>

text \<open>Callbacks that leave the service alone and do not call \<open>poll\<close>.\<close>

definition inert :: "'x call \<Rightarrow> bool" where
  "inert call \<longleftrightarrow> (\<forall>h w. \<exists>w'. call h w = Some w' \<and> io_service.truncate w' = io_service.truncate w
     \<and> calls w' = calls w \<and> polls w' = polls w)"

text \<open>A running service with no descriptors; \<open>poll\<close> on no descriptors can only time out.\<close>

definition timers_only :: "'x world_scheme \<Rightarrow> bool" where
  "timers_only w \<longleftrightarrow> svc_inv w Map.empty \<and> cbuf_list (sync_handlers w) = [] \<and> svc_status w = RUNNING
     \<and> (\<forall>n d. fst (polls w n [] d) = 0) \<and> (\<forall>x \<in> set (delayed w). callback (dh_handler x) \<noteq> NULL)"

lemma timers_only_empty:
  assumes "timers_only w"
  shows "dynarr_list (pollfds w) = []" "dynarr_size (pollfds w) = 0" "dynarr_empty (pollfds w)" "events_list w = []"
    "dynarr_empty (timed_events_heap w)" "cbuf_empty (sync_handlers w)" "delay_ok w"
    "dynarr_empty (timed_handlers_heap w) \<longleftrightarrow> delayed w = []"
proof -
  have inv: "dynarr_inv (pollfds w)" "length (dynarr_list (pollfds w)) = 0" "dynarr_inv (timed_events_heap w)"
      "cbuf_inv (sync_handlers w)" "delay_ok w" "timers_ok w Map.empty"
    using assms by (auto simp: timers_only_def svc_inv_def poll_ok_def Let_def timers_ok_def events_ok_def heap_idx_ok_def
        simp del: length_dynarr_list)
  then show "dynarr_list (pollfds w) = []" "delay_ok w" by (simp_all del: length_dynarr_list)
  then show "dynarr_size (pollfds w) = 0" "dynarr_empty (pollfds w)"
    using inv(1,2) by (metis dynarr_size_def length_dynarr_list, metis dynarr_empty_def length_dynarr_list)
  have "e \<notin> set (events_list w)" for e
    using inv(6) by (auto simp: timers_ok_def)
  then show e: "events_list w = []" by (metis list.set_intros(1) neq_Nil_conv)
  then show "dynarr_empty (timed_events_heap w)"
    using inv(3) by (metis dynarr_empty_def events_list_def length_dynarr_list list.size(3))
  show "cbuf_empty (sync_handlers w)"
    using assms inv(4) by (simp add: timers_only_def cbuf_empty_list)
  have "length (delayed w) = d_nelems (timed_handlers_heap w)"
    using inv(5) by (simp add: delay_ok_def)
  then show "dynarr_empty (timed_handlers_heap w) \<longleftrightarrow> delayed w = []"
    by (metis dynarr_empty_def length_0_conv)
qed

lemma run_round_timer:
  assumes call: "inert call" and w: "timers_only w" "delayed w \<noteq> []"
  obtains w' where "run_round call w = Some w'" "timers_only w'" "calls w' = calls w @ [dh_handler (delayed w ! 0)]"
    "mset (delayed w) = add_mset (delayed w ! 0) (mset (delayed w'))"
proof -
  let ?x = "delayed w ! 0"
  note e = timers_only_empty [OF w(1)]
  have len: "0 < length (delayed w)" using w(2) by simp
  have "dynarr_get (timed_handlers_heap w) (dynarr_front (timed_handlers_heap w)) = Some ?x"
    using e(7) len by (simp add: delay_ok_def dynarr_front_def dynarr_get_list del: length_dynarr_list)
  then have nd: "next_deadline w = Some (dh_deadline ?x, Some False)"
    using w(2) e(5,8) by (simp add: next_deadline_def)
  define d where "d = poll_delay (dh_deadline ?x) (clock w 0)"
  obtain b rv where p: "polls w 0 [] d = (0, b, rv)"
    using w(1) by (cases "polls w 0 [] d") (auto simp: timers_only_def, metis fst_conv)
  define w3 where "w3 = w\<lparr>polls := \<lambda>n. polls w (Suc n), clock := \<lambda>n. clock w (Suc (Suc n))\<rparr>"
  have round: "run_round call w = timeout_first call False (clock w 1) w3"
    using nd p e(1,2) by (simp add: run_round_def current_time_def svc_poll_def with_pollfds_def d_def [symmetric] w3_def)
  have f3: "delayed w3 = delayed w" "delay_ok w3" "calls w3 = calls w"
    using e(7) by (simp_all add: w3_def delay_ok_def)
  let ?w4 = "(put_status (dh_status ?x) EIO_OK w3)\<lparr>calls := calls w3 @ [dh_handler ?x]\<rparr>"
  obtain w5 where w5: "call (dh_handler ?x) ?w4 = Some w5" "io_service.truncate w5 = io_service.truncate ?w4" "calls w5 = calls ?w4"
      "polls w5 = polls ?w4"
    using call unfolding inert_def by blast
  have f5: "timed_handlers_heap w5 = timed_handlers_heap w" "polls w5 = polls w3"
    using truncate_fields [OF w5(2)] w5(4) by (simp_all add: put_status_def w3_def)
  have cb: "callback (dh_handler ?x) \<noteq> NULL"
    using w nth_mem [OF len] by (simp add: timers_only_def)
  obtain w' dd where w': "timeout_first call False (clock w 1) w3 = Some w'" "delay_ok w'" "mset (delayed w) = add_mset ?x (mset (delayed w'))"
      "w' = w5\<lparr>timed_handlers_heap := dd\<rparr>"
    using timeout_delayed_correct [of w3 ?x call w5 "clock w 1"] f3 w(2) cb w5(1) e(7) f5 by (auto simp: delay_ok_def)
  have sub: "set (delayed w') \<subseteq> set (delayed w)"
    using arg_cong [OF w'(3), of set_mset] by auto
  have "svc_inv w5 Map.empty"
    using w(1) unfolding svc_inv_truncate [OF w5(2)]
    by (simp add: timers_only_def w3_def put_status_def svc_inv_def delay_ok_def poll_ok_def timers_ok_def events_ok_def
        heap_idx_ok_def events_list_def del: length_dynarr_list)
  then have "svc_inv w' Map.empty"
    using w'(2) by (simp add: w'(4) svc_inv_def delay_ok_def poll_ok_def timers_ok_def events_ok_def heap_idx_ok_def events_list_def
        del: length_dynarr_list)
  then have "timers_only w'"
    using w(1) sub truncate_fields [OF w5(2)] f5(2) by (auto simp: timers_only_def w'(4) put_status_def w3_def)
  then show ?thesis
    using that round w'(1,3,4) w5(3) f3 by simp
qed

section \<open>Properties\<close>

text \<open>
  C12. A run that is stopped by one of its queued handlers: \<open>iosvc_run\<close> returns \<open>EIO_STOPPED\<close> after the
  queued handlers, in order, all delayed handlers and all handlers pending on a descriptor have been
  called, each once; the latter two kinds are told \<open>EIO_STOPPED\<close>. Afterwards the service is done, and empty.
\<close>

theorem iosvc_run_stopped:
  assumes "svc_inv w m" and "svc_status w = READY" and "stops_at h0 call" and "h0 \<in> set (cbuf_list (sync_handlers w))"
    and "\<forall>h \<in> set (cbuf_list (sync_handlers w)). callback h \<noteq> NULL" and "\<forall>x \<in> set (delayed w). callback (dh_handler x) \<noteq> NULL"
  shows "\<exists>w' as es. iosvc_run call w = Some (EIO_STOPPED, w') \<and> distinct as \<and> set as = ran m \<and> es = concat (map (pending w) as)
    \<and> calls w' = calls w @ cbuf_list (sync_handlers w) @ map dh_handler (delayed w) @ map handler es
    \<and> (\<forall>x \<in> dh_status ` set (delayed w) \<union> status ` set es - {NULL}. errcs w' x = EIO_STOPPED)
    \<and> svc_inv w' Map.empty \<and> svc_status w' = DONE \<and> cbuf_list (sync_handlers w') = [] \<and> delayed w' = []"
proof -
  let ?w = "w\<lparr>svc_status := RUNNING\<rparr>"
  have cb: "cbuf_inv (sync_handlers ?w)" using assms(1) by (simp add: svc_inv_def)
  from run_sync_stops [OF assms(3) cb refl] assms(4,5) obtain w1 c where w1: "run_sync_handlers call ?w = Some w1" "cbuf_inv c"
      "cbuf_list c = []" "calls w1 = calls w @ cbuf_list (sync_handlers w)" "only_sync ?w c STOPPING w1"
    by auto
  have f1: "sync_handlers w1 = c" "svc_status w1 = STOPPING" "delayed w1 = delayed w" "async_handlers w1 = async_handlers w"
    using only_sync_fields [OF w1(5)] by simp_all
  have inv1: "svc_inv w1 m"
    using svc_inv_only_sync [OF _ w1(5,2)] assms(1) by simp
  have det: "detached_in (svc_status w1) call" using stops_at_detached [OF assms(3)] by (simp add: f1)
  have dl: "\<forall>x \<in> set (delayed w1). callback (dh_handler x) \<noteq> NULL" using assms(6) by (simp add: f1)
  obtain w2 as where w2: "iosvc_prep_stop call w1 = Some w2" "distinct as" "set as = ran m"
      "calls w2 = calls w1 @ map dh_handler (delayed w1) @ map handler (concat (map (pending w1) as))"
      "errcs w2 = (\<lambda>x. if x \<noteq> NULL \<and> x \<in> dh_status ` set (delayed w1) \<union> status ` set (concat (map (pending w1) as)) then EIO_STOPPED else errcs w1 x)"
      "async_handlers w2 = \<lparr>rb_root = NULL, rb_store = rb_store (async_handlers w1) |` (- ran m)\<rparr>"
      "sync_handlers w2 = sync_handlers w1" "svc_status w2 = svc_status w1" "delayed w2 = []" "events_list w2 = []"
      "dynarr_list (pollfds w2) = []" "svc_inv w2 Map.empty"
    by (rule prep_stop_exec [OF inv1 dl det]) (rule that)
  have "\<not> cbuf_empty (sync_handlers ?w)"
    using assms(4) cb by (auto simp: cbuf_empty_list)
  then have "run_loop call ?w = Some w2"
    using w1(1) w2(1) f1(2) by (subst run_loop.simps) simp
  then have "iosvc_run call w = Some (EIO_STOPPED, w2\<lparr>svc_status := DONE\<rparr>)"
    using assms(2) w2(8) f1(2) by (simp add: iosvc_run_def)
  moreover have "\<forall>x \<in> dh_status ` set (delayed w) \<union> status ` set (concat (map (pending w) as)) - {NULL}. errcs w2 x = EIO_STOPPED"
    unfolding w2(5) f1 by auto
  ultimately show ?thesis
    using w2 w1(3,4) f1
    by (intro exI [of _ "w2\<lparr>svc_status := DONE\<rparr>"] exI [of _ as] exI [of _ "concat (map (pending w) as)"]) simp
qed

definition demo_stop_call :: "io_handler \<Rightarrow> world \<Rightarrow> world option" where
  "demo_stop_call h w = (if h = demo_handler 3 then Some (snd (iosvc_stop w)) else Some w)"

theorem iosvc_run_stopped_witness:
  "\<exists>w'. iosvc_run demo_stop_call (demo_service\<lparr>sync_handlers := sync_handlers demo_running\<rparr>) = Some (EIO_STOPPED, w')
    \<and> calls w' = [demo_handler 1, demo_handler 3, demo_handler 1] \<and> errcs w' 40 = EIO_STOPPED \<and> svc_status w' = DONE"
proof -
  let ?w = "demo_service\<lparr>sync_handlers := sync_handlers demo_running\<rparr>"
  have q: "cbuf_inv (sync_handlers demo_running)" "cbuf_list (sync_handlers demo_running) = [demo_handler 1, demo_handler 3]"
    using demo_running_queue by (simp_all add: sync_ready_def)
  have "only_sync demo_service (sync_handlers demo_running) (svc_status demo_service) ?w"
    by (simp add: only_sync_def io_service.truncate_def)
  from svc_inv_only_sync [OF demo_service(1) this q(1)] have inv: "svc_inv ?w [5 \<mapsto> 16]" .
  have s: "stops_at (demo_handler 3) demo_stop_call"
    by (simp add: stops_at_def demo_stop_call_def)
  have "svc_status ?w = READY" "demo_handler 3 \<in> set (cbuf_list (sync_handlers ?w))"
      "\<forall>h \<in> set (cbuf_list (sync_handlers ?w)). callback h \<noteq> NULL" "\<forall>x \<in> set (delayed ?w). callback (dh_handler x) \<noteq> NULL"
    using demo_service(5) q(2) demo_cb demo_stop_facts(1) by simp_all
  from iosvc_run_stopped [OF inv this(1) s this(2-4)] show ?thesis
    using demo_stop_facts demo_service(2,8) q(2) by fastforce
qed



end
