(* ===== verification/Dispatch_Props.thy ===== *)
theory Dispatch_Props
  imports Run_Props
begin

text \<open>
  The loop's work on descriptors: the expiry of a timed event and the dispatch of the events \<open>poll\<close>
  reported on a descriptor.
\<close>

section \<open>The place of a node\<close>

text \<open>\<open>rb_ref_to_this\<close> and \<open>rb_probe\<close> lead to the same place.\<close>

lemma ref_to_this_probe:
  assumes T: "tree_holds h m" and k: "m k = Some a" and pr: "rb_probe h Root_ref k = Some (place, parent)"
  shows "rb_ref_to_this h a Root_ref = Some (place, parent)"
proof -
  obtain T where T: "rb_tree h T" "tree_map T = m" using T by (auto simp: tree_holds_def)
  obtain C t where C: "T = plug C t" "place = cplace C" "parent = cpar C" "t = Lf \<longleftrightarrow> tree_map T k = None"
      "\<And>c l b j r. t = Nd c l b j r \<Longrightarrow> j = k \<and> tree_map T k = Some b"
    using probe_result [OF T(1) pr] by metis
  obtain c l r where t: "t = Nd c l a k r"
    using C(4,5) k T(2) by (cases t) auto
  have tr: "trep h (plug C (Nd c l a k r))" using T(1) C(1) t by (simp add: rb_tree_def)
  have "trep h (plug C (nd False c l a k r))" using tr by (simp add: nd_def)
  from trep_load [OF this] obtain n where n: "rb_load h a = Some n" "meta n = mk_meta (cpar C) c" .
  have gp: "get_parent h a = Some (cpar C)"
    using n trep_aligned_cpar [OF tr] by (simp add: get_parent_def)
  show ?thesis
  proof (cases "cpar C = NULL")
    case True
    then show ?thesis using parent_link [OF tr] gp C(2,3) by (simp add: rb_ref_to_this_def)
  next
    case False
    then obtain pn where "rb_load h (cpar C) = Some pn" "Child_ref (cpar C) (right pn = a) = cplace C"
      using parent_link [OF tr] by auto
    then show ?thesis using False gp C(2,3) by (simp add: rb_ref_to_this_def eq_commute [of a])
  qed
qed

section \<open>Calling several handlers of a descriptor\<close>

text \<open>\<open>partly w m a n st D v nv\<close>: the events \<open>D\<close> of node \<open>a\<close>, whose contents were \<open>n\<close>, have been taken out in this
  order with the status \<open>st\<close> and their handlers called; the contents are now \<open>nv\<close>.\<close>

definition note_status :: "addr set \<Rightarrow> io_errcode \<Rightarrow> (addr \<Rightarrow> io_errcode) \<Rightarrow> addr \<Rightarrow> io_errcode" where
  "note_status A st f = (\<lambda>x. if x \<noteq> NULL \<and> x \<in> A then st else f x)"

definition nodes_kept :: "rb_heap \<Rightarrow> rb_heap \<Rightarrow> addr \<Rightarrow> bool" where
  "nodes_kept h h' a \<longleftrightarrow> (\<forall>b n. b \<noteq> a \<longrightarrow> node_data h b = Some n \<longrightarrow>
     (\<exists>n'. node_data h' b = Some n' \<and> pollfd_idx n' = pollfd_idx n \<and> (\<forall>u. same_event n n' u)))"

definition partly ::
  "'x world_scheme \<Rightarrow> (int \<rightharpoonup> addr) \<Rightarrow> addr \<Rightarrow> rb_node \<Rightarrow> io_errcode \<Rightarrow> io_wait_type list \<Rightarrow> 'x world_scheme \<Rightarrow> rb_node \<Rightarrow> bool"
where
  "partly w m a n st D v nv \<longleftrightarrow> svc_inv v m \<and> node_data (async_handlers v) a = Some nv
     \<and> {u. armed nv u} = {u. armed n u} - set D \<and> pollfd_idx nv = pollfd_idx n
     \<and> (\<forall>u. u \<notin> set D \<longrightarrow> same_event n nv u)
     \<and> (\<exists>r. dynarr_list (pollfds v) = (dynarr_list (pollfds w))[pollfd_idx n :=
            (dynarr_list (pollfds w) ! pollfd_idx n)\<lparr>pfd_revents := r, pfd_events := node_mask nv\<rparr>]
          \<and> (r = pfd_revents (dynarr_list (pollfds w) ! pollfd_idx n) \<or> {u. armed nv u} = {}))
     \<and> calls v = calls w @ map (\<lambda>t. handler (evt_of n t)) D
     \<and> errcs v = note_status ((\<lambda>t. status (evt_of n t)) ` set D) st (errcs w)
     \<and> same_links (async_handlers w) (async_handlers v) \<and> svc_status v = svc_status w
     \<and> nodes_kept (async_handlers w) (async_handlers v) a \<and> rest_kept w v"

lemma partly_refl:
  assumes inv: "svc_inv w m" and k: "m k = Some a" and n: "node_data (async_handlers w) a = Some n"
  shows "partly w m a n st [] w n"
proof -
  have pk: "poll_ok w m" using inv by (simp add: svc_inv_def)
  have "pfd_events (dynarr_list (pollfds w) ! pollfd_idx n) = node_mask n"
    by (rule poll_okE [OF pk k]) (use n in simp)
  then have "(dynarr_list (pollfds w) ! pollfd_idx n)\<lparr>pfd_revents := pfd_revents (dynarr_list (pollfds w) ! pollfd_idx n),
      pfd_events := node_mask n\<rparr> = dynarr_list (pollfds w) ! pollfd_idx n"
    by (cases "dynarr_list (pollfds w) ! pollfd_idx n") simp
  then have "\<exists>r. dynarr_list (pollfds w) = (dynarr_list (pollfds w))[pollfd_idx n :=
      (dynarr_list (pollfds w) ! pollfd_idx n)\<lparr>pfd_revents := r, pfd_events := node_mask n\<rparr>]
      \<and> (r = pfd_revents (dynarr_list (pollfds w) ! pollfd_idx n) \<or> {u. armed n u} = {})"
    by (metis list_update_id)
  then show ?thesis
    using inv n by (auto simp: partly_def note_status_def nodes_kept_def)
qed

lemma cleanup_at_node:
  assumes "deref (async_handlers w) place = Some a"
  shows "cleanup_if_idle place parent w = do { n \<leftarrow> rb_load (async_handlers w) a; pollent \<leftarrow> dynarr_get (pollfds w) (pollfd_idx n);
    if pfd_events pollent = 0 then ioevt_cleanup_evt place parent w else Some w }"
  using assms by (simp add: cleanup_if_idle_def)

lemma partly_index:
  assumes p: "partly w m a n st D v nv" and k: "m k = Some a"
  obtains x where "pollfd_idx n < length (dynarr_list (pollfds w))" "dynarr_inv (pollfds v)"
    "dynarr_get (pollfds v) (pollfd_idx n) = Some x" "pfd_events x = node_mask nv"
proof -
  have v: "svc_inv v m" "node_data (async_handlers v) a = Some nv" "pollfd_idx nv = pollfd_idx n"
    and l: "length (dynarr_list (pollfds v)) = length (dynarr_list (pollfds w))"
    using p by (auto simp: partly_def simp del: length_dynarr_list)
  then have pk: "poll_ok v m" and inv: "dynarr_inv (pollfds v)" by (auto simp: svc_inv_def poll_ok_def Let_def)
  have "pollfd_idx nv < length (dynarr_list (pollfds v))" "pfd_events (dynarr_list (pollfds v) ! pollfd_idx nv) = node_mask nv"
    by (rule poll_okE [OF pk k]; use v(2) in simp)+
  then show ?thesis using that inv dynarr_get_list [OF inv, of "pollfd_idx nv"] l v(3) by (simp del: length_dynarr_list)
qed

lemma partly_called_out:
  assumes p: "partly w m a n st D v nv" and t: "armed nv t" and k: "m k = Some a" and c: "called_out v m a nv t st v2 n2"
  shows "partly w m a n st (D @ [t]) v2 n2"
proof -
  have v: "node_data (async_handlers v) a = Some nv" "same_links (async_handlers w) (async_handlers v)"
    and nk: "nodes_kept (async_handlers w) (async_handlers v) a" and sm: "\<And>u. u \<notin> set D \<Longrightarrow> same_event n nv u"
    using p by (simp_all add: partly_def)
  have "t \<notin> set D" "armed n t" using p t by (auto simp: partly_def)
  then have e: "handler (evt_of nv t) = handler (evt_of n t)" "status (evt_of nv t) = status (evt_of n t)"
    using sm [of t] by (auto simp: same_event_def)
  have ok: "others_kept (async_handlers v) (async_handlers v2) a t" and nd: "node_data (async_handlers v2) a = Some n2"
    using c by (simp_all add: called_out_def)
  have "same_event nv n2 u" if "u \<noteq> t" for u
    using ok v(1) nd that unfolding others_kept_def by fastforce
  then have same: "same_event n n2 u" if "u \<notin> set (D @ [t])" for u
    using that same_event_trans [OF sm] by auto
  have others: "nodes_kept (async_handlers w) (async_handlers v2) a"
    unfolding nodes_kept_def
  proof (intro allI impI)
    fix b nb assume b: "b \<noteq> a" "node_data (async_handlers w) b = Some nb"
    then obtain x where x: "node_data (async_handlers v) b = Some x" "pollfd_idx x = pollfd_idx nb" "\<And>u. same_event nb x u"
      using nk unfolding nodes_kept_def by blast
    then obtain y where "node_data (async_handlers v2) b = Some y" "pollfd_idx y = pollfd_idx x" "\<And>u. same_event x y u"
      using ok b(1) unfolding others_kept_def by blast
    then show "\<exists>n'. node_data (async_handlers v2) b = Some n' \<and> pollfd_idx n' = pollfd_idx nb \<and> (\<forall>u. same_event nb n' u)"
      using x same_event_trans by fastforce
  qed
  have "errcs v2 = note_status ((\<lambda>t. status (evt_of n t)) ` set (D @ [t])) st (errcs w)"
    using p c e by (auto simp: partly_def called_out_def note_status_def fun_eq_iff)
  moreover have "same_links (async_handlers w) (async_handlers v2)"
    using v(2) c same_links_trans by (auto simp: called_out_def)
  moreover have "\<exists>r. dynarr_list (pollfds v2) = (dynarr_list (pollfds w))[pollfd_idx n :=
      (dynarr_list (pollfds w) ! pollfd_idx n)\<lparr>pfd_revents := r, pfd_events := node_mask n2\<rparr>]
      \<and> (r = pfd_revents (dynarr_list (pollfds w) ! pollfd_idx n) \<or> {u. armed n2 u} = {})"
  proof -
    let ?x = "dynarr_list (pollfds w) ! pollfd_idx n"
    obtain r where r: "r = pfd_revents ?x" "dynarr_list (pollfds v) =
        (dynarr_list (pollfds w))[pollfd_idx n := ?x\<lparr>pfd_revents := r, pfd_events := node_mask nv\<rparr>]"
      using p t by (auto simp: partly_def)
    have "pollfd_idx n < length (dynarr_list (pollfds w))" by (rule partly_index [OF p k])
    then have "dynarr_list (pollfds v2) = (dynarr_list (pollfds w))[pollfd_idx n := ?x\<lparr>pfd_revents := r, pfd_events := node_mask n2\<rparr>]"
      using p c r(2) by (simp add: partly_def called_out_def del: length_dynarr_list)
    then show ?thesis using r(1) by blast
  qed
  moreover have "rest_kept w v2" using p c rest_kept_trans by (auto simp: partly_def called_out_def)
  ultimately show ?thesis
    using p c e same others nd unfolding partly_def called_out_def by auto
qed

lemma partly_step:
  assumes p: "partly w m a n st D v nv" and t: "armed nv t" and k: "m k = Some a" and call: "detached_in (svc_status w) call"
    and T: "rb_tree (async_handlers w) T" and pr: "rb_probe (async_handlers w) Root_ref k = Some (place, parent)"
  obtains v' nv' where "dispatch_one call place t now st v = Some v'" "partly w m a n st (D @ [t]) v' nv'"
proof -
  have v: "svc_inv v m" "node_data (async_handlers v) a = Some nv" "same_links (async_handlers w) (async_handlers v)" "svc_status v = svc_status w"
    using p by (simp_all add: partly_def)
  have TH: "tree_holds (async_handlers v) m" using v(1) by (simp add: svc_inv_def)
  have "rb_probe (async_handlers v) Root_ref k = Some (place, parent)"
    using pr probe_links [OF T v(3)] by simp
  then have dp: "deref (async_handlers v) place = Some a" using probe_old [OF TH _ k] by blast
  have c: "detached_in (svc_status v) call" using call v(4) by simp
  obtain v1 where v1: "iosvc_dequeue a t now st v = Some (handler (evt_of nv t), v1)"
      "\<forall>x \<in> set (events_list v). ent_key x = (a, t) \<longrightarrow> ints v1 (ah_remaining x) = time_left x now"
      "\<And>i. \<exists>w2 n2. invoke call (handler (evt_of nv t)) (v1\<lparr>ints := i\<rparr>) = Some w2 \<and> called_out v m a nv t st w2 n2 \<and> ints w2 = i"
    by (rule dequeue_invoke [OF v(1) k v(2) t c, where now = now and st = st]) (rule that)
  from v1(3) [of "ints v1"] obtain v2 n2 where v2: "invoke call (handler (evt_of nv t)) v1 = Some v2" "called_out v m a nv t st v2 n2"
    by auto
  have "dispatch_one call place t now st v = Some v2"
    using dp v1(1) v2(1) by (simp add: dispatch_one_def)
  then show ?thesis using that partly_called_out [OF p t k v2(2)] by blast
qed

text \<open>The same with a condition, as in the dispatch of one of the three kinds of events.\<close>

lemma partly_step_if:
  assumes "partly w m a n st D v nv" and "b \<Longrightarrow> armed n t" "t \<notin> set D" and "m k = Some a" and "detached_in (svc_status w) call"
    and "rb_tree (async_handlers w) T" and "rb_probe (async_handlers w) Root_ref k = Some (place, parent)"
  obtains v' nv' where "(if b then dispatch_one call place t now st v else Some v) = Some v'"
    "partly w m a n st (D @ (if b then [t] else [])) v' nv'"
proof (cases b)
  case True
  then have "armed nv t" using assms(1-3) by (auto simp: partly_def)
  from partly_step [OF assms(1) this assms(4-7)] show ?thesis using that True by auto
next
  case False
  then show ?thesis using that [of v nv] assms(1) by simp
qed

lemma cleanup_at_idle:
  assumes p: "partly w m a n st D v nv" and k: "m k = Some a"
  shows "cleanup_at place parent (pollfd_idx n) v =
    (if {u. armed nv u} = {} then map_option (Pair True) (ioevt_cleanup_evt place parent v) else Some (False, v))"
  by (rule partly_index [OF p k]) (auto simp: cleanup_at_def node_mask_of mask_of_empty bind_Pair)

text \<open>A descriptor's contents and the flags \<open>poll\<close> has reported for it.\<close>

definition look :: "'x world_scheme \<Rightarrow> (int \<rightharpoonup> addr) \<Rightarrow> int \<Rightarrow> rb_node option" where
  "look w m k = Option.bind (m k) (node_data (async_handlers w))"

definition revents_of :: "'x world_scheme \<Rightarrow> rb_node \<Rightarrow> pollmask" where
  "revents_of w n = pfd_revents (dynarr_list (pollfds w) ! pollfd_idx n)"

text \<open>\<open>handled w m k n st D w'\<close>: the handlers of the events \<open>D\<close> of descriptor \<open>k\<close> have been called in this order, told
  \<open>st\<close>; the other descriptors keep their events and their flags; the descriptor has left the tree and the poll
  vector if it has no further event.\<close>

definition handled ::
  "'x world_scheme \<Rightarrow> (int \<rightharpoonup> addr) \<Rightarrow> int \<Rightarrow> rb_node \<Rightarrow> io_errcode \<Rightarrow> io_wait_type list \<Rightarrow> 'x world_scheme \<Rightarrow> bool"
where
  "handled w m k n st D w' \<longleftrightarrow> svc_inv w' (if {u. armed n u} \<subseteq> set D then m(k := None) else m)
     \<and> calls w' = calls w @ map (\<lambda>t. handler (evt_of n t)) D
     \<and> errcs w' = note_status ((\<lambda>t. status (evt_of n t)) ` set D) st (errcs w) \<and> svc_status w' = svc_status w \<and> rest_kept w w'
     \<and> (\<forall>j nj. j \<noteq> k \<longrightarrow> look w m j = Some nj \<longrightarrow> (\<exists>nj'. look w' m j = Some nj' \<and> (\<forall>u. same_event nj nj' u)
          \<and> revents_of w' nj' = revents_of w nj
          \<and> pollfd_idx nj' = (if {u. armed n u} \<subseteq> set D \<and> pollfd_idx nj = length (dynarr_list (pollfds w)) - 1
                             then pollfd_idx n else pollfd_idx nj)))
     \<and> (\<not> {u. armed n u} \<subseteq> set D \<longrightarrow> same_links (async_handlers w) (async_handlers w')
          \<and> (\<exists>n'. look w' m k = Some n' \<and> pollfd_idx n' = pollfd_idx n \<and> revents_of w' n' = revents_of w n
               \<and> {u. armed n' u} = {u. armed n u} - set D
               \<and> (\<forall>u. u \<notin> set D \<longrightarrow> same_event n n' u)))"

lemma partly_others:
  assumes p: "partly w m a n st D v nv" and inv: "svc_inv w m" and k: "m k = Some a" and n: "node_data (async_handlers w) a = Some n"
    and j: "j \<noteq> k" "look w m j = Some nj"
  obtains b x where "m j = Some b" "b \<noteq> a" "b \<in> ran m" "node_data (async_handlers v) b = Some x" "pollfd_idx x = pollfd_idx nj"
    "\<forall>u. same_event nj x u" "pollfd_idx nj \<noteq> pollfd_idx n" "revents_of v x = revents_of w nj"
    "pollfd_idx nj < length (dynarr_list (pollfds w))"
proof -
  have pk: "poll_ok w m" and nk: "nodes_kept (async_handlers w) (async_handlers v) a" using inv p by (simp_all add: svc_inv_def partly_def)
  obtain b where b: "m j = Some b" "node_data (async_handlers w) b = Some nj"
    using j(2) by (auto simp: look_def bind_eq_Some)
  have ne: "pollfd_idx nj \<noteq> pollfd_idx n" using poll_index_unique [OF pk b(1) k b(2) n] j(1) by blast
  then have "b \<noteq> a" using b(2) n by auto
  then obtain x where x: "node_data (async_handlers v) b = Some x" "pollfd_idx x = pollfd_idx nj" "\<forall>u. same_event nj x u"
    using nk b(2) unfolding nodes_kept_def by blast
  moreover have "revents_of v x = revents_of w nj"
    using p ne x(2) by (auto simp: revents_of_def partly_def)
  moreover have "pollfd_idx nj < length (dynarr_list (pollfds w))"
    by (rule poll_okE [OF pk b(1)]) (use b(2) in simp)
  ultimately show ?thesis using that b(1) \<open>b \<noteq> a\<close> ne ranI [of m, OF b(1)] by blast
qed

lemma reindex_entry:
  assumes "i < length P" "pollfd_idx x < length P" "pollfd_idx x \<noteq> i"
  shows "drop_entry i P ! pollfd_idx (reindex (length P) i x) = P ! pollfd_idx x"
  using assms by (auto simp: reindex_def drop_entry last_conv_nth simp flip: length_greater_0_conv)

lemma gone_others:
  assumes p: "partly w m a n st D v nv" and inv: "svc_inv w m" and k: "m k = Some a" and n: "node_data (async_handlers w) a = Some n"
    and g: "node_gone v m k a (pollfd_idx n) w'" and j: "j \<noteq> k" "look w m j = Some nj"
  shows "\<exists>nj'. look w' m j = Some nj' \<and> (\<forall>u. same_event nj nj' u) \<and> revents_of w' nj' = revents_of w nj
        \<and> pollfd_idx nj' = (if pollfd_idx nj = length (dynarr_list (pollfds w)) - 1 then pollfd_idx n else pollfd_idx nj)"
proof -
  have l: "length (dynarr_list (pollfds v)) = length (dynarr_list (pollfds w))"
    using p by (auto simp: partly_def simp del: length_dynarr_list)
  obtain h d where hd: "w' = v\<lparr>async_handlers := h, pollfds := d\<rparr>" "dynarr_list d = drop_entry (pollfd_idx n) (dynarr_list (pollfds v))"
      "\<And>b x. b \<in> ran m \<Longrightarrow> b \<noteq> a \<Longrightarrow> node_data (async_handlers v) b = Some x \<Longrightarrow>
        node_data h b = Some (reindex (length (dynarr_list (pollfds v))) (pollfd_idx n) x)"
    using g unfolding node_gone_def by auto
  obtain b x where x: "m j = Some b" "b \<noteq> a" "b \<in> ran m" "node_data (async_handlers v) b = Some x" "pollfd_idx x = pollfd_idx nj"
      "\<forall>u. same_event nj x u" "pollfd_idx nj \<noteq> pollfd_idx n" "revents_of v x = revents_of w nj"
      "pollfd_idx nj < length (dynarr_list (pollfds w))"
    by (rule partly_others [OF p inv k n j])
  let ?x = "reindex (length (dynarr_list (pollfds v))) (pollfd_idx n) x"
  have "pollfd_idx n < length (dynarr_list (pollfds v))" unfolding l by (rule partly_index [OF p k])
  then have "revents_of w' ?x = revents_of v x"
    using reindex_entry [of "pollfd_idx n" "dynarr_list (pollfds v)" x] x(5,7,9) l
    by (simp add: revents_of_def hd(1,2) del: length_dynarr_list)
  moreover have "look w' m j = Some ?x" using hd(1,3) x(1-4) by (simp add: look_def)
  moreover have "same_event nj ?x u" for u
    using x(6) by (auto simp: same_event_def evt_of_def)
  moreover have "pollfd_idx ?x = (if pollfd_idx nj = length (dynarr_list (pollfds w)) - 1 then pollfd_idx n else pollfd_idx nj)"
    using x(5) l by (simp add: reindex_def del: length_dynarr_list)
  ultimately show ?thesis using x(8) by auto
qed

lemma cleanup_handled:
  assumes inv: "svc_inv w m" and p: "partly w m a n st D v nv" and k: "m k = Some a" and n: "node_data (async_handlers w) a = Some n"
    and pr: "rb_probe (async_handlers v) Root_ref k = Some (place, parent)"
    and safe: "{u. armed n u} \<subseteq> set D \<Longrightarrow> extract_safe (async_handlers w) a"
  obtains w' where "cleanup_at place parent (pollfd_idx n) v = Some ({u. armed n u} \<subseteq> set D, w')" "handled w m k n st D w'"
proof -
  have v: "svc_inv v m" "node_data (async_handlers v) a = Some nv" "pollfd_idx nv = pollfd_idx n" "{u. armed nv u} = {u. armed n u} - set D"
      "\<And>u. u \<notin> set D \<Longrightarrow> same_event n nv u" "same_links (async_handlers w) (async_handlers v)"
      "calls v = calls w @ map (\<lambda>t. handler (evt_of n t)) D"
      "errcs v = note_status ((\<lambda>t. status (evt_of n t)) ` set D) st (errcs w)" "svc_status v = svc_status w" "rest_kept w v"
    using p by (simp_all add: partly_def)
  show ?thesis
  proof (cases "{u. armed n u} \<subseteq> set D")
    case True
    then have idle: "{u. armed nv u} = {}" using v(4) by blast
    obtain w' where w': "ioevt_cleanup_evt place parent v = Some w'" "node_gone v m k a (pollfd_idx nv) w'"
      using cleanup_exec [OF v(1) k v(2) pr extract_safe_links [OF v(6) safe [OF True]]] .
    have g: "node_gone v m k a (pollfd_idx n) w'" using w'(2) v(3) by simp
    have "svc_inv w' (m(k := None))"
      using svc_inv_gone [OF v(1) k v(2) _ w'(2)] idle by blast
    moreover have "calls w' = calls v" "errcs w' = errcs v" "svc_status w' = svc_status v" "rest_kept w w'"
      using g v(10) unfolding node_gone_def by auto
    ultimately have "handled w m k n st D w'" using True v(7-9) gone_others [OF p inv k n g] unfolding handled_def by simp
    then show ?thesis using that cleanup_at_idle [OF p k] idle w'(1) True by simp
  next
    case False
    then have busy: "{u. armed nv u} \<noteq> {}" using v(4) by blast
    have "\<exists>nj'. look v m j = Some nj' \<and> (\<forall>u. same_event nj nj' u) \<and> revents_of v nj' = revents_of w nj \<and> pollfd_idx nj' = pollfd_idx nj"
      if j: "j \<noteq> k" "look w m j = Some nj" for j nj
      by (rule partly_others [OF p inv k n j]) (simp add: look_def)
    moreover have "look v m k = Some nv" using k v(2) by (simp add: look_def)
    moreover have "revents_of v nv = revents_of w n"
    proof -
      have "pollfd_idx n < length (dynarr_list (pollfds w))" by (rule partly_index [OF p k])
      then show ?thesis using p busy by (auto simp: partly_def revents_of_def simp del: length_dynarr_list)
    qed
    ultimately have "handled w m k n st D v" using False v unfolding handled_def by simp
    then show ?thesis using that cleanup_at_idle [OF p k] busy False by simp
  qed
qed

section \<open>Dispatch of one descriptor\<close>

text \<open>The flags \<open>poll\<close> reports for a kind of event. An error alone reports nothing: the test of
  \<open>dispatch_ready_events\<close> for it compares the requested events with \<open>POLLERR\<close> alone, and they never are that.\<close>

fun reported :: "pollmask \<Rightarrow> io_wait_type \<Rightarrow> bool" where
  "reported r WAIT_EXCEPTION \<longleftrightarrow> r AND POLLPRI \<noteq> 0"
| "reported r WAIT_READ \<longleftrightarrow> r AND (POLLIN OR POLLHUP OR POLLRDBAND OR POLLRDNORM) \<noteq> 0"
| "reported r WAIT_WRITE \<longleftrightarrow> r AND (POLLOUT OR POLLWRNORM OR POLLWRBAND) \<noteq> 0"

lemma mask_not_POLLERR: "mask_of S AND NOT POLLPRI \<noteq> POLLERR"
  by (simp add: mask_of_def mask_defs)

lemma read_ready_reported: "read_ready r (mask_of S) = reported r WAIT_READ"
  by (simp add: read_ready_def Let_def mask_not_POLLERR)

lemma write_ready_reported: "write_ready r = reported r WAIT_WRITE"
  by (simp add: write_ready_def)

definition dispatch_order :: "io_wait_type list" where
  "dispatch_order = [WAIT_EXCEPTION, WAIT_READ, WAIT_WRITE]"

lemma set_dispatch_order [simp]: "set dispatch_order = UNIV"
  using io_wait_type.exhaust by (auto simp: dispatch_order_def)

lemma dispatch_valid_exec:
  assumes inv: "svc_inv w m" and k: "m k = Some a" and n: "node_data (async_handlers w) a = Some n"
    and r: "r = pfd_revents (dynarr_list (pollfds w) ! pollfd_idx n)" "\<forall>t. reported r t \<longrightarrow> armed n t"
    and call: "detached_in (svc_status w) call" and pr: "rb_probe (async_handlers w) Root_ref k = Some (place, parent)"
  obtains v nv where "partly w m a n EIO_OK (filter (reported r) dispatch_order) v nv"
    "rb_probe (async_handlers v) Root_ref k = Some (place, parent)"
    "dispatch_valid call (pollfd_idx n) place parent now w = cleanup_at place parent (pollfd_idx n) v"
proof -
  obtain T where T: "rb_tree (async_handlers w) T" using inv by (auto simp: svc_inv_def tree_holds_def)
  note p0 = partly_refl [OF inv k n, of EIO_OK] and c = k call T pr
  let ?D1 = "[] @ (if reported r WAIT_EXCEPTION then [WAIT_EXCEPTION] else [])"
  let ?D2 = "?D1 @ (if reported r WAIT_READ then [WAIT_READ] else [])"
  let ?D3 = "?D2 @ (if reported r WAIT_WRITE then [WAIT_WRITE] else [])"
  have ar: "\<And>t. reported r t \<Longrightarrow> armed n t" and d: "WAIT_EXCEPTION \<notin> set []" "WAIT_READ \<notin> set ?D1" "WAIT_WRITE \<notin> set ?D2"
    using r(2) by auto
  obtain v1 n1 where v1: "(if reported r WAIT_EXCEPTION then dispatch_one call place WAIT_EXCEPTION now EIO_OK w else Some w) = Some v1"
      "partly w m a n EIO_OK ?D1 v1 n1"
    by (rule partly_step_if [OF p0 ar d(1) c])
  obtain v2 n2 where v2: "(if reported r WAIT_READ then dispatch_one call place WAIT_READ now EIO_OK v1 else Some v1) = Some v2"
      "partly w m a n EIO_OK ?D2 v2 n2"
    by (rule partly_step_if [OF v1(2) ar d(2) c])
  obtain v3 n3 where v3: "(if reported r WAIT_WRITE then dispatch_one call place WAIT_WRITE now EIO_OK v2 else Some v2) = Some v3"
      "partly w m a n EIO_OK ?D3 v3 n3"
    by (rule partly_step_if [OF v2(2) ar d(3) c])
  have "filter (reported r) dispatch_order = ?D3"
    by (simp add: dispatch_order_def)
  then have p: "partly w m a n EIO_OK (filter (reported r) dispatch_order) v3 n3" using v3(2) by (simp only:)
  have sl: "same_links (async_handlers w) (async_handlers v3)" using p by (simp add: partly_def)
  have "rb_probe (async_handlers v3) Root_ref k = Some (place, parent)" using probe_links [OF T sl] pr by simp
  moreover have "dispatch_valid call (pollfd_idx n) place parent now w = cleanup_at place parent (pollfd_idx n) v3"
  proof -
    have i: "dynarr_inv (pollfds w)" "pollfd_idx n < length (dynarr_list (pollfds w))"
      by (rule partly_index [OF p0 k], assumption)+
    obtain x where x: "dynarr_get (pollfds w) (pollfd_idx n) = Some x" "pfd_revents x = r"
      using dynarr_get_list [OF i] r(1) by blast
    obtain y where y: "dynarr_get (pollfds v1) (pollfd_idx n) = Some y" "pfd_events y = mask_of {u. armed n1 u}"
      by (rule partly_index [OF v1(2) k]) (use that in \<open>simp add: node_mask_of\<close>)
    show ?thesis
      unfolding dispatch_valid_def x Let_def bind.bind_lunit write_ready_reported reported.simps(1) [symmetric] v1(1)
        y read_ready_reported v2(1) v3(1) ..
  qed
  ultimately show ?thesis using that p by blast
qed

lemma dispatch_valid_handled:
  assumes inv: "svc_inv w m" and k: "m k = Some a" and n: "node_data (async_handlers w) a = Some n"
    and r: "r = revents_of w n" "\<forall>t. reported r t \<longrightarrow> armed n t"
    and call: "detached_in (svc_status w) call" and pr: "rb_probe (async_handlers w) Root_ref k = Some (place, parent)"
    and safe: "{u. armed n u} \<subseteq> {t. reported r t} \<Longrightarrow> extract_safe (async_handlers w) a"
  obtains w' where "dispatch_valid call (pollfd_idx n) place parent now w = Some ({u. armed n u} \<subseteq> {t. reported r t}, w')"
    "handled w m k n EIO_OK (filter (reported r) dispatch_order) w'"
proof -
  obtain v nv where v: "partly w m a n EIO_OK (filter (reported r) dispatch_order) v nv"
      "rb_probe (async_handlers v) Root_ref k = Some (place, parent)"
      "dispatch_valid call (pollfd_idx n) place parent now w = cleanup_at place parent (pollfd_idx n) v"
    by (rule dispatch_valid_exec [OF inv k n r(1)[unfolded revents_of_def] r(2) call pr])
  obtain w' where "cleanup_at place parent (pollfd_idx n) v = Some ({u. armed n u} \<subseteq> set (filter (reported r) dispatch_order), w')"
      "handled w m k n EIO_OK (filter (reported r) dispatch_order) w'"
    by (rule cleanup_handled [OF inv v(1) k n v(2)]) (use safe in auto)
  then show ?thesis using that v(3) by simp
qed

text \<open>A descriptor \<open>poll\<close> found invalid: all its events are taken out.\<close>

fun poll_flag :: "io_wait_type \<Rightarrow> pollmask" where
  "poll_flag WAIT_READ = POLLIN"
| "poll_flag WAIT_WRITE = POLLOUT"
| "poll_flag WAIT_EXCEPTION = POLLPRI"

lemma mask_of_flag: "mask_of S AND poll_flag t \<noteq> 0 \<longleftrightarrow> t \<in> S"
  by (cases t) (simp_all add: mask_of_def mask_defs)

lemma flag_step:
  assumes p: "partly w m a n EIO_INVARG D v nv" and t: "t \<notin> set D" and c: "m k = Some a" "detached_in (svc_status w) call"
    "rb_tree (async_handlers w) T" "rb_probe (async_handlers w) Root_ref k = Some (place, parent)"
  obtains v' nv' where "dispatch_flag call (pollfd_idx n) place now (poll_flag t, t) v = Some v'"
    "partly w m a n EIO_INVARG (D @ (if armed n t then [t] else [])) v' nv'"
proof -
  obtain x where x: "dynarr_get (pollfds v) (pollfd_idx n) = Some x" "pfd_events x = node_mask nv"
    by (rule partly_index [OF p c(1)])
  have "pfd_events x AND poll_flag t \<noteq> 0 \<longleftrightarrow> armed n t"
    unfolding x(2) node_mask_of mask_of_flag using p t by (auto simp: partly_def same_event_def)
  then have run: "dispatch_flag call (pollfd_idx n) place now (poll_flag t, t) v =
      (if armed n t then dispatch_one call place t now EIO_INVARG v else Some v)"
    unfolding dispatch_flag_def x(1) bind.bind_lunit fst_conv snd_conv by simp
  show ?thesis
    by (rule partly_step_if [OF p _ t c, where b = "armed n t" and now = now]) (use that run in auto)
qed

lemma pollfd_upd_commute: "p\<lparr>pfd_events := e, pfd_revents := r\<rparr> = p\<lparr>pfd_revents := r, pfd_events := e\<rparr>"
  by (cases p) simp

lemma svc_inv_revents:
  assumes inv: "svc_inv w m" and d: "dynarr_inv d" "length (dynarr_list d) = length (dynarr_list (pollfds w))"
    and e: "\<And>j. j < length (dynarr_list d) \<Longrightarrow> pfd_fd (dynarr_list d ! j) = pfd_fd (dynarr_list (pollfds w) ! j)
      \<and> pfd_events (dynarr_list d ! j) = pfd_events (dynarr_list (pollfds w) ! j)"
  shows "svc_inv (w\<lparr>pollfds := d\<rparr>) m"
proof -
  have "poll_ok (w\<lparr>pollfds := d\<rparr>) m"
    unfolding poll_ok_def Let_def
  proof (intro conjI allI impI)
    have pk: "poll_ok w m" using inv by (simp add: svc_inv_def)
    then show "length (dynarr_list (pollfds (w\<lparr>pollfds := d\<rparr>))) = card (dom m)"
      using d(2) by (simp add: poll_ok_def Let_def del: length_dynarr_list)
    fix k a assume k: "m k = Some a"
    show "\<exists>n. node_data (async_handlers (w\<lparr>pollfds := d\<rparr>)) a = Some n \<and> fd n = k \<and> node_ok n
        \<and> pollfd_idx n < length (dynarr_list (pollfds (w\<lparr>pollfds := d\<rparr>)))
        \<and> pfd_fd (dynarr_list (pollfds (w\<lparr>pollfds := d\<rparr>)) ! pollfd_idx n) = k
        \<and> pfd_events (dynarr_list (pollfds (w\<lparr>pollfds := d\<rparr>)) ! pollfd_idx n) = node_mask n"
      by (rule poll_okE [OF pk k]) (use d(2) e in \<open>simp del: length_dynarr_list\<close>)
  qed (simp add: d(1))
  then show ?thesis
    using inv by (simp add: svc_inv_def delay_ok_def timers_ok_def events_ok_def heap_idx_ok_def events_list_def)
qed

lemma partly_revents:
  assumes p: "partly w m a n st D v nv" and k: "m k = Some a" and none: "{u. armed nv u} = {}"
  obtains x p' where "dynarr_get (pollfds v) (pollfd_idx n) = Some x"
    "dynarr_set (pollfds v) (pollfd_idx n) (x\<lparr>pfd_revents := r\<rparr>) = Some p'" "partly w m a n st D (v\<lparr>pollfds := p'\<rparr>) nv"
proof -
  let ?P = "dynarr_list (pollfds v)" and ?i = "pollfd_idx n"
  have l: "length ?P = length (dynarr_list (pollfds w))" and inv: "svc_inv v m"
    using p by (auto simp: partly_def simp del: length_dynarr_list)
  obtain x where x: "?i < length ?P" "dynarr_inv (pollfds v)" "dynarr_get (pollfds v) ?i = Some x"
    unfolding l by (rule partly_index [OF p k])
  then have x': "x = ?P ! ?i" using dynarr_get_list [OF x(2,1)] by simp
  obtain p' where p': "dynarr_set (pollfds v) ?i (x\<lparr>pfd_revents := r\<rparr>) = Some p'" "dynarr_inv p'"
      "dynarr_list p' = ?P[?i := x\<lparr>pfd_revents := r\<rparr>]"
    using dynarr_set_list [OF x(2,1)] .
  have "svc_inv (v\<lparr>pollfds := p'\<rparr>) m"
    by (rule svc_inv_revents [OF inv p'(2)]) (use x(1) in \<open>auto simp: p'(3) x' nth_list_update simp del: length_dynarr_list\<close>)
  then have "partly w m a n st D (v\<lparr>pollfds := p'\<rparr>) nv"
    using p x(1) l none by (auto simp: partly_def p'(3) x' pollfd_upd_commute simp del: length_dynarr_list)
  then show ?thesis using that x(3) p'(1) by blast
qed

definition invalid_order :: "io_wait_type list" where
  "invalid_order = [WAIT_READ, WAIT_WRITE, WAIT_EXCEPTION]"

lemma set_invalid_order [simp]: "set invalid_order = UNIV"
  using io_wait_type.exhaust by (auto simp: invalid_order_def)

lemma dispatch_invalid_handled:
  assumes inv: "svc_inv w m" and k: "m k = Some a" and n: "node_data (async_handlers w) a = Some n"
    and call: "detached_in (svc_status w) call" and pr: "rb_probe (async_handlers w) Root_ref k = Some (place, parent)"
    and safe: "extract_safe (async_handlers w) a"
  obtains w' where "dispatch_invalid call (pollfd_idx n) place parent now w = Some w'"
    "handled w m k n EIO_INVARG (filter (armed n) invalid_order) w'"
proof -
  obtain T where T: "rb_tree (async_handlers w) T" using inv by (auto simp: svc_inv_def tree_holds_def)
  note p0 = partly_refl [OF inv k n, of EIO_INVARG] and c = k call T pr
  let ?D1 = "[] @ (if armed n WAIT_READ then [WAIT_READ] else [])"
  let ?D2 = "?D1 @ (if armed n WAIT_WRITE then [WAIT_WRITE] else [])"
  let ?D = "filter (armed n) invalid_order"
  have d: "WAIT_READ \<notin> set []" "WAIT_WRITE \<notin> set ?D1" "WAIT_EXCEPTION \<notin> set ?D2"
    "?D2 @ (if armed n WAIT_EXCEPTION then [WAIT_EXCEPTION] else []) = ?D"
    by (auto simp: invalid_order_def)
  obtain v1 n1 where v1: "dispatch_flag call (pollfd_idx n) place now (poll_flag WAIT_READ, WAIT_READ) w = Some v1"
      "partly w m a n EIO_INVARG ?D1 v1 n1"
    by (rule flag_step [OF p0 d(1) c])
  obtain v2 n2 where v2: "dispatch_flag call (pollfd_idx n) place now (poll_flag WAIT_WRITE, WAIT_WRITE) v1 = Some v2"
      "partly w m a n EIO_INVARG ?D2 v2 n2"
    by (rule flag_step [OF v1(2) d(2) c])
  obtain v3 n3 where v3: "dispatch_flag call (pollfd_idx n) place now (poll_flag WAIT_EXCEPTION, WAIT_EXCEPTION) v2 = Some v3"
      "partly w m a n EIO_INVARG ?D v3 n3"
    by (rule flag_step [OF v2(2) d(3) c, unfolded d(4)])
  obtain x q where x: "dynarr_get (pollfds v3) (pollfd_idx n) = Some x"
      "dynarr_set (pollfds v3) (pollfd_idx n) (x\<lparr>pfd_revents := 0\<rparr>) = Some q" "partly w m a n EIO_INVARG ?D (v3\<lparr>pollfds := q\<rparr>) n3"
    by (rule partly_revents [OF v3(2) k]) (use v3(2) in \<open>auto simp: partly_def\<close>)
  have sl: "same_links (async_handlers w) (async_handlers v3)" using v3(2) by (simp add: partly_def)
  obtain w' where w': "cleanup_at place parent (pollfd_idx n) (v3\<lparr>pollfds := q\<rparr>) = Some ({u. armed n u} \<subseteq> set ?D, w')"
      "handled w m k n EIO_INVARG ?D w'"
    by (rule cleanup_handled [OF inv x(3) k n _ safe]) (use probe_links [OF T sl] pr in auto)
  have "dispatch_invalid call (pollfd_idx n) place parent now w = Some w'"
    using v1(1) v2(1) v3(1) x w'(1) by (simp add: dispatch_invalid_def with_pollfds_def)
  then show ?thesis using that w'(2) by blast
qed


text \<open>The demo service after \<open>poll\<close> has reported \<open>r\<close> for its descriptor.\<close>

definition demo_reported :: "pollmask \<Rightarrow> world" where
  "demo_reported r = demo_service\<lparr>pollfds := the (set_revents [r] 0 (pollfds demo_service))\<rparr>"

lemma demo_pollfds: "pollfd_idx demo_node = 0" "dynarr_inv (pollfds demo_service)" "length (dynarr_list (pollfds demo_service)) = 1"
  unfolding demo_node_def demo_service_def by code_simp+

lemma demo_reported:
  "svc_inv (demo_reported r) [5 \<mapsto> 16]" "node_data (async_handlers (demo_reported r)) 16 = Some demo_node"
  "revents_of (demo_reported r) demo_node = r" "calls (demo_reported r) = []" "extract_safe (async_handlers (demo_reported r)) 16"
  "rb_probe (async_handlers (demo_reported r)) Root_ref 5 = Some (Root_ref, 0)" "svc_status (demo_reported r) = READY"
proof -
  let ?P = "dynarr_list (pollfds demo_service)"
  have i: "0 < length ?P" using demo_pollfds(3) by (simp del: length_dynarr_list)
  obtain d where d: "dynarr_set (pollfds demo_service) 0 ((?P ! 0)\<lparr>pfd_revents := r\<rparr>) = Some d" "dynarr_inv d"
      "dynarr_list d = ?P[0 := (?P ! 0)\<lparr>pfd_revents := r\<rparr>]"
    using dynarr_set_list [OF demo_pollfds(2) i] .
  have e: "demo_reported r = demo_service\<lparr>pollfds := d\<rparr>"
    using d(1) dynarr_get_list [OF demo_pollfds(2) i] by (simp add: demo_reported_def)
  show "svc_inv (demo_reported r) [5 \<mapsto> 16]"
    unfolding e by (rule svc_inv_revents [OF demo_service(1) d(2)])
      (use i in \<open>auto simp: d(3) nth_list_update simp del: length_dynarr_list\<close>)
  show "node_data (async_handlers (demo_reported r)) 16 = Some demo_node" "calls (demo_reported r) = []"
      "svc_status (demo_reported r) = READY"
    by (simp_all add: e demo_service(2,5,8))
  show "revents_of (demo_reported r) demo_node = r"
    using i by (simp add: e revents_of_def demo_pollfds(1) d(3) del: length_dynarr_list)
  have "extract_safe (async_handlers demo_service) 16" "rb_probe (async_handlers demo_service) Root_ref 5 = Some (Root_ref, 0)"
    unfolding demo_service_def by code_simp+
  then show "extract_safe (async_handlers (demo_reported r)) 16"
      "rb_probe (async_handlers (demo_reported r)) Root_ref 5 = Some (Root_ref, 0)"
    by (simp_all add: e)
qed

lemma demo_armed: "armed demo_node t \<longleftrightarrow> t = WAIT_READ" "handler (evt_of demo_node WAIT_READ) = demo_handler 1"
    "status (evt_of demo_node WAIT_READ) = 40"
  using demo_service(3,4) by (auto simp: evt_of_def)

lemma reported_POLLIN: "reported POLLIN t \<longleftrightarrow> t = WAIT_READ"
  by (cases t) (simp_all add: poll_bits)

lemma order_POLLIN: "filter (reported POLLIN) [WAIT_EXCEPTION, WAIT_READ, WAIT_WRITE] = [WAIT_READ]"
  by (simp add: poll_bits)

lemma demo_gone: "[5 \<mapsto> 16](5 := None) = Map.empty"
  by simp


text \<open>
  C22. A descriptor \<open>poll\<close> found invalid: every pending event is taken out in the order read, write, exception, its
  handler called once and told \<open>EIO_INVARG\<close>, and the descriptor leaves the tree and the poll vector.
\<close>

theorem dispatch_invalid_correct:
  assumes "svc_inv w m" and "m k = Some a" and "node_data (async_handlers w) a = Some n" and "detached_in (svc_status w) call"
    and "rb_probe (async_handlers w) Root_ref k = Some (place, parent)" and "extract_safe (async_handlers w) a"
  shows "\<exists>w'. dispatch_invalid call (pollfd_idx n) place parent now w = Some w'
    \<and> calls w' = calls w @ map (\<lambda>t. handler (evt_of n t)) (filter (armed n) [WAIT_READ, WAIT_WRITE, WAIT_EXCEPTION])
    \<and> errcs w' = note_status ((\<lambda>t. status (evt_of n t)) ` {t. armed n t}) EIO_INVARG (errcs w) \<and> svc_inv w' (m(k := None))"
proof -
  obtain w' where "dispatch_invalid call (pollfd_idx n) place parent now w = Some w'"
      "handled w m k n EIO_INVARG (filter (armed n) invalid_order) w'"
    by (rule dispatch_invalid_handled [OF assms])
  then show ?thesis unfolding handled_def by (auto simp: invalid_order_def [symmetric])
qed

theorem dispatch_invalid_correct_witness:
  "\<exists>w'. dispatch_invalid (\<lambda>_. Some) 0 Root_ref 0 7 (demo_reported POLLNVAL) = Some w' \<and> calls w' = [demo_handler 1]
    \<and> errcs w' 40 = EIO_INVARG \<and> svc_inv w' Map.empty"
proof -
  let ?w = "demo_reported POLLNVAL"
  note d = demo_reported [of POLLNVAL]
  have h: "[5 \<mapsto> 16] 5 = Some (16 :: addr)" "detached_in (svc_status ?w) (\<lambda>_. Some :: world \<Rightarrow> world option)"
    by (simp_all add: detached_in_def)
  show ?thesis
    using dispatch_invalid_correct [OF d(1) h(1) d(2) h(2) d(6,5), of 7]
    unfolding d(4) demo_gone by (auto simp: demo_pollfds(1) demo_armed note_status_def)
qed

text \<open>The hypothesis that only requested events are reported is needed: \<open>poll\<close> reports a hang-up whether requested or not, and
  where only a write is pending the read handler that is then called does not exist.\<close>

lemma hangup_faults:
  "let w = snd (the (iosvc_sched (demo_event 5 WAIT_WRITE) (demo_handler 1) 40 fresh_world)) in
   Option.is_none (dispatch_valid (\<lambda>_. Some) 0 Root_ref 0 0 (w\<lparr>pollfds := the (set_revents [POLLHUP] 0 (pollfds w))\<rparr>))"
  by code_simp

text \<open>An error alone is not reported to anybody, whatever is pending.\<close>

lemma error_not_reported: "filter (reported POLLERR) dispatch_order = []"
  by (simp add: dispatch_order_def poll_bits)

section \<open>Expiry of a timed event\<close>

lemma timeout_event_exec:
  assumes "svc_inv w m" and "events_list w \<noteq> []" and e: "e = events_list w ! 0" and "m k = Some (ah_io_op_data e)"
    and "node_data (async_handlers w) (ah_io_op_data e) = Some n" and "get_evt_data n (ah_event_type e) = Some d"
    and "detached_in (svc_status w) call"
    and "{u. armed n u} = {ah_event_type e} \<longrightarrow> extract_safe (async_handlers w) (ah_io_op_data e)"
  shows "\<exists>w'. timeout_first call True now w = Some w' \<and> calls w' = calls w @ [handler d]
    \<and> svc_inv w' (if {u. armed n u} = {ah_event_type e} then m(k := None) else m)
    \<and> ints w' (ah_remaining e) = 0 \<and> (status d \<noteq> NULL \<longrightarrow> errcs w' (status d) = EIO_TIMEOUT)
    \<and> set (events_list w') = set (events_list w) - {e} \<and> rest_kept w w'"
proof -
  let ?a = "ah_io_op_data e" and ?t = "ah_event_type e" and ?h = "async_handlers w"
  have TH: "tree_holds ?h m" and tm: "timers_ok w m" and idx: "heap_idx_ok w"
    using assms(1) by (auto simp: svc_inv_def timers_ok_def events_ok_def)
  obtain T where T: "rb_tree ?h T" "tree_map T = m" using TH by (auto simp: tree_holds_def)
  have len: "0 < length (events_list w)" using assms(2) by simp
  then have el: "e \<in> set (events_list w)" using e by simp
  have t: "armed n ?t" "ah_remaining e \<noteq> NULL" "evt_of n ?t = d"
    using tm el assms(5,6) by (auto simp: timers_ok_def evt_of_def)
  have top: "dynarr_get (timed_events_heap w) (dynarr_front (timed_events_heap w)) = Some e"
    using idx len e by (simp add: heap_idx_ok_def dynarr_front_def dynarr_get_list events_list_def del: length_dynarr_list)
  obtain w1 where w1: "iosvc_dequeue ?a ?t now EIO_TIMEOUT w = Some (handler (evt_of n ?t), w1)"
      "\<forall>x \<in> set (events_list w). ent_key x = (?a, ?t) \<longrightarrow> ints w1 (ah_remaining x) = time_left x now"
      "\<And>i. \<exists>w2 n2. invoke call (handler (evt_of n ?t)) (w1\<lparr>ints := i\<rparr>) = Some w2 \<and> called_out w m ?a n ?t EIO_TIMEOUT w2 n2 \<and> ints w2 = i"
    by (rule dequeue_invoke [OF assms(1,4,5) t(1) assms(7), where now = now and st = EIO_TIMEOUT]) (rule that)
  from w1(3) [of "(ints w1)(ah_remaining e := 0)"] obtain w2 n2 where w2:
      "invoke call (handler d) (w1\<lparr>ints := (ints w1)(ah_remaining e := 0)\<rparr>) = Some w2" "called_out w m ?a n ?t EIO_TIMEOUT w2 n2"
      "ints w2 (ah_remaining e) = 0"
    by (auto simp: t(3))
  have c: "svc_inv w2 m" "node_data (async_handlers w2) ?a = Some n2" "{u. armed n2 u} = {u. armed n u} - {?t}"
      "set (events_list w2) = {x \<in> set (events_list w). ent_key x \<noteq> (?a, ?t)}" "calls w2 = calls w @ [handler d]"
      "errcs w2 = (if status d = NULL then errcs w else (errcs w)(status d := EIO_TIMEOUT))"
      "same_links ?h (async_handlers w2)" "rest_kept w w2"
    using w2(2) by (simp_all add: called_out_def t(3))
  have T2: "tree_holds (async_handlers w2) m" using c(1) by (simp add: svc_inv_def)
  obtain place parent where pr: "rb_probe (async_handlers w2) Root_ref k = Some (place, parent)"
    using probe_runs [OF T2] .
  have idle: "{u. armed n2 u} = {} \<longleftrightarrow> {u. armed n u} = {?t}" using c(3) t(1) by auto
  obtain w' where w': "cleanup_if_idle place parent w2 = Some w'"
      "svc_inv w' (if {u. armed n2 u} = {} then m(k := None) else m)" "\<exists>h d. w' = w2\<lparr>async_handlers := h, pollfds := d\<rparr>"
  proof (rule cleanup_if_idle_exec [OF c(1) assms(4) c(2) pr])
    show "extract_safe (async_handlers w2) ?a" if "{u. armed n2 u} = {}"
      using that idle assms(8) extract_safe_links [OF c(7)] by simp
  qed (rule that)
  have "timeout_first call True now w = Some w'"
    using top w1(1) w2(1) t ref_to_this_probe [OF T2 assms(4) pr] w'(1) cleanup_at_node [OF probe_old [OF T2 pr assms(4)]]
    by (simp add: timeout_first_def timeout_event_def put_int_def Let_def)
  moreover have "calls w' = calls w @ [handler d]" "errcs w' = errcs w2" "ints w' = ints w2" "events_list w' = events_list w2" "rest_kept w w'"
    using w'(3) c(5,8) by (auto simp: events_list_def)
  moreover have "{x \<in> set (events_list w). ent_key x \<noteq> (?a, ?t)} = set (events_list w) - {e}"
    using distinct_keys [OF idx] el by (auto simp: ent_key_def distinct_map inj_on_def)
  ultimately show ?thesis
    using w'(2) c(4,6) w2(3) unfolding idle by auto
qed

text \<open>
  C9. Expiry of the timed event with the earliest deadline: its handler is called exactly once, told
  \<open>EIO_TIMEOUT\<close> and a remaining time of zero, its entry and no other leaves the heap, a descriptor without
  further events leaves the tree and the poll vector, and the service invariant is kept.
\<close>

theorem timeout_event_correct:
  assumes "svc_inv w m" and "events_list w \<noteq> []" and e: "e = events_list w ! 0" and "m k = Some (ah_io_op_data e)"
    and "node_data (async_handlers w) (ah_io_op_data e) = Some n" and "get_evt_data n (ah_event_type e) = Some d"
    and "detached_in (svc_status w) call"
    and "{u. armed n u} = {ah_event_type e} \<longrightarrow> extract_safe (async_handlers w) (ah_io_op_data e)"
  shows "\<exists>w'. timeout_first call True now w = Some w' \<and> calls w' = calls w @ [handler d]
    \<and> svc_inv w' (if {u. armed n u} = {ah_event_type e} then m(k := None) else m)
    \<and> ints w' (ah_remaining e) = 0 \<and> (status d \<noteq> NULL \<longrightarrow> errcs w' (status d) = EIO_TIMEOUT)
    \<and> set (events_list w') = set (events_list w) - {e} \<and> rest_kept w w'"
  using assms by (rule timeout_event_exec)

text \<open>Descriptor 5 with a read pending and a write pending for 100 milliseconds.\<close>

definition demo_timed :: world where
  "demo_timed = snd (the (iosvc_sched_timeout (demo_event 5 WAIT_WRITE) (demo_handler 2) NULL 48
     (demo_service\<lparr>mallocs := \<lambda>_. Some 800, clock := \<lambda>_. 7, ints := \<lambda>_. 100\<rparr>)))"

lemma demo_timed:
  obtains n d where "svc_inv demo_timed [5 \<mapsto> 16]" "node_data (async_handlers demo_timed) 16 = Some n"
    "{u. armed n u} = {WAIT_WRITE, WAIT_READ}" "get_evt_data n WAIT_WRITE = Some d" "handler d = demo_handler 2"
    "events_list demo_timed = [\<lparr>ah_deadline = 107, ah_remaining = 48, ah_io_op_data = 16, ah_event_type = WAIT_WRITE\<rparr>]"
proof -
  let ?w = "demo_service\<lparr>mallocs := \<lambda>_. Some 800, clock := \<lambda>_. 7, ints := \<lambda>_. 100\<rparr>"
  have w: "svc_inv ?w [5 \<mapsto> 16]" "events_list ?w = []"
    using unchanged_svc_inv [OF demo_service(1)] by (simp_all add: events_list_def demo_service(7))
  have "\<not> armed demo_node WAIT_WRITE" "svc_status ?w \<in> {READY, RUNNING}" "\<forall>i. mallocs ?w i \<noteq> None"
      "node_data (async_handlers ?w) 16 = Some demo_node" "(48 :: addr) \<noteq> NULL" "0 \<le> clock ?w 0 + ints ?w 48"
    using demo_service(2,4,5) by auto
  with w obtain w' n d where "iosvc_sched_timeout (demo_event 5 WAIT_WRITE) (demo_handler 2) NULL 48 ?w = Some (EIO_OK, w')"
      "svc_inv w' [5 \<mapsto> 16]" "node_data (async_handlers w') 16 = Some n" "{u. armed n u} = {WAIT_WRITE, WAIT_READ}"
      "get_evt_data n WAIT_WRITE = Some d" "handler d = demo_handler 2"
      "mset (events_list w') = {#\<lparr>ah_deadline = 107, ah_remaining = 48, ah_io_op_data = 16, ah_event_type = WAIT_WRITE\<rparr>#}"
    using sched_timeout_old [of ?w "[5 \<mapsto> 16]" "demo_handler 2" "demo_event 5 WAIT_WRITE" 16 demo_node 48 NULL] demo_service(4) demo_cb
    by auto
  moreover from this(1) have "demo_timed = w'" by (simp add: demo_timed_def)
  ultimately show ?thesis using that by simp
qed

theorem timeout_event_correct_witness:
  "\<exists>w'. timeout_first (\<lambda>_. Some) True 110 demo_timed = Some w' \<and> calls w' = calls demo_timed @ [demo_handler 2]
    \<and> svc_inv w' [5 \<mapsto> 16] \<and> ints w' 48 = 0 \<and> set (events_list w') = {}"
proof -
  let ?e = "\<lparr>ah_deadline = 107, ah_remaining = 48, ah_io_op_data = 16, ah_event_type = WAIT_WRITE\<rparr> :: async_heap_entry"
  obtain n d where d: "svc_inv demo_timed [5 \<mapsto> 16]" "node_data (async_handlers demo_timed) 16 = Some n"
      "{u. armed n u} = {WAIT_WRITE, WAIT_READ}" "get_evt_data n WAIT_WRITE = Some d" "handler d = demo_handler 2"
      "events_list demo_timed = [?e]"
    by (rule demo_timed)
  have ne: "{u. armed n u} \<noteq> {WAIT_WRITE}" unfolding d(3) by blast
  have h: "events_list demo_timed \<noteq> []" "?e = events_list demo_timed ! 0" "[5 \<mapsto> 16] 5 = Some (ah_io_op_data ?e)"
      "node_data (async_handlers demo_timed) (ah_io_op_data ?e) = Some n" "get_evt_data n (ah_event_type ?e) = Some d"
      "{u. armed n u} = {ah_event_type ?e} \<longrightarrow> extract_safe (async_handlers demo_timed) (ah_io_op_data ?e)"
    using d(2,4,6) ne by simp_all
  have c: "detached_in (svc_status demo_timed) (\<lambda>_. Some :: world \<Rightarrow> world option)"
    by (simp add: detached_in_def)
  from timeout_event_correct [OF d(1) h(1-5) c h(6), of 110] show ?thesis
    using ne d(5,6) by auto
qed

end
