(* ===== verification/Pass_Props.thy ===== *)
theory Pass_Props
  imports Dispatch_Props
begin

text \<open>
  A whole pass of \<open>dispatch_ready_events\<close> over the poll vector, in which entries are dropped and the last one
  moves to the dropped one's place.
\<close>

section \<open>Small trees\<close>

text \<open>A node with two children has two other nodes below it.\<close>

lemma extract_safe_small:
  assumes TH: "tree_holds h m" and k: "m k = Some a" and c: "card (dom m) \<le> 2"
  shows "extract_safe h a"
proof -
  obtain T where T: "rb_tree h T" "tree_map T = m" using TH by (auto simp: tree_holds_def)
  obtain place parent where pr: "rb_probe h Root_ref k = Some (place, parent)" using probe_runs [OF TH] .
  obtain C t where C: "T = plug C t" "t = Lf \<longleftrightarrow> tree_map T k = None" "\<And>c l b j r. t = Nd c l b j r \<Longrightarrow> j = k \<and> tree_map T k = Some b"
    using probe_result [OF T(1) pr] by metis
  obtain co l r where t: "t = Nd co l a k r"
    using C(2,3) k T(2) by (cases t) auto
  have "distinct (keys T)" using T(1) keys_distinct by (auto simp: rb_tree_def rb_ok_def)
  moreover have "dom m = set (keys T)"
    unfolding T(2) [symmetric] using tree_map_None [of T] by (auto simp: dom_def)
  ultimately have "length (keys T) \<le> 2" using c by (simp add: distinct_card)
  then have "length (inorder l) + length (inorder r) \<le> 1"
    using C(1) t by (simp add: keys_def inorder_plug)
  then have "l = Lf \<or> r = Lf" by (cases l; cases r) auto
  moreover have "trep h (plug C (nd False co l a k r))" using T(1) C(1) t by (simp add: rb_tree_def nd_def)
  then obtain x where "rb_load h a = Some x" "left x = ptr l" "right x = ptr r"
    by (rule trep_load) (auto simp: child_def)
  ultimately show ?thesis by (auto simp: extract_safe_def)
qed

section \<open>One step of the pass\<close>

text \<open>What is due to a descriptor, given the flags of its entry: all its events if the descriptor is
  invalid, the reported ones otherwise.\<close>

definition due :: "pollmask \<Rightarrow> rb_node \<Rightarrow> io_wait_type list" where
  "due r n = (if r AND POLLNVAL \<noteq> 0 then filter (armed n) invalid_order else filter (reported r) dispatch_order)"

definition told :: "pollmask \<Rightarrow> io_errcode" where
  "told r = (if r AND POLLNVAL \<noteq> 0 then EIO_INVARG else EIO_OK)"

text \<open>\<open>poll\<close> reports no event that was not asked for, except on an invalid descriptor.\<close>

definition asked_only :: "pollmask \<Rightarrow> rb_node \<Rightarrow> bool" where
  "asked_only r n \<longleftrightarrow> r AND POLLNVAL \<noteq> 0 \<or> (\<forall>t. reported r t \<longrightarrow> armed n t)"

definition finished :: "pollmask \<Rightarrow> rb_node \<Rightarrow> bool" where
  "finished r n \<longleftrightarrow> {u. armed n u} \<subseteq> set (due r n)"

lemma dispatch_from_step:
  assumes inv: "svc_inv w m" and i: "i < length (dynarr_list (pollfds w))" and call: "detached_in (svc_status w) call"
    and ask: "\<And>k n. look w m k = Some n \<Longrightarrow> pollfd_idx n = i \<Longrightarrow> asked_only (revents_of w n) n"
    and safe: "\<And>k n. look w m k = Some n \<Longrightarrow> pollfd_idx n = i \<Longrightarrow> finished (revents_of w n) n \<Longrightarrow>
      extract_safe (async_handlers w) (the (m k))"
  obtains k n w' where "look w m k = Some n" "pollfd_idx n = i"
    "handled w m k n (told (revents_of w n)) (due (revents_of w n) n) w'"
    "dispatch_from call i now w = dispatch_from call (if finished (revents_of w n) n then i else Suc i) now w'"
proof -
  have pk: "poll_ok w m" and TH: "tree_holds (async_handlers w) m" and P: "dynarr_inv (pollfds w)"
    using inv by (auto simp: svc_inv_def poll_ok_def Let_def)
  obtain k a n where k: "m k = Some a" "node_data (async_handlers w) a = Some n" "pollfd_idx n = i"
    using poll_entry_node [OF pk tree_holds_finite [OF TH] i] .
  let ?x = "dynarr_list (pollfds w) ! i" and ?r = "revents_of w n"
  have r: "?r = pfd_revents ?x" using k(3) by (simp add: revents_of_def)
  have fd: "pfd_fd ?x = k" by (rule poll_okE [OF pk k(1)]) (use k(2,3) in simp)
  have lk: "look w m k = Some n" using k by (simp add: look_def)
  obtain place parent where pr: "rb_probe (async_handlers w) Root_ref k = Some (place, parent)" using probe_runs [OF TH] .
  have sz: "i < dynarr_size (pollfds w)" using i P by (simp add: dynarr_size_def)
  have go: "dispatch_from call i now w =
      (if ?r AND POLLNVAL \<noteq> 0
       then do { w \<leftarrow> dispatch_invalid call i place parent now w; dispatch_from call i now w }
       else do { (removed, w) \<leftarrow> dispatch_valid call i place parent now w;
                 dispatch_from call (if removed then i else Suc i) now w })"
    using sz dynarr_get_list [OF P i] fd pr r by (subst dispatch_from.simps) simp
  note safe' = safe [OF lk k(3), unfolded k(1) option.sel]
  show ?thesis
  proof (cases "?r AND POLLNVAL \<noteq> 0")
    case True
    then have f: "finished ?r n" "due ?r n = filter (armed n) invalid_order" by (auto simp: finished_def due_def)
    obtain w' where "dispatch_invalid call (pollfd_idx n) place parent now w = Some w'"
        "handled w m k n EIO_INVARG (filter (armed n) invalid_order) w'"
      by (rule dispatch_invalid_handled [OF inv k(1,2) call pr safe' [OF f(1)]])
    then show ?thesis using that [OF lk k(3), of w'] go True f by (simp add: told_def k(3))
  next
    case False
    then have f: "finished ?r n \<longleftrightarrow> {u. armed n u} \<subseteq> {t. reported ?r t}" "due ?r n = filter (reported ?r) dispatch_order"
      by (auto simp: finished_def due_def)
    have ar: "\<forall>t. reported ?r t \<longrightarrow> armed n t" using ask [OF lk k(3)] False by (simp add: asked_only_def)
    obtain w' where "dispatch_valid call (pollfd_idx n) place parent now w = Some ({u. armed n u} \<subseteq> {t. reported ?r t}, w')"
        "handled w m k n EIO_OK (filter (reported ?r) dispatch_order) w'"
      by (rule dispatch_valid_handled [OF inv k(1,2) refl ar call pr]) (use safe' f in auto)
    then show ?thesis using that [OF lk k(3), of w'] go False f by (simp add: told_def k(3))
  qed
qed

section \<open>The whole pass\<close>

definition from_entry :: "'x world_scheme \<Rightarrow> (int \<rightharpoonup> addr) \<Rightarrow> nat \<Rightarrow> int set" where
  "from_entry w m i = {k. \<exists>n. look w m k = Some n \<and> i \<le> pollfd_idx n}"

definition due_calls :: "'x world_scheme \<Rightarrow> (int \<rightharpoonup> addr) \<Rightarrow> int \<Rightarrow> io_handler list" where
  "due_calls w m k = (case look w m k of None \<Rightarrow> [] | Some n \<Rightarrow> map (\<lambda>t. handler (evt_of n t)) (due (revents_of w n) n))"

definition finished_at :: "'x world_scheme \<Rightarrow> (int \<rightharpoonup> addr) \<Rightarrow> int \<Rightarrow> bool" where
  "finished_at w m k = (case look w m k of None \<Rightarrow> False | Some n \<Rightarrow> finished (revents_of w n) n)"

definition asked_at :: "'x world_scheme \<Rightarrow> (int \<rightharpoonup> addr) \<Rightarrow> int \<Rightarrow> bool" where
  "asked_at w m k = (case look w m k of None \<Rightarrow> True | Some n \<Rightarrow> asked_only (revents_of w n) n)"

text \<open>The removals of a pass over the descriptors \<open>S\<close> are safe: there are at most two descriptors, or at most one of \<open>S\<close> is
  finished with and its removal is safe.\<close>

definition removable :: "'x world_scheme \<Rightarrow> (int \<rightharpoonup> addr) \<Rightarrow> int set \<Rightarrow> bool" where
  "removable w m S \<longleftrightarrow> card (dom m) \<le> 2
     \<or> (\<forall>k \<in> S. finished_at w m k \<longrightarrow> extract_safe (async_handlers w) (the (m k)) \<and> (\<forall>j \<in> S. finished_at w m j \<longrightarrow> j = k))"

lemma look_Some:
  assumes "svc_inv w m" "m k = Some a"
  obtains n where "look w m k = Some n" "node_data (async_handlers w) a = Some n" "pollfd_idx n < card (dom m)"
proof -
  have pk: "poll_ok w m" using assms(1) by (simp add: svc_inv_def)
  then have l: "length (dynarr_list (pollfds w)) = card (dom m)" by (simp add: poll_ok_def Let_def del: length_dynarr_list)
  obtain n where n: "node_data (async_handlers w) a = Some n" "pollfd_idx n < length (dynarr_list (pollfds w))"
    by (rule poll_okE [OF pk assms(2)])
  show ?thesis
    by (rule that [of n]) (use n l assms(2) in \<open>simp_all add: look_def del: length_dynarr_list\<close>)
qed

lemma look_unique:
  assumes "svc_inv w m" "look w m j = Some x" "look w m k = Some y" "pollfd_idx x = pollfd_idx y"
  shows "j = k"
  using assms poll_index_unique [of w m j _ k] by (auto simp: svc_inv_def look_def bind_eq_Some)

text \<open>A descriptor that has not been touched.\<close>

definition untouched :: "'x world_scheme \<Rightarrow> (int \<rightharpoonup> addr) \<Rightarrow> 'x world_scheme \<Rightarrow> (int \<rightharpoonup> addr) \<Rightarrow> int \<Rightarrow> bool" where
  "untouched w m w' m' k \<longleftrightarrow> m' k = m k \<and> (\<forall>n. look w m k = Some n \<longrightarrow> (\<exists>n'. look w' m' k = Some n'
     \<and> (\<forall>u. same_event n n' u) \<and> revents_of w' n' = revents_of w n))"

lemma untouched_at:
  assumes inv: "svc_inv w m" and u: "untouched w m w' m' k"
  shows "asked_at w' m' k = asked_at w m k \<and> finished_at w' m' k = finished_at w m k
    \<and> (asked_at w m k \<longrightarrow> due_calls w' m' k = due_calls w m k)"
proof (cases "m k")
  case None
  then have "look w m k = None" "look w' m' k = None" using u by (simp_all add: look_def untouched_def)
  then show ?thesis
    by (simp add: asked_at_def finished_at_def due_calls_def)
next
  case (Some a)
  obtain n where n: "look w m k = Some n" by (rule look_Some [OF inv Some])
  then obtain n' where n': "look w' m' k = Some n'" "\<And>u. same_event n n' u" "revents_of w' n' = revents_of w n"
    using u by (auto simp: untouched_def)
  have ar: "armed n' = armed n" using n'(2) by (auto simp: same_event_def)
  then have d: "due r n' = due r n" "finished r n' = finished r n" "asked_only r n' = asked_only r n" for r
    by (simp_all add: due_def finished_def asked_only_def)
  have "armed n t" if "t \<in> set (due r n)" "asked_only r n" for r t
    using that by (auto simp: due_def asked_only_def split: if_splits)
  then have "handler (evt_of n' t) = handler (evt_of n t)" if "t \<in> set (due r n)" "asked_only r n" for r t
    using that n'(2) by (auto simp: same_event_def)
  then show ?thesis
    by (simp add: asked_at_def finished_at_def due_calls_def n n'(1,3) d)
qed

lemma handled_others:
  assumes inv: "svc_inv w m" and h: "handled w m k n st D w'" and j: "j \<noteq> k" and k: "look w m k = Some n" "pollfd_idx n = i"
    and m': "m' = (if {u. armed n u} \<subseteq> set D then m(k := None) else m)" "i' = (if {u. armed n u} \<subseteq> set D then i else Suc i)"
  shows "untouched w m w' m' j" "j \<in> from_entry w' m' i' \<longleftrightarrow> j \<in> from_entry w m i"
proof -
  have mj: "m' j = m j" using m'(1) j by simp
  have l: "length (dynarr_list (pollfds w)) = card (dom m)"
    using inv by (simp add: svc_inv_def poll_ok_def Let_def del: length_dynarr_list)
  have "untouched w m w' m' j \<and> (j \<in> from_entry w' m' i' \<longleftrightarrow> j \<in> from_entry w m i)"
  proof (cases "m j")
    case None
    then show ?thesis using mj by (simp add: untouched_def from_entry_def look_def)
  next
    case (Some b)
    obtain x where x: "look w m j = Some x" "pollfd_idx x < card (dom m)" by (rule look_Some [OF inv Some])
    have "look w' m' j = look w' m j" using mj by (simp add: look_def)
    then obtain x' where x': "look w' m' j = Some x'" "\<forall>u. same_event x x' u" "revents_of w' x' = revents_of w x"
        "pollfd_idx x' = (if {u. armed n u} \<subseteq> set D \<and> pollfd_idx x = card (dom m) - 1 then i else pollfd_idx x)"
      using h j x(1) k(2) unfolding handled_def l by metis
    have "pollfd_idx x \<noteq> i" using look_unique [OF inv x(1) k(1)] j k(2) by auto
    moreover have "i < card (dom m)"
    proof -
      obtain a where "m k = Some a" using k(1) by (auto simp: look_def bind_eq_Some)
      from look_Some [OF inv this] show ?thesis using k by (metis option.inject)
    qed
    ultimately have "i' \<le> pollfd_idx x' \<longleftrightarrow> i \<le> pollfd_idx x" using x'(4) m'(2) by auto
    then show ?thesis using mj x(1) x'(1-3) by (simp add: untouched_def from_entry_def)
  qed
  then show "untouched w m w' m' j" "j \<in> from_entry w' m' i' \<longleftrightarrow> j \<in> from_entry w m i" by simp_all
qed

lemma handled_from_entry:
  assumes inv: "svc_inv w m" and h: "handled w m k n st D w'" and k: "look w m k = Some n" "pollfd_idx n = i"
    and m': "m' = (if {u. armed n u} \<subseteq> set D then m(k := None) else m)" "i' = (if {u. armed n u} \<subseteq> set D then i else Suc i)"
  shows "from_entry w' m' i' = from_entry w m i - {k}"
proof -
  have "k \<notin> from_entry w' m' i'"
  proof (cases "{u. armed n u} \<subseteq> set D")
    case False
    then obtain n' where "look w' m k = Some n'" "pollfd_idx n' = i" using h k(2) by (auto simp: handled_def)
    then show ?thesis using False m' by (simp add: from_entry_def)
  qed (simp add: m' from_entry_def look_def)
  then have "j \<in> from_entry w' m' i' \<longleftrightarrow> j \<in> from_entry w m i - {k}" for j
    using handled_others(2) [OF inv h _ k m', of j] by (cases "j = k") auto
  then show ?thesis by blast
qed

text \<open>Only the events \<open>A\<close> have gone.\<close>

definition gone_only :: "rb_node \<Rightarrow> io_wait_type set \<Rightarrow> rb_node \<Rightarrow> bool" where
  "gone_only n A n' \<longleftrightarrow> (\<forall>u. (armed n' u \<longleftrightarrow> armed n u \<and> u \<notin> A) \<and> (armed n' u \<longrightarrow> same_event n n' u))"

lemma gone_only_trans: "gone_only n A x \<Longrightarrow> gone_only x B n' \<Longrightarrow> gone_only n (A \<union> B) n'"
  using same_event_trans [of n x _ n'] by (auto simp: gone_only_def)

lemma gone_only_same: "(\<And>u. same_event n n' u) \<Longrightarrow> gone_only n {} n'"
  by (auto simp: gone_only_def same_event_def)

text \<open>The descriptors \<open>S\<close> have been served once each, in some order; those finished with have left.\<close>

definition served ::
  "'x world_scheme \<Rightarrow> (int \<rightharpoonup> addr) \<Rightarrow> int set \<Rightarrow> 'x world_scheme \<Rightarrow> bool"
where
  "served w m S w' \<longleftrightarrow> (\<exists>ks. distinct ks \<and> set ks = S \<and> calls w' = calls w @ concat (map (due_calls w m) ks))
     \<and> svc_inv w' (m |` (- {k \<in> S. finished_at w m k})) \<and> svc_status w' = svc_status w \<and> rest_kept w w'
     \<and> (\<forall>k n. look w m k = Some n \<longrightarrow> \<not> (k \<in> S \<and> finished_at w m k) \<longrightarrow> (\<exists>n'. look w' m k = Some n'
          \<and> gone_only n (if k \<in> S then set (due (revents_of w n) n) else {}) n'))"

lemma served_step:
  assumes inv: "svc_inv w m" and h: "handled w m k n (told r) (due r n) v" and k: "look w m k = Some n" "pollfd_idx n = i"
    and r: "r = revents_of w n"
    and m': "m' = (if finished r n then m(k := None) else m)" "i' = (if finished r n then i else Suc i)"
    and ask: "\<forall>j \<in> from_entry w m i. asked_at w m j" and s: "served v m' (from_entry v m' i') w'"
  shows "served w m (from_entry w m i) w'"
proof -
  let ?S = "from_entry w m i" and ?F = "\<lambda>w m S. {k \<in> S. finished_at w m k}"
  note m'' = m' [unfolded finished_def]
  have S: "from_entry v m' i' = ?S - {k}" by (rule handled_from_entry [OF inv h k m''])
  have un: "untouched w m v m' j" if "j \<noteq> k" for j by (rule handled_others(1) [OF inv h that k m''])
  have kS: "k \<in> ?S" using k by (simp add: from_entry_def)
  have fin: "finished_at w m k = finished r n" "due_calls w m k = map (\<lambda>t. handler (evt_of n t)) (due r n)"
    using k(1) r by (simp_all add: finished_at_def due_calls_def)
  have fin': "finished_at v m' j = finished_at w m j" if "j \<noteq> k" for j using untouched_at [OF inv un [OF that]] by simp
  obtain ks where ks: "distinct ks" "set ks = ?S - {k}" "calls w' = calls v @ concat (map (due_calls v m') ks)"
    using s unfolding served_def S by blast
  have "due_calls v m' j = due_calls w m j" if "j \<in> set ks" for j
    using that ks(2) ask untouched_at [OF inv un, of j] by auto
  then have "calls w' = calls w @ concat (map (due_calls w m) (k # ks))"
    using ks(3) h fin(2) by (simp add: handled_def cong: map_cong)
  moreover have "distinct (k # ks)" "set (k # ks) = ?S" using ks(1,2) kS by auto
  moreover have "m' |` (- ?F v m' (?S - {k})) = m |` (- ?F w m ?S)"
  proof
    show "(m' |` (- ?F v m' (?S - {k}))) j = (m |` (- ?F w m ?S)) j" for j
      using kS fin(1) fin' [of j] m'(1) by (cases "j = k") (auto simp: restrict_map_def)
  qed
  moreover have "svc_status w' = svc_status w" "rest_kept w w'"
    using s h rest_kept_trans by (auto simp: served_def handled_def)
  moreover have "\<exists>n'. look w' m j = Some n' \<and> gone_only x (if j \<in> ?S then set (due (revents_of w x) x) else {}) n'"
    if j: "look w m j = Some x" "\<not> (j \<in> ?S \<and> finished_at w m j)" for j x
  proof (cases "j = k")
    case True
    then have x: "x = n" "\<not> finished r n" "m' = m" using j k(1) kS fin(1) m'(1) by auto
    then obtain y where y: "look v m k = Some y" "{u. armed y u} = {u. armed n u} - set (due r n)"
        "\<forall>u. u \<notin> set (due r n) \<longrightarrow> same_event n y u"
      using h by (auto simp: handled_def finished_def)
    have g: "gone_only n (set (due r n)) y" using y(2,3) by (auto simp: gone_only_def)
    from y(1) obtain z where "look w' m k = Some z" "gone_only y {} z"
      using s x(3) unfolding served_def S by force
    then show ?thesis using gone_only_trans [OF g] True x(1) r kS by fastforce
  next
    case False
    obtain y where y: "look v m' j = Some y" "\<And>u. same_event x y u" "revents_of v y = revents_of w x"
      using un [OF False] j(1) by (auto simp: untouched_def)
    then have d: "due (revents_of v y) y = due (revents_of w x) x" by (simp add: due_def same_event_def cong: filter_cong)
    have mj: "look w' m' j = look w' m j" using un [OF False] by (simp add: untouched_def look_def)
    obtain z where "look w' m' j = Some z" "gone_only y (if j \<in> ?S - {k} then set (due (revents_of v y) y) else {}) z"
      using s y(1) j(2) fin' [OF False] unfolding served_def S by blast
    then show ?thesis
      using False gone_only_trans [OF gone_only_same [OF y(2)]] unfolding d mj by fastforce
  qed
  ultimately show ?thesis
    using s unfolding served_def S by (intro conjI exI [of _ "k # ks"]) auto
qed

lemma served_refl: "svc_inv w m \<Longrightarrow> served w m {} w"
proof -
  have "m |` UNIV = m" by (simp add: restrict_map_def)
  then show "svc_inv w m \<Longrightarrow> served w m {} w"
    by (auto simp: served_def gone_only_def intro: exI [of _ "[]"])
qed

lemma from_entry_end:
  assumes "svc_inv w m" "card (dom m) \<le> i"
  shows "from_entry w m i = {}"
proof -
  have "\<not> i \<le> pollfd_idx n" if "look w m k = Some n" for k n
  proof -
    from that obtain a where "m k = Some a" by (auto simp: look_def bind_eq_Some)
    from look_Some [OF assms(1) this] that assms(2) show ?thesis by (metis not_le option.inject order_less_le_trans)
  qed
  then show ?thesis by (auto simp: from_entry_def)
qed

lemma removable_step:
  assumes inv: "svc_inv w m" and un: "\<And>j. j \<noteq> k \<Longrightarrow> untouched w m v m' j" and k: "k \<in> S"
    and m': "m' = (if finished_at w m k then m(k := None) else m)"
    and links: "\<not> finished_at w m k \<Longrightarrow> same_links (async_handlers w) (async_handlers v)" and rem: "removable w m S"
  shows "removable v m' (S - {k})"
proof (cases "card (dom m) \<le> 2")
  case True
  have "finite (dom m)" using inv tree_holds_finite by (auto simp: svc_inv_def)
  then have "card (dom m') \<le> card (dom m)" using m' by (auto intro: card_mono)
  then show ?thesis using True by (simp add: removable_def)
next
  case False
  have fin: "finished_at v m' j = finished_at w m j" "m' j = m j" if "j \<noteq> k" for j
    using untouched_at [OF inv un [OF that]] un [OF that] by (simp_all add: untouched_def)
  have "extract_safe (async_handlers v) (the (m' j)) \<and> (\<forall>l \<in> S - {k}. finished_at v m' l \<longrightarrow> l = j)"
    if j: "j \<in> S" "j \<noteq> k" "finished_at v m' j" for j
  proof -
    have f: "finished_at w m j" using fin(1) j(2,3) by simp
    then have "extract_safe (async_handlers w) (the (m j))" "\<forall>l \<in> S. finished_at w m l \<longrightarrow> l = j"
      using rem False j(1) unfolding removable_def by blast+
    moreover from this(2) have "\<not> finished_at w m k" using k j(2) by auto
    ultimately show ?thesis using extract_safe_links [OF links] fin j(2) by auto
  qed
  then show ?thesis unfolding removable_def by blast
qed

text \<open>The measure of the pass: entries not yet looked at.\<close>

lemma dispatch_from_all:
  assumes "svc_inv w m" and "detached_in (svc_status w) call"
    and "\<forall>k \<in> from_entry w m i. asked_at w m k" and "removable w m (from_entry w m i)"
  shows "\<exists>w'. dispatch_from call i now w = Some w' \<and> served w m (from_entry w m i) w'"
  using assms
proof (induction "card (dom m) - i" arbitrary: w m i rule: less_induct)
  case less
  note inv = less.prems(1) and call = less.prems(2) and ask = less.prems(3) and rem = less.prems(4)
  have TH: "tree_holds (async_handlers w) m" and P: "dynarr_inv (pollfds w)" "length (dynarr_list (pollfds w)) = card (dom m)"
    using inv by (auto simp: svc_inv_def poll_ok_def Let_def simp del: length_dynarr_list)
  have fin: "finite (dom m)" by (rule tree_holds_finite [OF TH])
  show ?case
  proof (cases "i < card (dom m)")
    case False
    then have "dispatch_from call i now w = Some w"
      using False P dynarr_size_list [OF P(1)] by (subst dispatch_from.simps) simp
    then show ?thesis using False from_entry_end [OF inv] served_refl [OF inv] by auto
  next
    case True
    have mem: "k \<in> from_entry w m i" "finished_at w m k = finished (revents_of w n) n" "asked_at w m k = asked_only (revents_of w n) n"
      if "look w m k = Some n" "pollfd_idx n = i" for k n
      using that by (auto simp: from_entry_def finished_at_def asked_at_def)
    have safe: "extract_safe (async_handlers w) (the (m k))" if "look w m k = Some n" "pollfd_idx n = i" "finished (revents_of w n) n" for k n
    proof -
      from that(1) obtain a where a: "m k = Some a" by (auto simp: look_def bind_eq_Some)
      have "k \<in> from_entry w m i" "finished_at w m k" using mem(1,2) [OF that(1,2)] that(3) by simp_all
      moreover have "card (dom m) \<le> 2 \<Longrightarrow> ?thesis" using extract_safe_small [OF TH a] a by simp
      ultimately show ?thesis using rem unfolding removable_def by blast
    qed
    have ask': "asked_only (revents_of w n) n" if "look w m k = Some n" "pollfd_idx n = i" for k n
      using ask mem [OF that] by blast
    obtain k n v where v: "look w m k = Some n" "pollfd_idx n = i"
        "handled w m k n (told (revents_of w n)) (due (revents_of w n) n) v"
        "dispatch_from call i now w = dispatch_from call (if finished (revents_of w n) n then i else Suc i) now v"
      by (rule dispatch_from_step [OF inv _ call ask' safe, where now = now]) (use True P(2) in simp)
    define m' i' where m': "m' = (if finished (revents_of w n) n then m(k := None) else m)"
      and i': "i' = (if finished (revents_of w n) n then i else Suc i)"
    note h = handled_others [OF inv v(3) _ v(1,2) m' [unfolded finished_def] i' [unfolded finished_def]]
    have S: "from_entry v m' i' = from_entry w m i - {k}"
      by (rule handled_from_entry [OF inv v(3) v(1,2) m' [unfolded finished_def] i' [unfolded finished_def]])
    have f: "finished_at w m k = finished (revents_of w n) n" by (rule mem(2) [OF v(1,2)])
    have v': "svc_inv v m'" "svc_status v = svc_status w" and l: "\<not> finished_at w m k \<Longrightarrow> same_links (async_handlers w) (async_handlers v)"
      using v(3) by (auto simp: handled_def m' f finished_def)
    have "\<forall>j \<in> from_entry v m' i'. asked_at v m' j"
      using untouched_at [OF inv h(1)] ask S by auto
    moreover have "removable v m' (from_entry v m' i')"
      unfolding S by (rule removable_step [OF inv h(1) mem(1) [OF v(1,2)] m' [folded f] l rem])
    moreover have "card (dom m') - i' < card (dom m) - i"
      using True fin v(1) by (auto simp: m' i' look_def bind_eq_Some card_Diff_singleton_if)
    ultimately obtain w' where "dispatch_from call i' now v = Some w'" "served v m' (from_entry v m' i') w'"
      using less.hyps [of m' i' v] v' call by auto
    then show ?thesis
      using v(4) served_step [OF inv v(3,1,2) refl m' i' ask] by (auto simp: i')
  qed
qed

lemma from_entry_0: "svc_inv w m \<Longrightarrow> from_entry w m 0 = dom m"
  by (auto simp: from_entry_def look_def bind_eq_Some elim: look_Some)


lemma distinct_single: "distinct ks \<Longrightarrow> set ks = {k} \<Longrightarrow> ks = [k]"
  using distinct_card [of ks] by (cases ks; cases "tl ks") auto

lemma due_POLLIN: "due POLLIN n = [WAIT_READ]"
  by (simp add: due_def dispatch_order_def poll_bits)

lemma asked_POLLIN: "asked_only POLLIN demo_node" "finished POLLIN demo_node"
  by (auto simp: asked_only_def finished_def due_POLLIN reported_POLLIN demo_armed)


section \<open>A round of the loop\<close>

lemma set_revents_exec:
  assumes "dynarr_inv d" and "i + length rs \<le> length (dynarr_list d)"
  obtains d' where "set_revents rs i d = Some d'" "dynarr_inv d'" "length (dynarr_list d') = length (dynarr_list d)"
    "\<forall>j < length (dynarr_list d). dynarr_list d' ! j =
      (if i \<le> j \<and> j < i + length rs then (dynarr_list d ! j)\<lparr>pfd_revents := rs ! (j - i)\<rparr> else dynarr_list d ! j)"
  using assms
proof (induction rs arbitrary: i d thesis)
  case Nil
  show ?case by (rule Nil.prems(1) [of d]) (use Nil.prems(2) in auto)
next
  case (Cons r rs)
  have i: "i < length (dynarr_list d)" using Cons.prems(3) by simp
  obtain d1 where d1: "dynarr_set d i ((dynarr_list d ! i)\<lparr>pfd_revents := r\<rparr>) = Some d1" "dynarr_inv d1"
      "dynarr_list d1 = (dynarr_list d)[i := (dynarr_list d ! i)\<lparr>pfd_revents := r\<rparr>]"
    using dynarr_set_list [OF Cons.prems(2) i] .
  have l1: "length (dynarr_list d1) = length (dynarr_list d)" by (simp add: d1(3) del: length_dynarr_list)
  have l2: "Suc i + length rs \<le> length (dynarr_list d1)" using Cons.prems(3) l1 by (simp del: length_dynarr_list)
  obtain d' where d': "set_revents rs (Suc i) d1 = Some d'" "dynarr_inv d'" "length (dynarr_list d') = length (dynarr_list d1)"
      "\<forall>j < length (dynarr_list d1). dynarr_list d' ! j =
        (if Suc i \<le> j \<and> j < Suc i + length rs then (dynarr_list d1 ! j)\<lparr>pfd_revents := rs ! (j - Suc i)\<rparr> else dynarr_list d1 ! j)"
    by (rule Cons.IH [OF _ d1(2) l2])
  have "dynarr_list d' ! j = (if i \<le> j \<and> j < i + length (r # rs) then (dynarr_list d ! j)\<lparr>pfd_revents := (r # rs) ! (j - i)\<rparr>
      else dynarr_list d ! j)" if "j < length (dynarr_list d)" for j
    using d'(4) that l1 i by (cases "j = i") (auto simp: d1(3) nth_Cons' simp del: length_dynarr_list)
  then show ?case
    using Cons.prems(1) [of d'] d'(1-3) d1(1) l1 dynarr_get_list [OF Cons.prems(2) i] by (simp del: length_dynarr_list)
qed

text \<open>The handlers due to a descriptor when \<open>poll\<close> answers \<open>rs\<close>.\<close>

definition answer_calls :: "'x world_scheme \<Rightarrow> (int \<rightharpoonup> addr) \<Rightarrow> pollmask list \<Rightarrow> int \<Rightarrow> io_handler list" where
  "answer_calls w m rs k = (case look w m k of None \<Rightarrow> []
     | Some n \<Rightarrow> map (\<lambda>t. handler (evt_of n t)) (due (rs ! pollfd_idx n) n))"

lemma answered:
  assumes inv: "svc_inv w m" and l: "length rs = card (dom m)"
  obtains d where "set_revents rs 0 (pollfds w) = Some d" "svc_inv (w\<lparr>pollfds := d\<rparr>) m"
    "\<forall>k n. look w m k = Some n \<longrightarrow> revents_of (w\<lparr>pollfds := d\<rparr>) n = rs ! pollfd_idx n"
proof -
  let ?P = "dynarr_list (pollfds w)"
  have P: "dynarr_inv (pollfds w)" "length ?P = card (dom m)"
    using inv by (auto simp: svc_inv_def poll_ok_def Let_def simp del: length_dynarr_list)
  then have "0 + length rs \<le> length ?P" using l by (simp del: length_dynarr_list)
  from set_revents_exec [OF P(1) this] obtain d where d: "set_revents rs 0 (pollfds w) = Some d" "dynarr_inv d"
      "length (dynarr_list d) = length ?P" "\<forall>j < length ?P. dynarr_list d ! j = (?P ! j)\<lparr>pfd_revents := rs ! j\<rparr>"
    using l P(2) by (auto simp del: length_dynarr_list)
  have "svc_inv (w\<lparr>pollfds := d\<rparr>) m"
    by (rule svc_inv_revents [OF inv d(2,3)]) (use d(3,4) in \<open>simp del: length_dynarr_list\<close>)
  moreover have "revents_of (w\<lparr>pollfds := d\<rparr>) n = rs ! pollfd_idx n" if lk: "look w m k = Some n" for k n
  proof -
    from lk obtain a where "m k = Some a" by (auto simp: look_def bind_eq_Some)
    from look_Some [OF inv this] lk have "pollfd_idx n < card (dom m)" by (metis option.inject)
    then show ?thesis using d(4) P(2) by (simp add: revents_of_def del: length_dynarr_list)
  qed
  ultimately show ?thesis using that d(1) by blast
qed

lemma round_serves:
  assumes "svc_inv w m" and "detached_in (svc_status w) call" and "next_deadline w = Some (deadline, is_event)"
    and "polls w 0 (dynarr_list (pollfds w)) (poll_delay deadline (clock w 0)) = (ready, eintr, rs)"
    and "0 < ready" and "length rs = card (dom m)"
    and "deadline = -1 \<or> to_int (clock w 1 - clock w 0) < poll_delay deadline (clock w 0)"
    and ask: "\<forall>k n. look w m k = Some n \<longrightarrow> asked_only (rs ! pollfd_idx n) n"
    and rem: "card (dom m) \<le> 2 \<or> (\<forall>k n. look w m k = Some n \<longrightarrow> \<not> finished (rs ! pollfd_idx n) n)"
  obtains d w' where "run_round call w = Some w'"
    "served (w\<lparr>pollfds := d, polls := \<lambda>n. polls w (Suc n), clock := \<lambda>n. clock w (Suc (Suc n))\<rparr>) m (dom m) w'"
    "\<forall>k n. look w m k = Some n \<longrightarrow> revents_of (w\<lparr>pollfds := d\<rparr>) n = rs ! pollfd_idx n" "svc_inv (w\<lparr>pollfds := d\<rparr>) m"
proof -
  have P: "dynarr_inv (pollfds w)" "length (dynarr_list (pollfds w)) = card (dom m)"
    using assms(1) by (auto simp: svc_inv_def poll_ok_def Let_def simp del: length_dynarr_list)
  obtain d where d: "set_revents rs 0 (pollfds w) = Some d" "svc_inv (w\<lparr>pollfds := d\<rparr>) m"
      "\<forall>k n. look w m k = Some n \<longrightarrow> revents_of (w\<lparr>pollfds := d\<rparr>) n = rs ! pollfd_idx n"
    by (rule answered [OF assms(1,6)])
  define v where "v = w\<lparr>pollfds := d, polls := \<lambda>n. polls w (Suc n), clock := \<lambda>n. clock w (Suc (Suc n))\<rparr>"
  have tk: "take (dynarr_size (pollfds w)) rs = rs" using assms(6) P dynarr_size_list [OF P(1)] by simp
  have lt: "\<not> (poll_delay deadline (clock w 0) \<le> to_int (clock w 1 - clock w 0) \<and> poll_delay deadline (clock w 0) \<noteq> -1)"
    using assms(7) by (auto simp: poll_delay_def)
  have run: "run_round call w = dispatch_ready_events call (clock w 1) v"
    using assms(3-5) d(1) tk lt by (auto simp: run_round_def svc_poll_def current_time_def with_pollfds_def v_def Let_def)
  have v: "svc_inv v m" "svc_status v = svc_status w" "look v m = look w m"
    using d(2) svc_inv_truncate [of v "w\<lparr>pollfds := d\<rparr>" m] by (simp_all add: v_def io_service.truncate_def look_def fun_eq_iff)
  have rv: "revents_of v n = rs ! pollfd_idx n" if "look w m k = Some n" for k n
    using d(3) that by (simp add: revents_of_def v_def)
  have ask': "asked_at v m k" for k using rv ask by (auto simp: asked_at_def v(3) split: option.splits)
  have rem': "removable v m (dom m)"
    using rem rv by (auto simp: removable_def finished_at_def v(3) split: option.splits)
  obtain w' where "dispatch_ready_events call (clock w 1) v = Some w'" "served v m (dom m) w'"
    using dispatch_from_all [OF v(1), of call 0 "clock w 1"] assms(2) v(2) ask' rem'
    by (auto simp: from_entry_0 [OF v(1)] dispatch_ready_events_def)
  then show ?thesis using that run d(2,3) by (simp add: v_def)
qed



end
