(* ===== verification/Loop_Run.thy ===== *)
theory Loop_Run
  imports Pass_Props "HOL-Library.Multiset"
begin

text \<open>
  Whole runs of the loop with everything a service can hold: queued handlers, delayed handlers, and timed and untimed events
  on descriptors. In a round the earliest deadline may expire, descriptors may be served, or both, until nothing is pending.
\<close>

section \<open>What is pending\<close>

definition pending_at :: "'x world_scheme \<Rightarrow> (int \<rightharpoonup> addr) \<Rightarrow> int \<Rightarrow> io_handler multiset" where
  "pending_at w m k = (case look w m k of None \<Rightarrow> {#} | Some n \<Rightarrow> {# handler (evt_of n t). t \<in># mset_set {t. armed n t} #})"

definition all_pending :: "'x world_scheme \<Rightarrow> (int \<rightharpoonup> addr) \<Rightarrow> io_handler multiset" where
  "all_pending w m = (\<Sum>k \<in> dom m. pending_at w m k)"

lemma finite_waits [simp]: "finite (A :: io_wait_type set)"
proof -
  have "finite (set dispatch_order)" by (rule finite_set)
  then show ?thesis using finite_subset [OF subset_UNIV] by simp
qed

lemma distinct_due: "distinct (due r n)"
  by (simp add: due_def dispatch_order_def invalid_order_def)

lemma due_armed: "asked_only r n \<Longrightarrow> set (due r n) \<subseteq> {t. armed n t}"
  by (auto simp: due_def asked_only_def)

lemma mset_concat_distinct: "distinct ks \<Longrightarrow> mset (concat (map f ks)) = (\<Sum>k \<in> set ks. mset (f k))"
  by (induction ks) auto

lemma gone_only_pending:
  assumes g: "gone_only n A n'"
  shows "{# handler (evt_of n' t). t \<in># mset_set {t. armed n' t} #} = {# handler (evt_of n t). t \<in># mset_set ({t. armed n t} - A) #}"
proof -
  have "{t. armed n' t} = {t. armed n t} - A" using g by (auto simp: gone_only_def)
  moreover have "handler (evt_of n' t) = handler (evt_of n t)" if "t \<in># mset_set ({t. armed n t} - A)" for t
    using that g by (auto simp: gone_only_def same_event_def)
  ultimately show ?thesis by (metis (no_types, lifting) image_mset_cong)
qed

lemma split_pending:
  assumes "asked_only r n"
  shows "{# f t. t \<in># mset_set {t. armed n t} #} = mset (map f (due r n)) + {# f t. t \<in># mset_set ({t. armed n t} - set (due r n)) #}"
proof -
  have "mset_set {t. armed n t} = mset_set (set (due r n)) + mset_set ({t. armed n t} - set (due r n))"
    using due_armed [OF assms] by (subst mset_set_Union [symmetric]) (auto simp: Un_absorb1)
  then show ?thesis using mset_set_set [OF distinct_due, of r n] by simp
qed

lemma served_pending:
  assumes inv: "svc_inv v m" and s: "served v m (dom m) w'" and ask: "\<forall>k. asked_at v m k"
  shows "mset (calls w') + all_pending w' (m |` (- {k \<in> dom m. finished_at v m k})) = mset (calls v) + all_pending v m"
proof -
  let ?m = "m |` (- {k \<in> dom m. finished_at v m k})"
  obtain ks where ks: "distinct ks" "set ks = dom m" "calls w' = calls v @ concat (map (due_calls v m) ks)"
    using s unfolding served_def by blast
  have fin: "finite (dom m)" using inv tree_holds_finite by (auto simp: svc_inv_def)
  have at: "pending_at v m k = mset (due_calls v m k) + pending_at w' ?m k" if k: "k \<in> dom m" for k
  proof -
    from k obtain a where "m k = Some a" by blast
    then obtain n where n: "look v m k = Some n" by (rule look_Some [OF inv])
    have ak: "asked_only (revents_of v n) n" using ask n by (auto simp: asked_at_def dest: spec [of _ k])
    have "pending_at w' ?m k = {# handler (evt_of n t). t \<in># mset_set ({t. armed n t} - set (due (revents_of v n) n)) #}"
    proof (cases "finished_at v m k")
      case True
      then have e: "look w' ?m k = None" "{t. armed n t} - set (due (revents_of v n) n) = {}"
        using k n by (auto simp: look_def finished_at_def finished_def restrict_map_def)
      show ?thesis unfolding pending_at_def e by simp
    next
      case False
      then have "look w' ?m k = look w' m k" by (simp add: look_def restrict_map_def)
      moreover have "\<exists>n'. look w' m k = Some n' \<and> gone_only n (if k \<in> dom m then set (due (revents_of v n) n) else {}) n'"
        using s n False unfolding served_def by blast
      then obtain n' where "look w' m k = Some n'" "gone_only n (set (due (revents_of v n) n)) n'" using k by auto
      ultimately show ?thesis using gone_only_pending by (simp add: pending_at_def)
    qed
    then show ?thesis using split_pending [OF ak] by (simp add: pending_at_def due_calls_def n)
  qed
  have "all_pending w' ?m = (\<Sum>k \<in> dom m. pending_at w' ?m k)"
    unfolding all_pending_def
    by (rule sum.mono_neutral_left [OF fin]) (auto simp: pending_at_def look_def restrict_map_def split: if_splits)
  moreover have "mset (calls w') = mset (calls v) + (\<Sum>k \<in> dom m. mset (due_calls v m k))"
    using ks mset_concat_distinct [OF ks(1), of "due_calls v m"] by simp
  ultimately show ?thesis using at by (simp add: all_pending_def sum.distrib)
qed

text \<open>A descriptor that stays has an event left.\<close>

lemma served_busy:
  assumes inv: "svc_inv v m" and s: "served v m (dom m) w'" and k: "look w' (m |` (- {k \<in> dom m. finished_at v m k})) k = Some n'"
  shows "\<exists>t. armed n' t"
proof -
  have k': "k \<in> dom m" "\<not> finished_at v m k" "look w' m k = Some n'"
    using k by (auto simp: look_def bind_eq_Some restrict_map_def split: if_splits)
  then obtain a where "m k = Some a" by blast
  then obtain n where n: "look v m k = Some n" by (rule look_Some [OF inv])
  have "\<exists>n'. look w' m k = Some n' \<and> gone_only n (if k \<in> dom m then set (due (revents_of v n) n) else {}) n'"
    using s n k'(2) unfolding served_def by blast
  then have "gone_only n (set (due (revents_of v n) n)) n'" using k'(1,3) by auto
  then show ?thesis using k'(2) n by (auto simp: gone_only_def finished_at_def finished_def)
qed

section \<open>Expiry as the handling of one event\<close>

lemma timeout_event_handled:
  assumes inv: "svc_inv w m" and ne: "events_list w \<noteq> []" and e: "e = events_list w ! 0" and call: "detached_in (svc_status w) call"
    and small: "card (dom m) \<le> 2"
  obtains k n w' where "look w m k = Some n" "m k = Some (ah_io_op_data e)" "armed n (ah_event_type e)"
    "timeout_first call True now w = Some w'" "handled w m k n EIO_TIMEOUT [ah_event_type e] w'"
proof -
  let ?a = "ah_io_op_data e" and ?t = "ah_event_type e"
  have TH: "tree_holds (async_handlers w) m" and tm: "timers_ok w m" and idx: "heap_idx_ok w"
    using inv by (auto simp: svc_inv_def timers_ok_def events_ok_def)
  have len: "0 < length (events_list w)" using ne by simp
  then have el: "e \<in> set (events_list w)" using e by simp
  then obtain k where k: "m k = Some ?a" using tm by (auto simp: timers_ok_def ran_def)
  obtain n where n: "look w m k = Some n" "node_data (async_handlers w) ?a = Some n" by (rule look_Some [OF inv k])
  have t: "armed n ?t" "ah_remaining e \<noteq> NULL" using tm el n(2) by (auto simp: timers_ok_def)
  have top: "dynarr_get (timed_events_heap w) (dynarr_front (timed_events_heap w)) = Some e"
    using idx len e by (simp add: heap_idx_ok_def dynarr_front_def dynarr_get_list events_list_def del: length_dynarr_list)
  obtain w1 where w1: "iosvc_dequeue ?a ?t now EIO_TIMEOUT w = Some (handler (evt_of n ?t), w1)"
      "\<And>i. \<exists>w2 n2. invoke call (handler (evt_of n ?t)) (w1\<lparr>ints := i\<rparr>) = Some w2 \<and> called_out w m ?a n ?t EIO_TIMEOUT w2 n2 \<and> ints w2 = i"
    by (rule dequeue_invoke [OF inv k n(2) t(1) call, where now = now and st = EIO_TIMEOUT]) (rule that)
  from w1(2) [of "(ints w1)(ah_remaining e := 0)"] obtain w2 n2 where w2:
      "invoke call (handler (evt_of n ?t)) (w1\<lparr>ints := (ints w1)(ah_remaining e := 0)\<rparr>) = Some w2" "called_out w m ?a n ?t EIO_TIMEOUT w2 n2"
    by auto
  have p: "partly w m ?a n EIO_TIMEOUT [?t] w2 n2"
    using partly_called_out [OF partly_refl [OF inv k n(2)] t(1) k w2(2)] by simp
  then have c: "svc_inv w2 m" "node_data (async_handlers w2) ?a = Some n2" "pollfd_idx n2 = pollfd_idx n" by (simp_all add: partly_def)
  have T2: "tree_holds (async_handlers w2) m" using c(1) by (simp add: svc_inv_def)
  obtain place parent where pr: "rb_probe (async_handlers w2) Root_ref k = Some (place, parent)"
    using probe_runs [OF T2] .
  obtain w' where w': "cleanup_at place parent (pollfd_idx n) w2 = Some ({u. armed n u} \<subseteq> set [?t], w')" "handled w m k n EIO_TIMEOUT [?t] w'"
    by (rule cleanup_handled [OF inv p k n(2) pr]) (rule extract_safe_small [OF TH k small])
  obtain rn where rn: "rb_load (async_handlers w2) ?a = Some rn" "rb_store (async_handlers w2) ?a = Some rn" using tree_holds_load [OF T2 k] .
  have "pollfd_idx rn = pollfd_idx n" using c(2,3) rn(2) by (auto simp: node_data_def)
  then have "timeout_first call True now w = Some w'"
    using top w1(1) w2(1) t(2) ref_to_this_probe [OF T2 k pr] w'(1) rn(1)
    by (auto simp: timeout_first_def timeout_event_def put_int_def Let_def cleanup_at_def bind_eq_Some split: if_splits)
  then show ?thesis using that n(1) k t(1) w'(2) by blast
qed

lemma pending_same:
  assumes inv: "svc_inv w m" and u: "untouched w m w' m' j"
  shows "pending_at w' m' j = pending_at w m j"
proof (cases "m j")
  case None
  then show ?thesis using u by (simp add: pending_at_def look_def untouched_def)
next
  case (Some a)
  obtain n where n: "look w m j = Some n" by (rule look_Some [OF inv Some])
  then obtain n' where "look w' m' j = Some n'" "\<And>u. same_event n n' u" using u by (auto simp: untouched_def)
  then show ?thesis using n gone_only_pending [OF gone_only_same] by (simp add: pending_at_def)
qed

text \<open>Handling events of one descriptor moves their handlers from what is pending to what has been called.\<close>

lemma handled_pending:
  assumes inv: "svc_inv w m" and h: "handled w m k n st D w'" and k: "look w m k = Some n" and D: "distinct D" "set D \<subseteq> {t. armed n t}"
    and m': "m' = (if {u. armed n u} \<subseteq> set D then m(k := None) else m)"
  shows "mset (calls w') + all_pending w' m' = mset (calls w) + all_pending w m"
proof -
  let ?f = "\<lambda>t. handler (evt_of n t)"
  have fin: "finite (dom m)" using inv tree_holds_finite by (auto simp: svc_inv_def)
  have kd: "k \<in> dom m" using k by (auto simp: look_def bind_eq_Some)
  have others: "pending_at w' m' j = pending_at w m j" if "j \<noteq> k" for j
    by (rule pending_same [OF inv handled_others(1) [OF inv h that k refl m' refl]])
  have left: "pending_at w' m' k = {# ?f t. t \<in># mset_set ({t. armed n t} - set D) #}"
  proof (cases "{u. armed n u} \<subseteq> set D")
    case True
    then have e: "{t. armed n t} - set D = {}" by blast
    show ?thesis unfolding e using True m' by (simp add: pending_at_def look_def)
  next
    case False
    then obtain n' where n': "look w' m k = Some n'" "{u. armed n' u} = {u. armed n u} - set D" "\<forall>u. u \<notin> set D \<longrightarrow> same_event n n' u"
      using h by (auto simp: handled_def)
    have "gone_only n (set D) n'" using n'(2,3) by (auto simp: gone_only_def)
    then show ?thesis using False m' n'(1) gone_only_pending by (simp add: pending_at_def)
  qed
  have "mset_set {t. armed n t} = mset_set (set D) + mset_set ({t. armed n t} - set D)"
    using D(2) by (subst mset_set_Union [symmetric]) (auto simp: Un_absorb1)
  then have at: "pending_at w m k = mset (map ?f D) + pending_at w' m' k"
    using k left mset_set_set [OF D(1)] by (simp add: pending_at_def)
  have "all_pending w' m' = (\<Sum>j \<in> dom m. pending_at w' m' j)"
    unfolding all_pending_def by (rule sum.mono_neutral_left [OF fin]) (auto simp: m' pending_at_def look_def)
  also have "\<dots> = pending_at w' m' k + (\<Sum>j \<in> dom m - {k}. pending_at w m j)"
    using others by (simp add: sum.remove [OF fin kd])
  finally show ?thesis
    using at h by (simp add: handled_def all_pending_def sum.remove [OF fin kd])
qed

section \<open>A service with everything\<close>

text \<open>\<open>poll\<close> on descriptors of which one is asked for something, or with a time limit: it returns, with zero only if the time limit
  has passed, reports requested events only (or that a descriptor is invalid), and at least one if it says so. An interrupted
  \<open>poll\<close> and a lone \<open>POLLERR\<close> or unrequested \<open>POLLHUP\<close> are excluded.\<close>

definition poll_answers :: "(pollfd list \<Rightarrow> int \<Rightarrow> int \<times> bool \<times> pollmask list) \<Rightarrow> bool" where
  "poll_answers p \<longleftrightarrow> (\<forall>P d. 0 \<le> d \<or> (\<exists>x \<in> set P. \<exists>t. pfd_events x AND poll_flag t \<noteq> 0) \<longrightarrow> (case p P d of (ready, eintr, rs) \<Rightarrow>
     0 \<le> ready \<and> (ready = 0 \<longrightarrow> 0 \<le> d) \<and> length rs = length P
     \<and> (\<forall>i < length P. rs ! i AND POLLNVAL \<noteq> 0 \<or> (\<forall>t. reported (rs ! i) t \<longrightarrow> pfd_events (P ! i) AND poll_flag t \<noteq> 0))
     \<and> (0 < ready \<longrightarrow> (\<exists>i < length P. rs ! i AND POLLNVAL \<noteq> 0 \<or> (\<exists>t. reported (rs ! i) t)))))"

text \<open>At most two descriptors, each with an event pending; no negative deadline and none further away than an \<open>int\<close> can say,
  which holds for deadlines set as \<open>int\<close> milliseconds from a clock that does not go back.\<close>

definition mixed :: "'x world_scheme \<Rightarrow> (int \<rightharpoonup> addr) \<Rightarrow> bool" where
  "mixed w m \<longleftrightarrow> svc_inv w m \<and> card (dom m) \<le> 2 \<and> (\<forall>k n. look w m k = Some n \<longrightarrow> (\<exists>t. armed n t))
     \<and> (\<forall>h \<in> set (cbuf_list (sync_handlers w)). callback h \<noteq> NULL) \<and> (\<forall>x \<in> set (delayed w). callback (dh_handler x) \<noteq> NULL)
     \<and> (\<forall>x \<in> deadlines w. 0 \<le> x \<and> (\<forall>n. x - clock w n \<le> INT_MAX)) \<and> (\<forall>n. poll_answers (polls w n))"

definition remaining :: "'x world_scheme \<Rightarrow> (int \<rightharpoonup> addr) \<Rightarrow> io_handler multiset" where
  "remaining w m = mset (cbuf_list (sync_handlers w)) + {# dh_handler x. x \<in># mset (delayed w) #} + all_pending w m"

text \<open>The queue and the delayed handlers do not depend on the descriptors.\<close>

lemma svc_inv_handlers:
  assumes "svc_inv w m" "cbuf_inv cb" "delay_ok (w\<lparr>timed_handlers_heap := d\<rparr>)"
  shows "svc_inv (w\<lparr>sync_handlers := cb, timed_handlers_heap := d\<rparr>) m"
  using assms by (simp add: svc_inv_def delay_ok_def poll_ok_def timers_ok_def events_ok_def heap_idx_ok_def events_list_def
      del: length_dynarr_list)

text \<open>Handlers have only been moved from what remains to what has been called.\<close>

definition carries :: "'x world_scheme \<Rightarrow> (int \<rightharpoonup> addr) \<Rightarrow> 'x world_scheme \<Rightarrow> (int \<rightharpoonup> addr) \<Rightarrow> bool" where
  "carries w m w' m' \<longleftrightarrow> mixed w' m' \<and> svc_status w' = svc_status w
     \<and> mset (calls w') + remaining w' m' = mset (calls w) + remaining w m"

lemma carries_trans: "carries w m v n \<Longrightarrow> carries v n w' m' \<Longrightarrow> carries w m w' m'"
  by (simp add: carries_def)

lemma carries_kept:
  assumes w: "mixed w m" and k: "rest_kept w w'" "svc_inv w' m'" "svc_status w' = svc_status w" "dom m' \<subseteq> dom m"
    and busy: "\<And>k n. look w' m' k = Some n \<Longrightarrow> \<exists>t. armed n t"
    and p: "mset (calls w') + all_pending w' m' = mset (calls w) + all_pending w m"
  shows "carries w m w' m'"
proof -
  have "finite (dom m)" using w tree_holds_finite by (auto simp: mixed_def svc_inv_def)
  then have "card (dom m') \<le> card (dom m)" using k(4) by (rule card_mono)
  moreover have "deadlines w' \<subseteq> deadlines w" using k(1) by (auto simp: rest_kept_def deadlines_def)
  ultimately have "mixed w' m'" using w k(1,2) busy by (auto simp: mixed_def rest_kept_def)
  then show ?thesis using k(1,3) p by (simp add: carries_def remaining_def rest_kept_def ac_simps)
qed

lemma handled_carries:
  assumes w: "mixed w m" and h: "handled w m k n st D w'" and k: "look w m k = Some n" and D: "distinct D" "set D \<subseteq> {t. armed n t}"
    and m': "m' = (if {u. armed n u} \<subseteq> set D then m(k := None) else m)"
  shows "carries w m w' m'"
proof (rule carries_kept [OF w])
  have inv: "svc_inv w m" using w by (simp add: mixed_def)
  show "rest_kept w w'" "svc_inv w' m'" "svc_status w' = svc_status w" using h m' by (simp_all add: handled_def)
  show "dom m' \<subseteq> dom m" using m' by auto
  show "mset (calls w') + all_pending w' m' = mset (calls w) + all_pending w m" by (rule handled_pending [OF inv h k D m'])
  fix j x assume x: "look w' m' j = Some x"
  show "\<exists>t. armed x t"
  proof (cases "j = k")
    case True
    with x have f: "\<not> {u. armed n u} \<subseteq> set D" using m' by (auto simp: look_def split: if_splits)
    then obtain n' where "look w' m k = Some n'" "{u. armed n' u} = {u. armed n u} - set D" using h by (auto simp: handled_def)
    then show ?thesis using f x True m' by auto
  next
    case False
    have u: "untouched w m w' m' j" by (rule handled_others(1) [OF inv h False k refl m' refl])
    from x obtain a where "m j = Some a" using u by (auto simp: untouched_def look_def bind_eq_Some)
    then obtain y where y: "look w m j = Some y" by (rule look_Some [OF inv])
    then have "\<forall>u. same_event y x u" using u x by (auto simp: untouched_def)
    moreover obtain t where "armed y t" using w y unfolding mixed_def by blast
    ultimately show ?thesis by (auto simp: same_event_def)
  qed
qed

section \<open>The steps of a round\<close>

lemma reported_ready: "reported r t \<Longrightarrow> r AND ready_mask t \<noteq> 0"
  by (cases t) (auto simp: bit.conj_disj_distrib or_eq_0_iff)

lemma top_ready:
  assumes inv: "svc_inv w m" and ne: "events_list w \<noteq> []" and e: "e = events_list w ! 0"
    and k: "m k = Some (ah_io_op_data e)" "look w m k = Some n"
  shows "is_top_event_ready w = Some (revents_of w n AND ready_mask (ah_event_type e) \<noteq> 0)"
proof -
  have TH: "tree_holds (async_handlers w) m" and pk: "poll_ok w m" and idx: "dynarr_inv (timed_events_heap w)" and P: "dynarr_inv (pollfds w)"
    using inv by (auto simp: svc_inv_def timers_ok_def events_ok_def heap_idx_ok_def poll_ok_def Let_def)
  have top: "dynarr_get (timed_events_heap w) (dynarr_front (timed_events_heap w)) = Some e" "\<not> dynarr_empty (timed_events_heap w)"
    using idx ne e by (simp_all add: dynarr_front_def dynarr_get_list dynarr_empty_list events_list_def del: length_dynarr_list)
  have n: "node_data (async_handlers w) (ah_io_op_data e) = Some n" using k by (simp add: look_def)
  obtain rn where rn: "rb_load (async_handlers w) (ah_io_op_data e) = Some rn" "rb_store (async_handlers w) (ah_io_op_data e) = Some rn"
    using tree_holds_load [OF TH k(1)] .
  have i: "pollfd_idx rn = pollfd_idx n" using n rn(2) by (auto simp: node_data_def)
  have "pollfd_idx n < length (dynarr_list (pollfds w))" by (rule poll_okE [OF pk k(1)]) (use n in simp)
  then show ?thesis
    using top rn(1) i dynarr_get_list [OF P] by (simp add: is_top_event_ready_def revents_of_def del: length_dynarr_list)
qed

lemma expire_event:
  assumes w: "mixed w m" and ne: "events_list w \<noteq> []" and call: "detached_in (svc_status w) call"
  obtains w' m' b where "timeout_first call True now w = Some w'" "carries w m w' m'" "length (calls w) < length (calls w')"
    "is_top_event_ready w = Some b" "\<not> b \<longrightarrow> (\<forall>k. asked_at w m k) \<longrightarrow> (\<forall>k. asked_at w' m' k)"
proof -
  define e where "e = events_list w ! 0"
  have inv: "svc_inv w m" and c: "card (dom m) \<le> 2" using w by (simp_all add: mixed_def)
  obtain k n w' where k: "look w m k = Some n" "m k = Some (ah_io_op_data e)" "armed n (ah_event_type e)"
      "timeout_first call True now w = Some w'" "handled w m k n EIO_TIMEOUT [ah_event_type e] w'"
    by (rule timeout_event_handled [OF inv ne e_def call c])
  define m' where "m' = (if {u. armed n u} \<subseteq> set [ah_event_type e] then m(k := None) else m)"
  have cr: "carries w m w' m'" by (rule handled_carries [OF w k(5,1) _ _ m'_def]) (use k(3) in auto)
  have top: "is_top_event_ready w = Some (revents_of w n AND ready_mask (ah_event_type e) \<noteq> 0)"
    by (rule top_ready [OF inv ne e_def k(2,1)])
  have ask: "asked_at w' m' j" if nr: "\<not> revents_of w n AND ready_mask (ah_event_type e) \<noteq> 0" and a: "\<forall>k. asked_at w m k" for j
  proof (cases "j = k")
    case False
    from untouched_at [OF inv handled_others(1) [OF inv k(5) False k(1) refl m'_def refl]] show ?thesis using a by simp
  next
    case True
    have "asked_only (revents_of w n) n" using a k(1) by (auto simp: asked_at_def dest: spec [of _ k])
    moreover have "\<not> reported (revents_of w n) (ah_event_type e)" using nr reported_ready by blast
    ultimately have "asked_only (revents_of w n) n'" if "{u. armed n' u} = {u. armed n u} - {ah_event_type e}" for n'
      using that by (auto simp: asked_only_def)
    then show ?thesis using k(5) True by (auto simp: m'_def asked_at_def handled_def look_def split: if_splits)
  qed
  have "calls w' = calls w @ [handler (evt_of n (ah_event_type e))]" using k(5) by (simp add: handled_def)
  then show ?thesis using that [OF k(4) cr _ top] ask by auto
qed

lemma expire_delayed:
  assumes w: "mixed w m" and ne: "delayed w \<noteq> []" and call: "detached_in (svc_status w) call"
  obtains w' where "timeout_first call False now w = Some w'" "carries w m w' m" "length (calls w) < length (calls w')"
    "\<forall>k. asked_at w' m k = asked_at w m k"
proof -
  let ?x = "delayed w ! 0"
  let ?v = "(put_status (dh_status ?x) EIO_OK w)\<lparr>calls := calls w @ [dh_handler ?x]\<rparr>"
  have inv: "svc_inv w m" and ok: "delay_ok w" and cb: "callback (dh_handler ?x) \<noteq> NULL"
    using w ne nth_mem [of 0 "delayed w"] by (auto simp: mixed_def svc_inv_def simp del: length_dynarr_list)
  have "svc_status ?v = svc_status w" by (simp add: put_status_def)
  then obtain w1 where w1: "call (dh_handler ?x) ?v = Some w1" "io_service.truncate w1 = io_service.truncate ?v" "calls w1 = calls ?v"
      "polls w1 = polls ?v" "clock w1 = clock ?v"
    using call unfolding detached_in_def by blast
  note f = truncate_fields [OF w1(2)]
  have f': "sync_handlers w1 = sync_handlers w" "timed_handlers_heap w1 = timed_handlers_heap w" "pollfds w1 = pollfds w"
    "timed_events_heap w1 = timed_events_heap w" "async_handlers w1 = async_handlers w" "svc_status w1 = svc_status w"
    using f by (simp_all add: put_status_def)
  obtain w' d where w': "timeout_first call False now w = Some w'" "delay_ok w'" "mset (delayed w) = add_mset ?x (mset (delayed w'))"
      "w' = w1\<lparr>timed_handlers_heap := d\<rparr>"
    using timeout_delayed_correct [of w ?x call w1 now] ok ne cb w1(1) by (auto simp: f' delay_ok_def)
  have sub: "set (delayed w') \<subseteq> set (delayed w)" using arg_cong [OF w'(3), of set_mset] by auto
  have lk: "look w' m = look w m" "revents_of w' = revents_of w"
    by (simp_all add: w'(4) look_def revents_of_def f' fun_eq_iff)
  have inv': "svc_inv w' m"
    using inv w'(2) by (simp add: w'(4) f' svc_inv_def delay_ok_def poll_ok_def timers_ok_def events_ok_def heap_idx_ok_def events_list_def
        del: length_dynarr_list)
  have "deadlines w' \<subseteq> deadlines w" using sub by (auto simp: deadlines_def w'(4) events_list_def f')
  then have "mixed w' m"
    using w inv' sub w1(4,5) unfolding mixed_def lk by (auto simp: w'(4) f' put_status_def)
  moreover have "remaining w m = add_mset (dh_handler ?x) (remaining w' m)"
    using w'(3) by (simp add: remaining_def all_pending_def pending_at_def lk) (simp add: w'(4) f')
  ultimately have "carries w m w' m" using w1(3) by (simp add: carries_def w'(4) f')
  moreover have "asked_at w' m k = asked_at w m k" for k unfolding asked_at_def lk ..
  moreover have "length (calls w) < length (calls w')" using w1(3) by (simp add: w'(4))
  ultimately show ?thesis using that w'(1) by blast
qed

lemma serve_all:
  assumes w: "mixed w m" and ask: "\<forall>k. asked_at w m k" and call: "detached_in (svc_status w) call"
  obtains w' m' where "dispatch_ready_events call now w = Some w'" "carries w m w' m'" "length (calls w) \<le> length (calls w')"
    "(\<exists>k. due_calls w m k \<noteq> []) \<longrightarrow> length (calls w) < length (calls w')"
proof -
  let ?m = "m |` (- {k \<in> dom m. finished_at w m k})"
  have inv: "svc_inv w m" and rem: "removable w m (dom m)" using w by (simp_all add: mixed_def removable_def)
  obtain w' where w': "dispatch_ready_events call now w = Some w'" "served w m (dom m) w'"
    using dispatch_from_all [OF inv call, of 0 now] ask rem by (auto simp: from_entry_0 [OF inv] dispatch_ready_events_def)
  have "carries w m w' ?m"
    by (rule carries_kept [OF w _ _ _ _ served_busy [OF inv w'(2)] served_pending [OF inv w'(2) ask]])
      (use w'(2) in \<open>auto simp: served_def\<close>)
  moreover obtain ks where ks: "set ks = dom m" "calls w' = calls w @ concat (map (due_calls w m) ks)"
    using w'(2) unfolding served_def by blast
  moreover have "k \<in> dom m" if "due_calls w m k \<noteq> []" for k
    using that by (auto simp: due_calls_def look_def bind_eq_Some split: option.splits)
  then have "(\<exists>k. due_calls w m k \<noteq> []) \<longrightarrow> length (calls w) < length (calls w')" using ks by fastforce
  ultimately show ?thesis using that [OF w'(1)] by simp
qed

text \<open>What the loop waits for.\<close>

lemma next_deadline_mixed:
  assumes w: "mixed w m"
  obtains "deadlines w = {}" "next_deadline w = Some (-1, None)"
  | dl ev where "next_deadline w = Some (dl, Some ev)" "0 \<le> dl" "\<forall>n. dl - clock w n \<le> INT_MAX" "if ev then events_list w \<noteq> [] else delayed w \<noteq> []"
proof -
  have ok: "delay_ok w" "events_ok w" and dl: "\<forall>x \<in> deadlines w. 0 \<le> x" "\<forall>x \<in> deadlines w. \<forall>n. x - clock w n \<le> INT_MAX"
    using w by (auto simp: mixed_def svc_inv_def timers_ok_def)
  obtain ev where ev: "next_deadline w = Some (if deadlines w = {} then -1 else Min (deadlines w), ev)" "ev = None \<longleftrightarrow> deadlines w = {}"
      "ev = Some True \<longrightarrow> Min (deadlines w) \<in> ah_deadline ` set (events_list w)"
      "ev = Some False \<longrightarrow> Min (deadlines w) \<in> dh_deadline ` set (delayed w)"
    using next_deadline_min [OF ok dl(1)] by blast
  show ?thesis
  proof (cases ev)
    case None
    then show ?thesis using that(1) ev(1,2) by simp
  next
    case (Some b)
    then have ne: "deadlines w \<noteq> {}" using ev(2) by simp
    have "finite (deadlines w)" by (simp add: deadlines_def)
    then have "Min (deadlines w) \<in> deadlines w" using ne by (rule Min_in)
    moreover have "if b then events_list w \<noteq> [] else delayed w \<noteq> []" using ev(3,4) Some by (cases b) auto
    ultimately show ?thesis using that(2) [of "Min (deadlines w)" b] ev(1) ne Some dl by simp
  qed
qed

text \<open>A descriptor's entry asks for its pending events.\<close>

lemma poll_mask:
  assumes inv: "svc_inv w m" and lk: "look w m k = Some n"
  shows "pollfd_idx n < length (dynarr_list (pollfds w))" "pfd_events (dynarr_list (pollfds w) ! pollfd_idx n) AND poll_flag t \<noteq> 0 \<longleftrightarrow> armed n t"
proof -
  have pk: "poll_ok w m" using inv by (simp add: svc_inv_def)
  from lk obtain b where b: "m k = Some b" "node_data (async_handlers w) b = Some n" by (auto simp: look_def bind_eq_Some)
  have "pollfd_idx n < length (dynarr_list (pollfds w))" "pfd_events (dynarr_list (pollfds w) ! pollfd_idx n) = mask_of {t. armed n t}"
    by (rule poll_okE [OF pk b(1)]; use b(2) in \<open>simp add: node_mask_of\<close>)+
  then show "pollfd_idx n < length (dynarr_list (pollfds w))" "pfd_events (dynarr_list (pollfds w) ! pollfd_idx n) AND poll_flag t \<noteq> 0 \<longleftrightarrow> armed n t"
    using mask_of_flag [of "{t. armed n t}" t] by simp_all
qed

lemma due_nonempty:
  assumes "r AND POLLNVAL \<noteq> 0 \<or> (\<exists>t. reported r t)" and "\<exists>t. armed n t"
  shows "due r n \<noteq> []"
  using assms by (auto simp: due_def filter_empty_conv)

lemma poll_answered:
  assumes w: "mixed w m" and p: "polls w 0 (dynarr_list (pollfds w)) d = (ready, eintr, rs)" and lim: "0 \<le> d \<or> dom m \<noteq> {}"
  shows "0 \<le> ready" "ready = 0 \<Longrightarrow> 0 \<le> d" "length rs = card (dom m)" "\<And>k n. look w m k = Some n \<Longrightarrow> asked_only (rs ! pollfd_idx n) n"
    "0 < ready \<Longrightarrow> \<exists>k n. look w m k = Some n \<and> due (rs ! pollfd_idx n) n \<noteq> []"
proof -
  let ?P = "dynarr_list (pollfds w)"
  have inv: "svc_inv w m" and pk: "poll_ok w m" and fin: "finite (dom m)" and l: "length ?P = card (dom m)"
    and busy: "\<And>k n. look w m k = Some n \<Longrightarrow> \<exists>t. armed n t" and ans: "poll_answers (polls w 0)"
    using w tree_holds_finite by (auto simp: mixed_def svc_inv_def poll_ok_def Let_def simp del: length_dynarr_list)
  note mask = poll_mask [OF inv]
  have "\<exists>x \<in> set ?P. \<exists>t. pfd_events x AND poll_flag t \<noteq> 0" if ne: "dom m \<noteq> {}"
  proof -
    from ne obtain k b where "m k = Some b" by blast
    then obtain n where n: "look w m k = Some n" by (rule look_Some [OF inv])
    then obtain t where "armed n t" using busy by blast
    then show ?thesis using mask [OF n] nth_mem by blast
  qed
  then have "0 \<le> d \<or> (\<exists>x \<in> set ?P. \<exists>t. pfd_events x AND poll_flag t \<noteq> 0)" using lim by blast
  then have a: "0 \<le> ready" "ready = 0 \<longrightarrow> 0 \<le> d" "length rs = length ?P"
      "\<forall>i < length ?P. rs ! i AND POLLNVAL \<noteq> 0 \<or> (\<forall>t. reported (rs ! i) t \<longrightarrow> pfd_events (?P ! i) AND poll_flag t \<noteq> 0)"
      "0 < ready \<longrightarrow> (\<exists>i < length ?P. rs ! i AND POLLNVAL \<noteq> 0 \<or> (\<exists>t. reported (rs ! i) t))"
    using ans [unfolded poll_answers_def, rule_format, of d ?P] unfolding p prod.case by argo+
  show "0 \<le> ready" "ready = 0 \<Longrightarrow> 0 \<le> d" "length rs = card (dom m)" using a(1-3) l by simp_all
  show "asked_only (rs ! pollfd_idx n) n" if "look w m k = Some n" for k n
    using a(4) mask [OF that] unfolding asked_only_def by blast
  show "\<exists>k n. look w m k = Some n \<and> due (rs ! pollfd_idx n) n \<noteq> []" if "0 < ready"
  proof -
    from a(5) that obtain i where i: "i < length ?P" "rs ! i AND POLLNVAL \<noteq> 0 \<or> (\<exists>t. reported (rs ! i) t)" by blast
    obtain k b n where k: "m k = Some b" "node_data (async_handlers w) b = Some n" "pollfd_idx n = i"
      using poll_entry_node [OF pk fin i(1)] .
    then have "look w m k = Some n" by (simp add: look_def)
    then show ?thesis using due_nonempty [OF i(2)] busy k(3) by blast
  qed
qed

text \<open>After \<open>poll\<close> has returned.\<close>

lemma poll_step:
  assumes w: "mixed w m" and nd: "next_deadline w = Some (dl, ev)" and d: "d = poll_delay dl (clock w 0)" and lim: "0 \<le> d \<or> dom m \<noteq> {}"
  obtains ready :: int and v where
    "run_round call w = (if ready = 0 then do { b \<leftarrow> ev; timeout_first call b (clock w 1) v }
       else do { v \<leftarrow> (if to_int (clock w 1 - clock w 0) \<ge> d \<and> d \<noteq> -1
                      then do { b \<leftarrow> ev; r \<leftarrow> (if b then is_top_event_ready v else Some False);
                                if \<not> b \<or> \<not> r then timeout_first call b (clock w 1) v else Some v }
                      else Some v);
                 dispatch_ready_events call (clock w 1) v })"
    "carries w m v m" "calls v = calls w" "\<forall>k. asked_at v m k" "ready = 0 \<longrightarrow> 0 \<le> d" "ready \<noteq> 0 \<longrightarrow> (\<exists>k. due_calls v m k \<noteq> [])"
    "events_list v = events_list w" "delayed v = delayed w"
proof -
  have inv: "svc_inv w m" and P: "dynarr_inv (pollfds w)" "length (dynarr_list (pollfds w)) = card (dom m)"
    using w by (auto simp: mixed_def svc_inv_def poll_ok_def Let_def simp del: length_dynarr_list)
  obtain ready eintr rs where p: "polls w 0 (dynarr_list (pollfds w)) d = (ready, eintr, rs)" by (cases "polls w 0 (dynarr_list (pollfds w)) d")
  note a = poll_answered [OF w p lim]
  obtain dd where dd: "set_revents rs 0 (pollfds w) = Some dd" "svc_inv (w\<lparr>pollfds := dd\<rparr>) m"
      "\<forall>k n. look w m k = Some n \<longrightarrow> revents_of (w\<lparr>pollfds := dd\<rparr>) n = rs ! pollfd_idx n"
    by (rule answered [OF inv a(3)])
  define v where "v = w\<lparr>pollfds := dd, polls := \<lambda>n. polls w (Suc n), clock := \<lambda>n. clock w (Suc (Suc n))\<rparr>"
  have tk: "take (dynarr_size (pollfds w)) rs = rs" using a(3) P dynarr_size_list [OF P(1)] by simp
  have lk: "look v m = look w m" "deadlines v = deadlines w" and v: "svc_inv v m"
    using dd(2) svc_inv_truncate [of v "w\<lparr>pollfds := dd\<rparr>" m]
    by (simp_all add: v_def io_service.truncate_def look_def fun_eq_iff deadlines_def events_list_def)
  have rv: "revents_of v n = rs ! pollfd_idx n" if "look w m k = Some n" for k n
    using dd(3) that by (simp add: revents_of_def v_def)
  have "mixed v m" using w v unfolding mixed_def lk by (simp add: v_def)
  then have "carries w m v m" by (simp add: carries_def remaining_def all_pending_def pending_at_def lk) (simp add: v_def)
  moreover have "asked_at v m k" for k using rv a(4) by (auto simp: asked_at_def lk split: option.splits)
  moreover have "\<exists>k. due_calls v m k \<noteq> []" if "ready \<noteq> 0"
  proof -
    from a(1,5) that obtain k n where "look w m k = Some n" "due (rs ! pollfd_idx n) n \<noteq> []" by fastforce
    then have "due_calls v m k \<noteq> []" using rv by (simp add: due_calls_def lk)
    then show ?thesis ..
  qed
  moreover have "\<not> ready < 0" using a(1) by simp
  then have "run_round call w = (if ready = 0 then do { b \<leftarrow> ev; timeout_first call b (clock w 1) v }
       else do { v \<leftarrow> (if to_int (clock w 1 - clock w 0) \<ge> d \<and> d \<noteq> -1
                      then do { b \<leftarrow> ev; r \<leftarrow> (if b then is_top_event_ready v else Some False);
                                if \<not> b \<or> \<not> r then timeout_first call b (clock w 1) v else Some v }
                      else Some v);
                 dispatch_ready_events call (clock w 1) v })"
    using nd p dd(1) tk
    by (simp add: run_round_def svc_poll_def current_time_def with_pollfds_def v_def d [symmetric] Let_def cong: if_cong)
  moreover have "calls v = calls w" "events_list v = events_list w" "delayed v = delayed w" by (simp_all add: v_def events_list_def)
  ultimately show ?thesis using that a(2) by blast
qed

lemma expire_first:
  assumes w: "mixed w m" and ne: "if b then events_list w \<noteq> [] else delayed w \<noteq> []" and call: "detached_in (svc_status w) call"
  obtains w' m' r where "timeout_first call b now w = Some w'" "carries w m w' m'" "length (calls w) < length (calls w')"
    "(if b then is_top_event_ready w else Some False) = Some r" "\<not> r \<longrightarrow> (\<forall>k. asked_at w m k) \<longrightarrow> (\<forall>k. asked_at w' m' k)"
    "b \<or> \<not> r"
proof (cases b)
  case True
  then have "events_list w \<noteq> []" using ne by simp
  from expire_event [OF w this call] show ?thesis using that True by (metis (full_types))
next
  case False
  then have "delayed w \<noteq> []" using ne by simp
  from expire_delayed [OF w this call] show ?thesis using that False by (metis (full_types))
qed

text \<open>The part of a round in which \<open>poll\<close> has reported events: the earliest deadline may expire first, if the time limit \<open>late\<close> has
  passed and its event is not among the reported ones.\<close>

lemma serve_after_expiry:
  assumes w: "mixed w m" and call: "detached_in (svc_status w) call" and ask: "\<forall>k. asked_at w m k" and due: "\<exists>k. due_calls w m k \<noteq> []"
    and ne: "if b then events_list w \<noteq> [] else delayed w \<noteq> []"
  obtains w' m' where "do { v \<leftarrow> (if late
        then do { r \<leftarrow> (if b then is_top_event_ready w else Some False);
                  if \<not> b \<or> \<not> r then timeout_first call b now w else Some w }
        else Some w);
      dispatch_ready_events call now v } = Some w'" "carries w m w' m'" "length (calls w) < length (calls w')"
proof -
  obtain v m1 r where v: "timeout_first call b now w = Some v" "carries w m v m1" "length (calls w) < length (calls v)"
      "(if b then is_top_event_ready w else Some False) = Some r" "\<not> r \<longrightarrow> (\<forall>k. asked_at w m k) \<longrightarrow> (\<forall>k. asked_at v m1 k)" "b \<or> \<not> r"
    by (rule expire_first [OF w ne call])
  show ?thesis
  proof (cases "late \<and> \<not> r")
    case True
    have c: "mixed v m1" "detached_in (svc_status v) call" "\<forall>k. asked_at v m1 k" using v(2,5) call True ask by (simp_all add: carries_def)
    obtain w' m' where "dispatch_ready_events call now v = Some w'" "carries v m1 w' m'" "length (calls v) \<le> length (calls w')"
      by (rule serve_all [OF c(1,3,2)])
    then show ?thesis using that [of w' m'] True v(1,3,4) carries_trans [OF v(2)] by simp
  next
    case False
    obtain w' m' where "dispatch_ready_events call now w = Some w'" "carries w m w' m'" "length (calls w) < length (calls w')"
      using serve_all [OF w ask call, of now] due by metis
    then show ?thesis using that [of w' m'] False v(4,6) by (cases r) auto
  qed
qed

lemma run_round_mixed:
  assumes w: "mixed w m" and busy: "dom m \<noteq> {} \<or> delayed w \<noteq> []" and call: "detached_in (svc_status w) call"
  obtains w' m' where "run_round call w = Some w'" "carries w m w' m'" "length (calls w) < length (calls w')"
proof (cases rule: next_deadline_mixed [OF w])
  case 1
  then have "dom m \<noteq> {}" using busy by (auto simp: deadlines_def)
  then have lim: "0 \<le> poll_delay (-1) (clock w 0) \<or> dom m \<noteq> {}" ..
  obtain ready :: int and v where v: "run_round call w = dispatch_ready_events call (clock w 1) v"
      "carries w m v m" "calls v = calls w" "\<forall>k. asked_at v m k" "ready \<noteq> 0" "\<exists>k. due_calls v m k \<noteq> []"
    by (rule poll_step [OF w 1(2) refl lim, of call]) (use that in \<open>simp add: poll_delay_def split: if_splits\<close>)
  have c: "mixed v m" "detached_in (svc_status v) call" using v(2) call by (simp_all add: carries_def)
  obtain w' m' where "dispatch_ready_events call (clock w 1) v = Some w'" "carries v m w' m'" "length (calls v) < length (calls w')"
    using serve_all [OF c(1) v(4) c(2), of "clock w 1"] v(6) by metis
  then show ?thesis using that [of w' m'] v(1,3,5) carries_trans [OF v(2)] by simp
next
  case (2 dl b)
  let ?now = "clock w 1" and ?late = "to_int (clock w 1 - clock w 0) \<ge> poll_delay dl (clock w 0) \<and> poll_delay dl (clock w 0) \<noteq> -1"
  have lim: "0 \<le> poll_delay dl (clock w 0) \<or> dom m \<noteq> {}" using poll_delay_exact [of dl "clock w 0"] 2(2,3) by auto
  obtain ready :: int and v where v:
      "run_round call w = (if ready = 0 then timeout_first call b ?now v
         else do { v \<leftarrow> (if ?late then do { r \<leftarrow> (if b then is_top_event_ready v else Some False);
                                         if \<not> b \<or> \<not> r then timeout_first call b ?now v else Some v }
                        else Some v);
                   dispatch_ready_events call ?now v })"
      "carries w m v m" "calls v = calls w" "\<forall>k. asked_at v m k" "ready = 0 \<longrightarrow> 0 \<le> poll_delay dl (clock w 0)"
      "ready \<noteq> 0 \<longrightarrow> (\<exists>k. due_calls v m k \<noteq> [])" "events_list v = events_list w" "delayed v = delayed w"
    by (rule poll_step [OF w 2(1) refl lim, of call, unfolded bind.bind_lunit])
  have c: "mixed v m" "detached_in (svc_status v) call" "if b then events_list v \<noteq> [] else delayed v \<noteq> []"
    using v(2,7,8) call 2(4) by (simp_all add: carries_def)
  obtain w' m' where w': "run_round call w = Some w'" "carries v m w' m'" "length (calls v) < length (calls w')"
  proof (cases "ready = 0")
    case True
    show thesis
      by (rule expire_first [OF c(1,3,2), of ?now]) (rule that; use v(1) True in simp)
  next
    case False
    show thesis
      by (rule serve_after_expiry [OF c(1,2) v(4) _ c(3), of ?late ?now]) (use that v(1,6) False in auto)
  qed
  then show ?thesis using that [of w' m'] v(3) carries_trans [OF v(2)] by simp
qed

section \<open>Whole runs\<close>

lemma run_sync_detached:
  assumes call: "detached_in s call"
  shows "svc_status w = s \<Longrightarrow> cbuf_inv (sync_handlers w) \<Longrightarrow> cbuf_list (sync_handlers w) = q \<Longrightarrow> \<forall>h \<in> set q. callback h \<noteq> NULL \<Longrightarrow>
    \<exists>w' cb. run_sync_handlers call w = Some w' \<and> cbuf_inv cb \<and> cbuf_list cb = [] \<and> calls w' = calls w @ q
      \<and> io_service.truncate w' = io_service.truncate (w\<lparr>sync_handlers := cb\<rparr>) \<and> polls w' = polls w \<and> clock w' = clock w"
proof (induction q arbitrary: w)
  case Nil
  then have "run_sync_handlers call w = Some w"
    by (subst run_sync_handlers.simps) (simp add: cbuf_empty_list)
  then show ?case
    using Nil by (intro exI [of _ w] exI [of _ "sync_handlers w"]) simp
next
  case (Cons h q)
  let ?cb = "sync_handlers w" and ?v = "w\<lparr>calls := calls w @ [h]\<rparr>"
  have ne: "\<not> cbuf_empty ?cb" "cbuf_load ?cb (cbuf_front ?cb) = Some h" "callback h \<noteq> NULL"
    using Cons.prems cbq.front_law [OF Cons.prems(2)] by (simp_all add: cbuf_empty_list)
  have "svc_status ?v = s" using Cons.prems(1) by simp
  then obtain w1 where w1: "call h ?v = Some w1" "io_service.truncate w1 = io_service.truncate ?v" "calls w1 = calls ?v"
      "polls w1 = polls ?v" "clock w1 = clock ?v"
    using call unfolding detached_in_def by blast
  have f: "sync_handlers w1 = ?cb" "svc_status w1 = s" using truncate_fields [OF w1(2)] Cons.prems(1) by simp_all
  let ?w2 = "w1\<lparr>sync_handlers := cbuf_pop ?cb\<rparr>"
  have p: "svc_status ?w2 = s" "cbuf_inv (sync_handlers ?w2)" "cbuf_list (sync_handlers ?w2) = q" "\<forall>h \<in> set q. callback h \<noteq> NULL"
    using Cons.prems cbq.pop_law [OF Cons.prems(2)] f by simp_all
  from Cons.IH [OF p] obtain w' cb where w': "run_sync_handlers call ?w2 = Some w'" "cbuf_inv cb" "cbuf_list cb = []"
      "calls w' = calls ?w2 @ q" "io_service.truncate w' = io_service.truncate (?w2\<lparr>sync_handlers := cb\<rparr>)" "polls w' = polls ?w2"
      "clock w' = clock ?w2"
    by blast
  have "run_sync_handlers call w = Some w'"
    using ne w1(1) w'(1) f(1) by (subst run_sync_handlers.simps) (simp add: invoke_def)
  then show ?case
    using w' w1(2-5) by (intro exI [of _ w'] exI [of _ cb]) (simp add: io_service.truncate_def)
qed

lemma sync_carries:
  assumes w: "mixed w m" and call: "detached_in (svc_status w) call"
  obtains w' where "run_sync_handlers call w = Some w'" "carries w m w' m" "cbuf_list (sync_handlers w') = []"
    "pollfds w' = pollfds w" "timed_handlers_heap w' = timed_handlers_heap w" "calls w' = calls w @ cbuf_list (sync_handlers w)"
proof -
  have "cbuf_inv (sync_handlers w)" "\<forall>h \<in> set (cbuf_list (sync_handlers w)). callback h \<noteq> NULL" using w by (simp_all add: mixed_def svc_inv_def)
  from run_sync_detached [OF call refl this(1) refl this(2)] obtain w' cb where w': "run_sync_handlers call w = Some w'" "cbuf_inv cb"
      "cbuf_list cb = []" "calls w' = calls w @ cbuf_list (sync_handlers w)"
      "io_service.truncate w' = io_service.truncate (w\<lparr>sync_handlers := cb\<rparr>)" "polls w' = polls w" "clock w' = clock w"
    by blast
  note f = truncate_fields [OF w'(5), simplified]
  have "svc_inv (w\<lparr>sync_handlers := cb\<rparr>) m"
    using svc_inv_handlers [of w m cb "timed_handlers_heap w"] w w'(2) by (simp add: mixed_def svc_inv_def)
  then have inv: "svc_inv w' m" using svc_inv_truncate [OF w'(5)] by simp
  have lk: "look w' m = look w m" "deadlines w' = deadlines w" by (simp_all add: look_def f fun_eq_iff deadlines_def events_list_def)
  have "mixed w' m" using w inv w'(3,6,7) unfolding mixed_def lk by (simp add: f)
  then have "carries w m w' m"
    using w'(3,4) by (simp add: carries_def remaining_def all_pending_def pending_at_def lk f ac_simps)
  then show ?thesis using that w'(1,3,4) f by simp
qed

lemma mixed_empty:
  assumes "mixed w m"
  shows "dynarr_empty (pollfds w) \<longleftrightarrow> dom m = {}" "dynarr_empty (timed_handlers_heap w) \<longleftrightarrow> delayed w = []"
    "cbuf_empty (sync_handlers w) \<longleftrightarrow> cbuf_list (sync_handlers w) = []"
proof -
  have inv: "cbuf_inv (sync_handlers w)" "dynarr_inv (timed_handlers_heap w)" "dynarr_inv (pollfds w)"
    and l: "length (dynarr_list (pollfds w)) = card (dom m)" and fin: "finite (dom m)"
    using assms tree_holds_finite by (auto simp: mixed_def svc_inv_def delay_ok_def poll_ok_def Let_def simp del: length_dynarr_list)
  show "dynarr_empty (pollfds w) \<longleftrightarrow> dom m = {}"
    unfolding dynarr_empty_list [OF inv(3)] using l fin by (metis card_0_eq length_0_conv)
  show "dynarr_empty (timed_handlers_heap w) \<longleftrightarrow> delayed w = []" "cbuf_empty (sync_handlers w) \<longleftrightarrow> cbuf_list (sync_handlers w) = []"
    using inv(1,2) by (simp_all add: dynarr_empty_list cbuf_empty_list)
qed

lemma run_loop_mixed:
  assumes "mixed w m" and "svc_status w = RUNNING" and call: "detached_in RUNNING call"
  shows "\<exists>w'. run_loop call w = Some w' \<and> mset (calls w') = mset (calls w) + remaining w m \<and> svc_inv w' Map.empty
    \<and> svc_status w' = RUNNING"
  using assms(1,2)
proof (induction "size (remaining w m)" arbitrary: w m rule: less_induct)
  case less
  note e = mixed_empty [OF less.prems(1)]
  have IH: "\<exists>w'. run_loop call v = Some w' \<and> mset (calls w') = mset (calls w) + remaining w m \<and> svc_inv w' Map.empty \<and> svc_status w' = RUNNING"
    if "carries w m v m'" "length (calls w) < length (calls v)" for v m'
  proof -
    have c: "mset (calls v) + remaining v m' = mset (calls w) + remaining w m" "mixed v m'" "svc_status v = RUNNING"
      using that(1) less.prems(2) by (simp_all add: carries_def)
    have "size (remaining v m') < size (remaining w m)" using arg_cong [OF c(1), of size] that(2) by simp
    from less.hyps [OF this c(2,3)] show ?thesis using c(1) by simp
  qed
  obtain v where v: "run_sync_handlers call w = Some v" "carries w m v m" "cbuf_list (sync_handlers v) = []"
      "pollfds v = pollfds w" "timed_handlers_heap v = timed_handlers_heap w" "calls v = calls w @ cbuf_list (sync_handlers w)"
    by (rule sync_carries [OF less.prems(1)]) (use call less.prems(2) in simp)
  have st: "svc_status v = RUNNING" "mixed v m" using v(2) less.prems(2) by (simp_all add: carries_def)
  show ?case
  proof (cases "dom m = {} \<and> delayed w = []")
    case True
    show ?thesis
    proof (cases "cbuf_list (sync_handlers w) = []")
      case empty: True
      then have "run_loop call w = Some w" using e True by (simp add: run_loop_idle)
      then show ?thesis using True empty less.prems by (auto simp: mixed_def remaining_def all_pending_def)
    next
      case False
      then have "run_loop call w = run_loop call v" using e True v(1,4,5) st(1) by (subst run_loop.simps) simp
      moreover have "0 < length (cbuf_list (sync_handlers w))" unfolding length_greater_0_conv by (rule False)
      then have "length (calls w) < length (calls v)" unfolding v(6) length_append by linarith
      ultimately show ?thesis using IH [OF v(2)] by simp
    qed
  next
    case False
    have busy: "dom m \<noteq> {} \<or> delayed v \<noteq> []" and d: "detached_in (svc_status v) call" using False v(5) call st(1) by auto
    obtain w1 m1 where w1: "run_round call v = Some w1" "carries v m w1 m1" "length (calls v) < length (calls w1)"
      by (rule run_round_mixed [OF st(2) busy d])
    have "run_loop call w = run_loop call w1"
      using False e v(1,4,5) w1(1) st(1) by (subst run_loop.simps) auto
    then show ?thesis using IH [OF carries_trans [OF v(2) w1(2)]] w1(3) v(6) by simp
  qed
qed

text \<open>
  C8. A service with queued handlers, delayed handlers and timed or untimed events pending on at most two descriptors runs to
  completion: in whatever order and combination \<open>poll\<close> reports the events and however late the clock is read, \<open>iosvc_run\<close> returns \<open>EIO_OK\<close> after it has called the
  handler of every queued entry, every delayed entry and every pending event exactly once, by its being ready or by its
  expiry, with no descriptor left. The answers of \<open>poll\<close> that are covered (\<open>poll_answers\<close>): it does not fail and is not
  interrupted, it returns zero only with a time limit, it reports only requested events or invalid descriptors, and at least one
  of them when it says that something is ready; so no unrequested \<open>POLLHUP\<close> and no lone \<open>POLLERR\<close>. The callbacks leave the
  service alone, and every deadline is nonnegative and within the range of an \<open>int\<close> of the clock.
\<close>

theorem iosvc_run_completes:
  assumes "mixed w m" and "svc_status w = READY" and "detached_in RUNNING call"
  shows "\<exists>w'. iosvc_run call w = Some (EIO_OK, w') \<and> mset (calls w') = mset (calls w) + mset (cbuf_list (sync_handlers w))
      + {# dh_handler x. x \<in># mset (delayed w) #} + all_pending w m
    \<and> svc_inv w' Map.empty \<and> svc_status w' = DONE"
proof -
  let ?w = "w\<lparr>svc_status := RUNNING\<rparr>"
  have lk: "look ?w m = look w m" "deadlines ?w = deadlines w" by (simp_all add: look_def fun_eq_iff deadlines_def events_list_def)
  have "mixed ?w m" using assms(1) unfolding mixed_def lk by simp
  then obtain w' where "run_loop call ?w = Some w'" "mset (calls w') = mset (calls w) + remaining ?w m" "svc_inv w' Map.empty"
      "svc_status w' = RUNNING"
    using run_loop_mixed [of ?w m call] assms(3) by auto
  moreover have "remaining ?w m = remaining w m" by (simp add: remaining_def all_pending_def pending_at_def lk)
  ultimately show ?thesis using assms(2) by (intro exI [of _ "w'\<lparr>svc_status := DONE\<rparr>"]) (simp add: iosvc_run_def remaining_def add.assoc)
qed

text \<open>A service with a queue, two delayed handlers, and a read and a timed write pending on descriptor 5. A wait with a time
  limit runs into it; without one, everything requested is ready.\<close>

definition demo_poll :: "nat \<Rightarrow> pollfd list \<Rightarrow> int \<Rightarrow> int \<times> bool \<times> pollmask list" where
  "demo_poll n P d = (if 0 \<le> d then (0, False, map (\<lambda>_. 0) P)
     else (1, False, map (\<lambda>x. pfd_events x AND (POLLIN OR POLLOUT OR POLLPRI)) P))"

definition demo_mixed :: world where
  "demo_mixed = demo_timed\<lparr>sync_handlers := sync_handlers demo_running, timed_handlers_heap := timed_handlers_heap demo_delayed,
     polls := demo_poll, clock := \<lambda>n. 10 + int n\<rparr>"

lemma demo_answers: "poll_answers (demo_poll n)"
proof -
  let ?rs = "\<lambda>P. map (\<lambda>x. pfd_events x AND (POLLIN OR POLLOUT OR POLLPRI)) P"
  have r: "reported (e AND (POLLIN OR POLLOUT OR POLLPRI)) t \<longleftrightarrow> e AND poll_flag t \<noteq> 0" "\<not> reported 0 t" for e t
    by (cases t; simp add: poll_bits and.assoc)+
  have some: "\<exists>i < length P. ?rs P ! i AND POLLNVAL \<noteq> 0 \<or> (\<exists>t. reported (?rs P ! i) t)"
    if "x \<in> set P" "pfd_events x AND poll_flag t \<noteq> 0" for P x t
    using that r(1) by (metis in_set_conv_nth nth_map)
  show ?thesis
    unfolding poll_answers_def demo_poll_def using some by (auto simp: r simp del: reported.simps)
qed

lemma demo_mixed:
  obtains n where "mixed demo_mixed [5 \<mapsto> 16]" "look demo_mixed [5 \<mapsto> 16] 5 = Some n" "{u. armed n u} = {WAIT_WRITE, WAIT_READ}"
    "handler (evt_of n WAIT_WRITE) = demo_handler 2"
proof -
  let ?m = "[5 \<mapsto> 16] :: int \<rightharpoonup> addr"
  obtain n d where d: "svc_inv demo_timed ?m" "node_data (async_handlers demo_timed) 16 = Some n"
      "{u. armed n u} = {WAIT_WRITE, WAIT_READ}" "get_evt_data n WAIT_WRITE = Some d" "handler d = demo_handler 2"
      "events_list demo_timed = [\<lparr>ah_deadline = 107, ah_remaining = 48, ah_io_op_data = 16, ah_event_type = WAIT_WRITE\<rparr>]"
    by (rule demo_timed)
  have lk: "look demo_mixed ?m k = Some x \<longleftrightarrow> k = 5 \<and> x = n" for k x
    using d(2) by (auto simp: demo_mixed_def look_def bind_eq_Some)
  let ?w = "demo_timed\<lparr>sync_handlers := sync_handlers demo_running, timed_handlers_heap := timed_handlers_heap demo_delayed\<rparr>"
  have "svc_inv ?w ?m"
    by (rule svc_inv_handlers [OF d(1) demo_running_queue(2)]) (use demo_delayed_ok(1) in \<open>simp add: delay_ok_def\<close>)
  then have "svc_inv demo_mixed ?m"
    using svc_inv_truncate [of demo_mixed ?w ?m] by (simp add: demo_mixed_def io_service.truncate_def)
  moreover have "deadlines demo_mixed = {30, 70, 107}"
    using d(6) demo_delayed_ok(3) by (auto simp: deadlines_def demo_mixed_def events_list_def)
  moreover have "armed n WAIT_READ" using d(3) by blast
  ultimately have "mixed demo_mixed ?m"
    using demo_running_queue(1) demo_delayed_ok(3) lk demo_answers
    by (auto simp: mixed_def demo_mixed_def demo_handler_def)
  then show ?thesis using that lk d(3-5) by (simp add: evt_of_def)
qed

theorem iosvc_run_completes_witness:
  "\<exists>w' h. iosvc_run (\<lambda>_. Some) demo_mixed = Some (EIO_OK, w')
    \<and> mset (calls w') = {# demo_handler 1, demo_handler 3, demo_handler 1, demo_handler 2, demo_handler 2, h #}
    \<and> svc_inv w' Map.empty \<and> svc_status w' = DONE"
proof -
  obtain n where n: "mixed demo_mixed [5 \<mapsto> 16]" "look demo_mixed [5 \<mapsto> 16] 5 = Some n" "{u. armed n u} = {WAIT_WRITE, WAIT_READ}"
      "handler (evt_of n WAIT_WRITE) = demo_handler 2"
    by (rule demo_mixed)
  have p: "all_pending demo_mixed [5 \<mapsto> 16] = {# demo_handler 2, handler (evt_of n WAIT_READ) #}"
    using n(2-4) by (simp add: all_pending_def pending_at_def)
  have "svc_status demo_timed = READY" "calls demo_timed = []" unfolding demo_timed_def demo_service_def by code_simp+
  then have c: "svc_status demo_mixed = READY" "calls demo_mixed = []" by (simp_all add: demo_mixed_def)
  have q: "cbuf_list (sync_handlers demo_mixed) = [demo_handler 1, demo_handler 3]"
      "{# dh_handler x. x \<in># mset (delayed demo_mixed) #} = {# demo_handler 1, demo_handler 2 #}"
    using demo_running_queue(1) demo_delayed_ok(3) by (simp_all add: demo_mixed_def)
  have "detached_in RUNNING (\<lambda>_. Some :: world \<Rightarrow> world option)" by (simp add: detached_in_def)
  from iosvc_run_completes [OF n(1) c(1) this] show ?thesis unfolding q p c(2) by (auto simp: add_mset_commute)
qed

end
