(* ===== verification/History.thy ===== *)
theory History
  imports Loop_Run
begin

text \<open>
  The interface as a whole: whatever sequence of calls a program makes, the service invariant holds, and every
  further call returns.
\<close>

section \<open>Registration always returns\<close>

text \<open>The allocator returns fresh memory, and an event on a new descriptor \<open>k\<close> is not attached on the inner side of a
  red node.\<close>

definition room :: "'x world_scheme \<Rightarrow> int \<Rightarrow> bool" where
  "room w k \<longleftrightarrow> (\<forall>i. \<exists>a. mallocs w i = Some a \<and> a \<noteq> NULL \<and> aligned a \<and> rb_store (async_handlers w) a = None)
     \<and> (\<forall>place parent. rb_probe (async_handlers w) Root_ref k = Some (place, parent) \<longrightarrow> deref (async_handlers w) place = Some NULL \<longrightarrow>
          \<not> zigzag_at (async_handlers w) place)"

lemma room_later:
  assumes "room w k" "alloc_if b w = (ok, w1)"
  shows "room w1 k"
  using assms by (auto simp: room_def alloc_if_def next_malloc_def Let_def split: if_splits)

lemma probe_free:
  assumes TH: "tree_holds h m" and k: "m k = None"
  obtains place parent where "rb_probe h Root_ref k = Some (place, parent)" "deref h place = Some NULL"
proof -
  obtain T where T: "rb_tree h T" "tree_map T = m" using TH by (auto simp: tree_holds_def)
  obtain place parent where pr: "rb_probe h Root_ref k = Some (place, parent)" using probe_runs [OF TH] .
  obtain C t where "deref h place = Some (ptr t)" "t = Lf \<longleftrightarrow> tree_map T k = None" using probe_result [OF T(1) pr] by metis
  then show ?thesis using that pr k T(2) by simp
qed

lemma enqueue_total:
  assumes inv: "svc_inv w m" and room: "room w (ev_fd event)"
  obtains (refused) e where "iosvc_enqueue event hnd st w = Some (e, None, w)"
    | (added) m' b w' n where "iosvc_enqueue event hnd st w = Some (EIO_OK, Some b, w')" "svc_inv w' m'" "b \<in> ran m'"
        "registered w w' m b n" "callback hnd \<noteq> NULL"
        "get_evt_data n (ev_wait_type event) = Some \<lparr>handler = hnd, status = st, ddl_heap_idx = -1\<rparr>"
proof -
  have TH: "tree_holds (async_handlers w) m" using inv by (simp add: svc_inv_def)
  consider (down) "svc_status w \<notin> {READY, RUNNING}" | (null) "svc_status w \<in> {READY, RUNNING}" "callback hnd = NULL"
    | (up) "svc_status w \<in> {READY, RUNNING}" "callback hnd \<noteq> NULL" by blast
  then show ?thesis
  proof cases
    case up
    have mem: "\<forall>i. mallocs w i \<noteq> None" using room unfolding room_def by (metis option.distinct(1))
    show ?thesis
    proof (cases "m (ev_fd event)")
      case None
      obtain place parent where pr: "rb_probe (async_handlers w) Root_ref (ev_fd event) = Some (place, parent)" "deref (async_handlers w) place = Some NULL"
        using probe_free [OF TH None] .
      have nz: "\<not> zigzag_at (async_handlers w) place" using room pr by (simp add: room_def)
      obtain a where a: "node_malloc w = Some a" "a \<noteq> NULL" "aligned a" "rb_store (async_handlers w) a = None"
        using room unfolding room_def node_malloc_def by metis
      have "a \<notin> ran m" using tree_holds_data [OF TH, of a] a(4) by (auto simp: node_data_def)
      then obtain w' n where "iosvc_enqueue event hnd st w = Some (EIO_OK, Some a, w')" "svc_inv w' (m(ev_fd event \<mapsto> a))" "registered w w' m a n"
          "get_evt_data n (ev_wait_type event) = Some \<lparr>handler = hnd, status = st, ddl_heap_idx = -1\<rparr>"
        using iosvc_enqueue_new [OF inv up pr(1) None nz mem a(1-3)] by metis
      moreover have "a \<in> ran (m(ev_fd event \<mapsto> a))" by (rule ranI [of _ "ev_fd event"]) simp
      ultimately show ?thesis using added up(2) by blast
    next
      case (Some a)
      obtain r where r: "rb_load (async_handlers w) a = Some r" "a \<noteq> NULL" "rb_store (async_handlers w) a = Some r"
        using tree_holds_load [OF TH Some] .
      then have n: "node_data (async_handlers w) a = Some (payload r)" by (simp add: node_data_def)
      obtain place parent where pr: "rb_probe (async_handlers w) Root_ref (ev_fd event) = Some (place, parent)" using probe_runs [OF TH] .
      show ?thesis
      proof (cases "armed r (ev_wait_type event)")
        case True
        then have "iosvc_enqueue event hnd st w = Some (EIO_INPROGRESS, None, w)"
          using up pr probe_old [OF TH pr Some] r by (auto simp: iosvc_enqueue_def is_scheduled_armed)
        then show ?thesis by (rule refused)
      next
        case False
        obtain w' n' where "iosvc_enqueue event hnd st w = Some (EIO_OK, Some a, w')" "svc_inv w' m" "registered w w' m a n'"
            "get_evt_data n' (ev_wait_type event) = Some \<lparr>handler = hnd, status = st, ddl_heap_idx = -1\<rparr>"
          using iosvc_enqueue_old [OF inv up Some n] False mem by (metis armed_payload(1))
        then show ?thesis using added up(2) ranI [of m, OF Some] by blast
      qed
    qed
  qed (use refused in \<open>auto simp: iosvc_enqueue_def\<close>)
qed

lemma sched_timeout_total:
  assumes inv: "svc_inv w m" and room: "room w (ev_fd event)" and ms: "ms \<noteq> NULL" "0 \<le> clock w 0 + ints w ms"
  obtains e w' m' where "iosvc_sched_timeout event hnd st ms w = Some (e, w')" "svc_inv w' m'"
    "sync_handlers w' = sync_handlers w" "timed_handlers_heap w' = timed_handlers_heap w"
proof -
  have h: "dynarr_inv (timed_events_heap w)"
    using inv by (simp add: svc_inv_def timers_ok_def events_ok_def heap_idx_ok_def)
  have rt: "room (ticked w) (ev_fd event)" using room by (simp add: room_def)
  then have mem: "\<forall>i. mallocs (ticked w) i \<noteq> None" unfolding room_def by (metis option.distinct(1))
  obtain ok w1 where al: "alloc_if (dynarr_full (timed_events_heap w)) (ticked w) = (ok, w1)" by fastforce
  obtain p d where em: "dynarr_emplace_back ok (timed_events_heap w) = (Some p, d)"
    by (rule alloc_emplace [OF h mem al])
  obtain mm where w1: "w1 = (ticked w)\<lparr>mallocs := mm\<rparr>" using alloc_if_world [OF al] by blast
  have inv1: "svc_inv w1 m" using inv unchanged_svc_inv [of "ticked w" m w1] by (simp add: w1)
  show ?thesis
  proof (rule enqueue_total [OF inv1 room_later [OF rt al], where hnd = hnd and st = st])
    fix e assume q: "iosvc_enqueue event hnd st w1 = Some (e, None, w1)"
    have "dynarr_inv (dynarr_pop_back d)" "dynarr_list (dynarr_pop_back d) = dynarr_list (timed_events_heap w)"
      using dynarr_emplace_pop [OF h em] .
    then have "svc_inv (with_heap (dynarr_pop_back d) w1) m"
      using inv1 by (simp add: w1 svc_inv_def delay_ok_def poll_ok_def timers_ok_def events_ok_def heap_idx_ok_def events_list_def
          del: length_dynarr_list)
    then show ?thesis using that sched_timeout_run [OF ms(1) al em q] by (simp add: w1)
  next
    fix m' b w2 n assume "iosvc_enqueue event hnd st w1 = Some (EIO_OK, Some b, w2)" "svc_inv w2 m'" "b \<in> ran m'" "registered w1 w2 m b n"
      "callback hnd \<noteq> NULL" "get_evt_data n (ev_wait_type event) = Some \<lparr>handler = hnd, status = st, ddl_heap_idx = -1\<rparr>"
    then show ?thesis using sched_timeout_adds [OF inv ms al em] that by metis
  qed
qed

section \<open>Cancelling always returns\<close>

lemma cancel_total:
  assumes inv: "svc_inv w m" and call: "detached_in RUNNING call"
    and safe: "\<And>place parent a. rb_probe (async_handlers w) Root_ref (ev_fd event) = Some (place, parent) \<Longrightarrow>
      deref (async_handlers w) place = Some a \<Longrightarrow> a \<noteq> NULL \<Longrightarrow> extract_safe (async_handlers w) a"
  obtains e w' m' where "iosvc_cancel call event w = Some (e, w')" "svc_inv w' m'"
    "sync_handlers w' = sync_handlers w" "timed_handlers_heap w' = timed_handlers_heap w"
proof -
  let ?k = "ev_fd event" and ?t = "ev_wait_type event"
  have TH: "tree_holds (async_handlers w) m" using inv by (simp add: svc_inv_def)
  show ?thesis
  proof (cases "svc_status w = RUNNING")
    case run: True
    show ?thesis
    proof (cases "m ?k")
      case None
      obtain place parent where "rb_probe (async_handlers w) Root_ref ?k = Some (place, parent)" "deref (async_handlers w) place = Some NULL"
        using probe_free [OF TH None] .
      then show ?thesis using that [of EIO_NOENTRY w m] run inv by (simp add: iosvc_cancel_def)
    next
      case (Some a)
      obtain r where r: "rb_load (async_handlers w) a = Some r" "a \<noteq> NULL" "rb_store (async_handlers w) a = Some r"
        using tree_holds_load [OF TH Some] .
      then have n: "node_data (async_handlers w) a = Some (payload r)" by (simp add: node_data_def)
      obtain place parent where pr: "rb_probe (async_handlers w) Root_ref ?k = Some (place, parent)" using probe_runs [OF TH] .
      note dp = probe_old [OF TH pr Some]
      show ?thesis
      proof (cases "armed r ?t")
        case True
        then obtain d where d: "get_evt_data (payload r) ?t = Some d" "callback (handler d) \<noteq> NULL"
          by (metis armed_Some armed_payload(1))
        have s: "{u. armed (payload r) u} = {?t} \<longrightarrow> extract_safe (async_handlers w) a" using safe [OF pr dp r(2)] by blast
        from cancel_exec [OF inv run Some n d call s] show ?thesis using that unfolding rest_kept_def by blast
      next
        case False
        then have "iosvc_cancel call event w = Some (EIO_NOENTRY, w)"
          using run pr dp r by (simp add: iosvc_cancel_def armed_def)
        then show ?thesis using that inv by blast
      qed
    qed
  next
    case False
    then show ?thesis using that [of EIO_INVARG w m] inv by (simp add: iosvc_cancel_def)
  qed
qed

section \<open>States a service can be in\<close>

definition sound :: "'x world_scheme \<Rightarrow> bool" where
  "sound w \<longleftrightarrow> (\<exists>m. svc_inv w m) \<and> (\<forall>h \<in> set (cbuf_list (sync_handlers w)). callback h \<noteq> NULL)
     \<and> (\<forall>x \<in> set (delayed w). callback (dh_handler x) \<noteq> NULL)"

lemma sound_same:
  assumes "sound w" "svc_inv w' m" "sync_handlers w' = sync_handlers w" "timed_handlers_heap w' = timed_handlers_heap w"
  shows "sound w'"
  using assms by (auto simp: sound_def)

lemma sound_truncate:
  assumes "sound w" "io_service.truncate w' = io_service.truncate w"
  shows "sound w'"
  using assms svc_inv_truncate [OF assms(2)] truncate_fields [OF assms(2)] by (auto simp: sound_def)

lemma svc_inv_queues:
  assumes "svc_inv w m" "cbuf_inv cb"
  shows "svc_inv (w\<lparr>sync_handlers := cb\<rparr>) m" "delay_ok (w\<lparr>timed_handlers_heap := d\<rparr>) \<Longrightarrow> svc_inv (w\<lparr>timed_handlers_heap := d\<rparr>) m"
  using assms by (simp_all add: svc_inv_def delay_ok_def poll_ok_def timers_ok_def events_ok_def heap_idx_ok_def events_list_def
      del: length_dynarr_list)

text \<open>What a program does with a service, and the steps of the loop: it marks the service as running (\<open>Start\<close>), runs the
  queue (\<open>Sync\<close>), reads the clock (\<open>Tick\<close>), calls \<open>poll\<close>, which writes what it reports into the poll vector, stops when \<open>poll\<close>
  fails, lets the first deadline expire, serves the poll vector, and in the end calls all handlers that are left when it was
  stopped (\<open>Halt\<close>) and marks the service as done (\<open>Finish\<close>).\<close>

datatype op =
    Post io_handler
  | Post_delay io_handler addr int
  | Sched io_event io_handler addr
  | Sched_timeout io_event io_handler addr addr
  | Cancel io_event
  | Stop
  | Reset
  | Start
  | Sync
  | Tick
  | Poll int
  | Poll_failed
  | Expire bool int
  | Dispatch int
  | Halt
  | Finish

fun perform :: "'x call \<Rightarrow> op \<Rightarrow> 'x world_scheme \<Rightarrow> 'x world_scheme option" where
  "perform call (Post h) w = Some (snd (iosvc_post h w))"
| "perform call (Post_delay h st ms) w = map_option snd (iosvc_post_delay h st ms w)"
| "perform call (Sched ev h st) w = map_option snd (iosvc_sched ev h st w)"
| "perform call (Sched_timeout ev h st ms) w = map_option snd (iosvc_sched_timeout ev h st ms w)"
| "perform call (Cancel ev) w = map_option snd (iosvc_cancel call ev w)"
| "perform call Stop w = Some (snd (iosvc_stop w))"
| "perform call Reset w = Some (snd (iosvc_reset w))"
| "perform call Start w = Some (w\<lparr>svc_status := RUNNING\<rparr>)"
| "perform call Sync w = run_sync_handlers call w"
| "perform call (Expire is_event now) w = timeout_first call is_event now w"
| "perform call (Dispatch now) w = dispatch_ready_events call now w"
| "perform call Tick w = Some (snd (current_time w))"
| "perform call (Poll delay) w = map_option (snd \<circ> snd) (svc_poll delay w)"
| "perform call Poll_failed w = Some (w\<lparr>svc_status := STOPPING\<rparr>)"
| "perform call Halt w = iosvc_prep_stop call w"
| "perform call Finish w = Some (w\<lparr>svc_status := DONE\<rparr>)"

fun allowed :: "op \<Rightarrow> 'x world_scheme \<Rightarrow> bool" where
  "allowed (Sched ev h st) w \<longleftrightarrow> room w (ev_fd ev)"
| "allowed (Sched_timeout ev h st ms) w \<longleftrightarrow> room w (ev_fd ev) \<and> ms \<noteq> NULL \<and> 0 \<le> clock w 0 + ints w ms"
| "allowed (Cancel ev) w \<longleftrightarrow> (\<forall>place parent a. rb_probe (async_handlers w) Root_ref (ev_fd ev) = Some (place, parent) \<longrightarrow>
     deref (async_handlers w) place = Some a \<longrightarrow> a \<noteq> NULL \<longrightarrow> extract_safe (async_handlers w) a)"
| "allowed Start w \<longleftrightarrow> svc_status w = READY"
| "allowed (Expire is_event now) w \<longleftrightarrow> (if is_event then events_list w \<noteq> []
     \<and> extract_safe (async_handlers w) (ah_io_op_data (events_list w ! 0)) else delayed w \<noteq> [])"
| "allowed (Dispatch now) w \<longleftrightarrow> (\<exists>m. svc_inv w m \<and> (\<forall>k \<in> dom m. asked_at w m k) \<and> removable w m (dom m))"
| "allowed Halt w \<longleftrightarrow> svc_status w = STOPPING"
| "allowed _ w \<longleftrightarrow> True"

lemma run_sync_sound:
  assumes "\<And>s. detached_in s call" and "sound w"
  shows "\<exists>w'. run_sync_handlers call w = Some w' \<and> sound w'"
  using assms(2)
proof (induction "length (cbuf_list (sync_handlers w))" arbitrary: w)
  case 0
  have "cbuf_list (sync_handlers w) = []" using 0(1) by (metis length_0_conv)
  then have "cbuf_empty (sync_handlers w)" using 0(2) by (auto simp: sound_def svc_inv_def cbuf_empty_list)
  then show ?case using 0(2) by (subst run_sync_handlers.simps) simp
next
  case (Suc l)
  let ?q = "cbuf_list (sync_handlers w)"
  obtain m where inv: "svc_inv w m" using Suc.prems by (auto simp: sound_def)
  then have cb: "cbuf_inv (sync_handlers w)" by (simp add: svc_inv_def)
  have ne: "?q \<noteq> []" using Suc.hyps(2) by (metis length_0_conv nat.distinct(1))
  let ?w = "w\<lparr>calls := calls w @ [hd ?q]\<rparr>"
  obtain v where v: "call (hd ?q) ?w = Some v" "io_service.truncate v = io_service.truncate ?w"
    using assms(1) [of "svc_status ?w"] unfolding detached_in_def by blast
  have "io_service.truncate ?w = io_service.truncate w" by (simp add: io_service.truncate_def)
  with v(2) have t: "io_service.truncate v = io_service.truncate w" by simp
  note f = truncate_fields [OF t]
  let ?v = "v\<lparr>sync_handlers := cbuf_pop (sync_handlers v)\<rparr>"
  have nn: "callback (hd ?q) \<noteq> NULL" using Suc.prems ne by (auto simp: sound_def)
  have "svc_inv ?v m"
    using svc_inv_queues(1) [of v m "cbuf_pop (sync_handlers w)"] cbuf_pop_spec(1) [OF cb ne] inv f(1) svc_inv_truncate [OF t] by simp
  then have "sound ?v"
    using Suc.prems f cbuf_pop_spec(2) [OF cb ne] by (auto simp: sound_def dest: list.set_sel(2) [OF ne])
  moreover have "l = length (cbuf_list (sync_handlers ?v))" using Suc.hyps(2) f(1) cbuf_pop_spec(2) [OF cb ne] by simp
  moreover have "run_sync_handlers call w = run_sync_handlers call ?v"
    using ne cb v(1) nn cbuf_front_spec [OF cb ne] by (subst run_sync_handlers.simps) (simp add: cbuf_empty_list invoke_def)
  ultimately show ?case using Suc.hyps(1) [of ?v] by simp
qed

lemma expire_event_sound:
  assumes call: "\<And>s. detached_in s call" and w: "sound w" and ne: "events_list w \<noteq> []"
    and safe: "extract_safe (async_handlers w) (ah_io_op_data (events_list w ! 0))"
  shows "\<exists>w'. timeout_first call True now w = Some w' \<and> sound w'"
proof -
  obtain m where inv: "svc_inv w m" using w by (auto simp: sound_def)
  let ?e = "events_list w ! 0"
  have el: "?e \<in> set (events_list w)" using ne by simp
  have TH: "tree_holds (async_handlers w) m" and tm: "timers_ok w m" using inv by (simp_all add: svc_inv_def)
  then have "ah_io_op_data ?e \<in> ran m" using el by (auto simp: timers_ok_def)
  moreover from tree_holds_data [OF TH this] obtain n where n: "node_data (async_handlers w) (ah_io_op_data ?e) = Some n" by auto
  ultimately obtain k where k: "m k = Some (ah_io_op_data ?e)" by (auto simp: ran_def)
  have "armed n (ah_event_type ?e)" using tm el n by (auto simp: timers_ok_def)
  then obtain d where d: "get_evt_data n (ah_event_type ?e) = Some d" by (auto simp: armed_Some)
  obtain w' where "timeout_first call True now w = Some w'" "rest_kept w w'"
      "svc_inv w' (if {u. armed n u} = {ah_event_type ?e} then m(k := None) else m)"
    using timeout_event_exec [OF inv ne refl k n d call, of now] safe by blast
  then show ?thesis using sound_same [OF w] by (auto simp: rest_kept_def)
qed

lemma expire_delayed_sound:
  assumes call: "\<And>s. detached_in s call" and w: "sound w" and ne: "delayed w \<noteq> []"
  shows "\<exists>w'. timeout_first call False now w = Some w' \<and> sound w'"
proof -
  obtain m where inv: "svc_inv w m" using w by (auto simp: sound_def)
  then have ok: "delay_ok w" and cb: "cbuf_inv (sync_handlers w)" by (simp_all add: svc_inv_def)
  let ?x = "delayed w ! 0"
  let ?w = "(put_status (dh_status ?x) EIO_OK w)\<lparr>calls := calls w @ [dh_handler ?x]\<rparr>"
  obtain v where v: "call (dh_handler ?x) ?w = Some v" "io_service.truncate v = io_service.truncate ?w"
    using call [of "svc_status ?w"] unfolding detached_in_def by blast
  have "io_service.truncate ?w = io_service.truncate w" by (simp add: io_service.truncate_def put_status_def)
  with v(2) have t: "io_service.truncate v = io_service.truncate w" by simp
  note f = truncate_fields [OF t]
  have x: "callback (dh_handler ?x) \<noteq> NULL" using w ne nth_mem [of 0 "delayed w"] by (auto simp: sound_def simp del: length_dynarr_list)
  have dv: "delay_ok v" "delayed v \<noteq> []" "delayed v ! 0 = ?x" using ok ne f(2) by (simp_all add: delay_ok_def)
  obtain w' d where w': "timeout_first call False now w = Some w'" "delay_ok w'" "mset (delayed v) = add_mset ?x (mset (delayed w'))"
      "w' = v\<lparr>timed_handlers_heap := d\<rparr>"
    using timeout_delayed_correct [of w ?x call v now] ok ne x v(1) dv by blast
  have sub: "set (delayed w') \<subseteq> set (delayed w)" using arg_cong [OF w'(3), of set_mset] f(2) by auto
  have "svc_inv v m" using inv svc_inv_truncate [OF t] by simp
  then have "svc_inv w' m" using svc_inv_queues(2) [of v m] w'(2,4) by (auto simp: svc_inv_def)
  then have "sound w'" using w sub f(1) w'(4) by (auto simp: sound_def)
  then show ?thesis using w'(1) by blast
qed

lemma post_sound:
  assumes w: "sound w"
  shows "sound (snd (iosvc_post h w))"
proof -
  obtain m where inv: "svc_inv w m" using w by (auto simp: sound_def)
  then have cb: "cbuf_inv (sync_handlers w)" by (simp add: svc_inv_def)
  have ms: "sound (w\<lparr>mallocs := x\<rparr>)" "svc_inv (w\<lparr>mallocs := x\<rparr>) m" for x
    using w inv sound_truncate [of w "w\<lparr>mallocs := x\<rparr>"] svc_inv_truncate [of "w\<lparr>mallocs := x\<rparr>" w m] by (simp_all add: io_service.truncate_def)
  obtain e w' where r: "iosvc_post h w = (e, w')" by fastforce
  have "sound w'"
  proof (cases rule: iosvc_post_cases [OF cb r])
    case (4 x c)
    then have "svc_inv w' m" using svc_inv_queues(1) [OF ms(2)] by simp
    then show ?thesis using w 4 by (auto simp: sound_def)
  qed (use w ms in auto)
  then show ?thesis by (simp add: r)
qed

lemma post_delay_sound:
  assumes w: "sound w"
  shows "\<exists>e w'. iosvc_post_delay h st ms w = Some (e, w') \<and> sound w'"
proof -
  obtain m where inv: "svc_inv w m" using w by (auto simp: sound_def)
  then have ok: "delay_ok w" and cb: "cbuf_inv (sync_handlers w)" by (simp_all add: svc_inv_def)
  have env: "sound v \<and> svc_inv v m" if "io_service.truncate v = io_service.truncate w" for v
    using that inv sound_truncate [OF w] svc_inv_truncate [OF that] by simp
  show ?thesis
  proof (cases rule: iosvc_post_delay_cases [OF ok, of h st ms])
    case (4 x d w')
    let ?v = "w\<lparr>clock := \<lambda>n. clock w (Suc n), mallocs := x\<rparr>"
    have "svc_inv ?v m" using env [of ?v] by (simp add: io_service.truncate_def)
    then have "svc_inv w' m" using svc_inv_queues(2) [OF _ cb, of ?v m d] 4(2,6) by simp
    moreover have "set (delayed w') = insert \<lparr>dh_deadline = clock w 0 + ms, dh_handler = h, dh_status = st\<rparr> (set (delayed w))"
      using arg_cong [OF 4(7), of set_mset] 4(2) by simp
    ultimately have "sound w'" using w 4(2,3) by (auto simp: sound_def)
    then show ?thesis using 4(1) by blast
  next
    case (1 w')
    then show ?thesis using env [of w'] by (auto simp: io_service.truncate_def)
  next
    case (2 w')
    then show ?thesis using env [of w'] by (auto simp: io_service.truncate_def)
  next
    case (3 x w')
    then show ?thesis using env [of w'] by (auto simp: io_service.truncate_def)
  qed
qed

lemma sched_sound:
  assumes w: "sound w" and room: "room w (ev_fd ev)"
  shows "\<exists>e w'. iosvc_sched ev h st w = Some (e, w') \<and> sound w'"
proof -
  obtain m where inv: "svc_inv w m" using w by (auto simp: sound_def)
  show ?thesis
  proof (rule enqueue_total [OF inv room, where hnd = h and st = st])
    fix e assume "iosvc_enqueue ev h st w = Some (e, None, w)"
    then show ?thesis using w by (simp add: iosvc_sched_def)
  next
    fix m' b w' n assume r: "iosvc_enqueue ev h st w = Some (EIO_OK, Some b, w')" "svc_inv w' m'" "registered w w' m b n"
    have "sound w'" by (rule sound_same [OF w r(2)]) (use r(3) in \<open>auto simp: registered_def\<close>)
    then show ?thesis using r(1) by (simp add: iosvc_sched_def)
  qed
qed

lemma dispatch_sound:
  assumes call: "\<And>s. detached_in s call" and w: "sound w" and ok: "allowed (Dispatch now) w"
  shows "\<exists>w'. dispatch_ready_events call now w = Some w' \<and> sound w'"
proof -
  obtain m where inv: "svc_inv w m" "\<forall>k \<in> dom m. asked_at w m k" "removable w m (dom m)" using ok by auto
  obtain w' where "dispatch_ready_events call now w = Some w'" "served w m (dom m) w'"
    using dispatch_from_all [OF inv(1) call, of 0 now] inv(2,3) by (auto simp: from_entry_0 [OF inv(1)] dispatch_ready_events_def)
  then show ?thesis using sound_same [OF w] by (auto simp: served_def rest_kept_def)
qed

lemma halt_sound:
  assumes call: "\<And>s. detached_in s call" and w: "sound w"
  shows "\<exists>w'. iosvc_prep_stop call w = Some w' \<and> sound w'"
proof -
  obtain m where inv: "svc_inv w m" and cb: "\<forall>x \<in> set (delayed w). callback (dh_handler x) \<noteq> NULL"
    using w by (auto simp: sound_def)
  obtain w' where "iosvc_prep_stop call w = Some w'" "sync_handlers w' = sync_handlers w" "delayed w' = []" "svc_inv w' Map.empty"
    by (rule prep_stop_exec [OF inv cb call])
  then show ?thesis using w by (auto simp: sound_def)
qed

lemma poll_sound:
  assumes w: "sound w"
  shows "\<exists>r i w'. svc_poll delay w = Some (r, i, w') \<and> sound w'"
proof -
  obtain m where inv: "svc_inv w m" using w by (auto simp: sound_def)
  then have P: "dynarr_inv (pollfds w)" by (simp add: svc_inv_def poll_ok_def Let_def)
  obtain r i rs where p: "polls w 0 (dynarr_list (pollfds w)) delay = (r, i, rs)" by (metis prod_cases3)
  let ?rs = "take (dynarr_size (pollfds w)) rs"
  have "0 + length ?rs \<le> length (dynarr_list (pollfds w))" using dynarr_size_list [OF P] by simp
  from set_revents_exec [OF P this] obtain d where d: "set_revents ?rs 0 (pollfds w) = Some d" "dynarr_inv d"
      "length (dynarr_list d) = length (dynarr_list (pollfds w))"
      "\<forall>j < length (dynarr_list (pollfds w)). dynarr_list d ! j = (if 0 \<le> j \<and> j < 0 + length ?rs
        then (dynarr_list (pollfds w) ! j)\<lparr>pfd_revents := ?rs ! (j - 0)\<rparr> else dynarr_list (pollfds w) ! j)" .
  let ?v = "w\<lparr>pollfds := d, polls := \<lambda>n. polls w (Suc n)\<rparr>"
  have "svc_inv (w\<lparr>pollfds := d\<rparr>) m"
    by (rule svc_inv_revents [OF inv d(2,3)]) (use d(3,4) in \<open>simp del: length_dynarr_list\<close>)
  then have "svc_inv ?v m" using svc_inv_truncate [of ?v "w\<lparr>pollfds := d\<rparr>" m] by (simp add: io_service.truncate_def)
  then have "sound ?v" by (rule sound_same [OF w]) simp_all
  moreover have "svc_poll delay w = Some (r, i, ?v)" using p d(1) by (simp add: svc_poll_def with_pollfds_def)
  ultimately show ?thesis by blast
qed

lemma tick_sound: "sound w \<Longrightarrow> sound (snd (current_time w))"
  by (erule sound_truncate) (simp add: current_time_def io_service.truncate_def)

lemma sound_status: "sound w \<Longrightarrow> sound (w\<lparr>svc_status := s\<rparr>)"
  by (auto simp: sound_def)

lemma perform_sound:
  assumes call: "\<And>s. detached_in s call" and w: "sound w" and ok: "allowed op w"
  shows "\<exists>w'. perform call op w = Some w' \<and> sound w'"
proof (cases op)
  case (Post_delay h st ms)
  then show ?thesis using post_delay_sound [OF w, of h st ms] by auto
next
  case (Sched ev h st)
  then show ?thesis using sched_sound [OF w, of ev h st] ok by auto
next
  case (Sched_timeout ev h st ms)
  obtain m where inv: "svc_inv w m" using w by (auto simp: sound_def)
  obtain e w' m' where "iosvc_sched_timeout ev h st ms w = Some (e, w')" "svc_inv w' m'" "sync_handlers w' = sync_handlers w"
      "timed_handlers_heap w' = timed_handlers_heap w"
    by (rule sched_timeout_total [OF inv, of ev ms h st]) (use ok Sched_timeout in auto)
  then show ?thesis using Sched_timeout sound_same [OF w] by simp
next
  case (Cancel ev)
  obtain m where inv: "svc_inv w m" using w by (auto simp: sound_def)
  obtain e w' m' where "iosvc_cancel call ev w = Some (e, w')" "svc_inv w' m'" "sync_handlers w' = sync_handlers w"
      "timed_handlers_heap w' = timed_handlers_heap w"
    by (rule cancel_total [OF inv call, of ev]) (use ok Cancel in auto)
  then show ?thesis using Cancel sound_same [OF w] by simp
next
  case (Expire b now)
  then show ?thesis using ok expire_event_sound [OF call w] expire_delayed_sound [OF call w] by (cases b) auto
next
  case (Dispatch now)
  then show ?thesis using ok dispatch_sound [OF call w, of now] by simp
next
  case Halt
  then show ?thesis using halt_sound [OF call w] by simp
next
  case (Poll d)
  then show ?thesis using poll_sound [OF w, of d] by auto
qed (use w post_sound [OF w] run_sync_sound [OF call w] tick_sound [OF w] sound_status in
    \<open>auto simp: iosvc_stop_def iosvc_reset_def split: svc_status.splits\<close>)

section \<open>Histories\<close>

text \<open>The states a service can reach: after its creation, by an operation, and by what happens elsewhere in the program
  (memory of the program changes, time passes, the allocator and \<open>poll\<close> are at another point). What \<open>poll\<close> answers is part of
  the state, arbitrary and changed by the last rule, so the poll vector can come to hold any report.\<close>

inductive reaches :: "'x call \<Rightarrow> 'x world_scheme \<Rightarrow> bool" for call where
  created: "iosvc_create True = Some (io_service.truncate w) \<Longrightarrow> reaches call w"
| performed: "reaches call w \<Longrightarrow> allowed op w \<Longrightarrow> perform call op w = Some w' \<Longrightarrow> reaches call w'"
| elsewhere: "reaches call w \<Longrightarrow> io_service.truncate w' = io_service.truncate w \<Longrightarrow> reaches call w'"

lemma create_sound: "iosvc_create True = Some (io_service.truncate w) \<Longrightarrow> sound w"
proof -
  assume c: "iosvc_create True = Some (io_service.truncate w)"
  then have "sync_handlers w = cbuf_init 16" "timed_handlers_heap w = dynarr_init 32"
    by (auto simp: iosvc_create_def io_service.truncate_def)
  then show "sound w" using iosvc_create_inv [OF c] by (auto simp: sound_def)
qed

lemma reaches_sound:
  assumes call: "\<And>s. detached_in s call" and "reaches call w"
  shows "sound w"
  using assms(2)
proof (induction rule: reaches.induct)
  case (created w)
  then show ?case by (rule create_sound)
next
  case (performed w op w')
  then show ?case using perform_sound [OF call performed.IH performed.hyps(2)] by auto
next
  case (elsewhere w w')
  then show ?case using sound_truncate by blast
qed

end
