(* ===== verification/Loop_History.thy ===== *)
theory Loop_History
  imports History
begin

text \<open>
  The loop as a history: a round of \<open>iosvc_run\<close> is a sequence of the loop's steps of \<open>History\<close>, chosen by what the
  deadlines, \<open>poll\<close> and the clock say, and a run is a sequence of rounds. So a round, or a whole run, whose steps are
  allowed returns, and leaves a state of which the same holds.
\<close>

section \<open>The steps of a round\<close>

text \<open>The world after the clock was read and \<open>poll\<close> has returned, and what \<open>poll\<close> returned.\<close>

definition polled :: "int \<Rightarrow> 'x world_scheme \<Rightarrow> (int \<times> bool \<times> 'x world_scheme) option" where
  "polled delay w = do { (ready, eintr, w) \<leftarrow> svc_poll delay (snd (current_time w)); Some (ready, eintr, snd (current_time w)) }"

text \<open>Which steps a round makes; \<open>None\<close> where it would read a variable that was never written. \<open>now\<close> is the time at which
  \<open>poll\<close> returned, \<open>elapsed\<close> how long it took.\<close>

definition after_poll :: "bool option \<Rightarrow> int \<Rightarrow> int \<Rightarrow> bool \<Rightarrow> int \<Rightarrow> int \<Rightarrow> 'x world_scheme \<Rightarrow> op list option" where
  "after_poll is_event delay ready_fds eintr elapsed now v =
     (if ready_fds < 0 \<and> \<not> eintr then Some [Poll_failed]
      else if ready_fds = 0 then do { ev \<leftarrow> is_event; Some [Expire ev now] }
      else if to_int elapsed \<ge> delay \<and> delay \<noteq> -1
      then do { ev \<leftarrow> is_event;
                ready \<leftarrow> (if ev then is_top_event_ready v else Some False);
                Some ((if \<not> ev \<or> \<not> ready then [Expire ev now] else []) @ [Dispatch now]) }
      else Some [Dispatch now])"

definition round_ops :: "'x world_scheme \<Rightarrow> op list option" where
  "round_ops w =
     do { (deadline, is_event) \<leftarrow> next_deadline w;
          let delay = poll_delay deadline (clock w 0);
          (ready_fds, eintr, v) \<leftarrow> polled delay w;
          rest \<leftarrow> after_poll is_event delay ready_fds eintr (clock w 1 - clock w 0) (clock w 1) v;
          Some ([Tick, Poll delay, Tick] @ rest) }"

primrec perform_all :: "'x call \<Rightarrow> op list \<Rightarrow> 'x world_scheme \<Rightarrow> 'x world_scheme option" where
  "perform_all call [] w = Some w"
| "perform_all call (op # ops) w = do { w \<leftarrow> perform call op w; perform_all call ops w }"

lemma perform_all_append: "perform_all call (xs @ ys) w = do { w \<leftarrow> perform_all call xs w; perform_all call ys w }"
  by (induction xs arbitrary: w) (simp_all add: bind_assoc)

lemma polled_steps:
  assumes "polled delay w = Some (ready, eintr, v)"
  shows "perform_all call [Tick, Poll delay, Tick] w = Some v"
  using assms by (auto simp: polled_def bind_eq_Some)

text \<open>\<open>run_round\<close> is the sequence of its steps.\<close>

lemma run_round_steps:
  assumes "round_ops w = Some ops"
  shows "run_round call w = perform_all call ops w"
proof -
  obtain deadline is_event delay ready eintr v rest where nd: "next_deadline w = Some (deadline, is_event)"
    and delay: "poll_delay deadline (clock w 0) = delay" and pl: "polled delay w = Some (ready, eintr, v)"
    and rest: "after_poll is_event delay ready eintr (clock w 1 - clock w 0) (clock w 1) v = Some rest"
    and ops: "ops = [Tick, Poll delay, Tick] @ rest"
    using assms by (auto simp: round_ops_def bind_eq_Some Let_def)
  obtain u where u: "svc_poll delay (snd (current_time w)) = Some (ready, eintr, u)" "v = snd (current_time u)"
    using pl by (auto simp: polled_def bind_eq_Some)
  have c: "clock u 0 = clock w 1"
    using u(1) by (auto simp: svc_poll_def with_pollfds_def current_time_def bind_eq_Some Let_def split: prod.splits)
  have "run_round call w = perform_all call rest v"
    using rest nd delay u c
    by (auto simp: run_round_def current_time_def after_poll_def Let_def bind_eq_Some split: if_splits)
  then show ?thesis
    unfolding ops perform_all_append polled_steps [OF pl] by simp
qed

text \<open>Every step is allowed where it is made.\<close>

primrec followed :: "'x call \<Rightarrow> op list \<Rightarrow> 'x world_scheme \<Rightarrow> bool" where
  "followed call [] w \<longleftrightarrow> True"
| "followed call (op # ops) w \<longleftrightarrow> allowed op w \<and> (\<forall>w'. perform call op w = Some w' \<longrightarrow> followed call ops w')"

lemma perform_all_reaches:
  assumes call: "\<And>s. detached_in s call" and "reaches call w" "followed call ops w"
  shows "\<exists>w'. perform_all call ops w = Some w' \<and> reaches call w'"
  using assms(2,3)
proof (induction ops arbitrary: w)
  case (Cons op ops)
  have ok: "allowed op w" using Cons.prems(2) by simp
  obtain w1 where w1: "perform call op w = Some w1"
    using perform_sound [OF call reaches_sound [OF call Cons.prems(1)] ok] by blast
  then have "reaches call w1" "followed call ops w1"
    using reaches.performed [OF Cons.prems(1) ok] Cons.prems(2) by auto
  then show ?case using Cons.IH w1 by simp
qed simp

text \<open>A round in which \<open>poll\<close> answers before a deadline is due, under the conditions of \<open>run_round_delivers\<close>.\<close>

lemma round_followed:
  assumes inv: "svc_inv w m" and nd: "next_deadline w = Some (deadline, is_event)"
    and p: "polls w 0 (dynarr_list (pollfds w)) (poll_delay deadline (clock w 0)) = (ready, eintr, rs)"
    and r: "0 < ready" "length rs = card (dom m)"
    and lt: "deadline = -1 \<or> to_int (clock w 1 - clock w 0) < poll_delay deadline (clock w 0)"
    and ask: "\<forall>k n. look w m k = Some n \<longrightarrow> asked_only (rs ! pollfd_idx n) n"
    and rem: "card (dom m) \<le> 2 \<or> (\<forall>k n. look w m k = Some n \<longrightarrow> \<not> finished (rs ! pollfd_idx n) n)"
  shows "round_ops w = Some [Tick, Poll (poll_delay deadline (clock w 0)), Tick, Dispatch (clock w 1)]
    \<and> followed call [Tick, Poll (poll_delay deadline (clock w 0)), Tick, Dispatch (clock w 1)] w"
proof -
  let ?delay = "poll_delay deadline (clock w 0)"
  have P: "dynarr_inv (pollfds w)" "length (dynarr_list (pollfds w)) = card (dom m)"
    using inv by (auto simp: svc_inv_def poll_ok_def Let_def simp del: length_dynarr_list)
  obtain d where d: "set_revents rs 0 (pollfds w) = Some d" "svc_inv (w\<lparr>pollfds := d\<rparr>) m"
      "\<forall>k n. look w m k = Some n \<longrightarrow> revents_of (w\<lparr>pollfds := d\<rparr>) n = rs ! pollfd_idx n"
    by (rule answered [OF inv r(2)])
  define u where "u = (snd (current_time w))\<lparr>pollfds := d, polls := \<lambda>n. polls w (Suc n)\<rparr>"
  define v where "v = snd (current_time u)"
  have tk: "take (dynarr_size (pollfds w)) rs = rs" using r(2) P dynarr_size_list [OF P(1)] by simp
  have sp: "svc_poll ?delay (snd (current_time w)) = Some (ready, eintr, u)"
    using p d(1) tk by (simp add: svc_poll_def current_time_def with_pollfds_def u_def)
  have "\<not> (?delay \<le> to_int (clock w 1 - clock w 0) \<and> ?delay \<noteq> -1)" using lt by (auto simp: poll_delay_def)
  then have ops: "round_ops w = Some [Tick, Poll ?delay, Tick, Dispatch (clock w 1)]"
    using nd sp r(1) by (auto simp: round_ops_def polled_def after_poll_def)
  have v: "svc_inv v m" "look v m = look w m"
    using d(2) svc_inv_truncate [of v "w\<lparr>pollfds := d\<rparr>" m]
    by (simp_all add: v_def u_def current_time_def io_service.truncate_def look_def fun_eq_iff)
  have rv: "revents_of v n = rs ! pollfd_idx n" if "look w m k = Some n" for k n
    using d(3) that by (simp add: revents_of_def v_def u_def current_time_def)
  have "asked_at v m k" for k using rv ask by (auto simp: asked_at_def v(2) split: option.splits)
  moreover have "removable v m (dom m)"
    using rem rv by (auto simp: removable_def finished_at_def v(2) split: option.splits)
  ultimately have "allowed (Dispatch (clock w 1)) v" using v(1) by auto
  then have "followed call [Tick, Poll ?delay, Tick, Dispatch (clock w 1)] w"
    using sp by (simp add: v_def)
  with ops show ?thesis ..
qed

section \<open>Runs\<close>

definition nothing_left :: "'x world_scheme \<Rightarrow> bool" where
  "nothing_left w \<longleftrightarrow> dynarr_empty (pollfds w) \<and> dynarr_empty (timed_handlers_heap w) \<and> cbuf_empty (sync_handlers w)"

text \<open>The loop comes to an end from \<open>w\<close>, and every step of every round is allowed.\<close>

inductive runs_through :: "'x call \<Rightarrow> 'x world_scheme \<Rightarrow> bool" for call where
  idle: "nothing_left w \<Longrightarrow> runs_through call w"
| stopped: "\<not> nothing_left w \<Longrightarrow> run_sync_handlers call w = Some w1 \<Longrightarrow> svc_status w1 = STOPPING \<Longrightarrow> runs_through call w"
| drained: "\<not> nothing_left w \<Longrightarrow> run_sync_handlers call w = Some w1 \<Longrightarrow> svc_status w1 \<noteq> STOPPING \<Longrightarrow>
    dynarr_empty (pollfds w1) \<and> dynarr_empty (timed_handlers_heap w1) \<Longrightarrow> runs_through call w1 \<Longrightarrow> runs_through call w"
| round: "\<not> nothing_left w \<Longrightarrow> run_sync_handlers call w = Some w1 \<Longrightarrow> svc_status w1 \<noteq> STOPPING \<Longrightarrow>
    \<not> (dynarr_empty (pollfds w1) \<and> dynarr_empty (timed_handlers_heap w1)) \<Longrightarrow> round_ops w1 = Some ops \<Longrightarrow> followed call ops w1 \<Longrightarrow>
    run_round call w1 = Some w2 \<Longrightarrow> runs_through call w2 \<Longrightarrow> runs_through call w"

lemma reaches_step:
  assumes "reaches call w" "allowed op w" "perform call op w = Some w'"
  shows "reaches call w'"
  using assms by (rule reaches.performed)

lemma run_loop_reaches:
  assumes call: "\<And>s. detached_in s call" and "runs_through call w" "reaches call w"
  shows "\<exists>w'. run_loop call w = Some w' \<and> reaches call w'"
  using assms(2,3)
proof (induction rule: runs_through.induct)
  case (idle w)
  then show ?case by (subst run_loop.simps) (simp add: nothing_left_def)
next
  case (stopped w w1)
  have w1: "reaches call w1" by (rule reaches_step [OF stopped.prems, of Sync]) (simp_all add: stopped.hyps)
  obtain w2 where "iosvc_prep_stop call w1 = Some w2"
    using halt_sound [OF call reaches_sound [OF call w1]] by blast
  moreover from this have "reaches call w2" by (intro reaches_step [OF w1, of Halt]) (simp_all add: stopped.hyps)
  ultimately show ?case
    using stopped.hyps by (subst run_loop.simps) (auto simp: nothing_left_def)
next
  case (drained w w1)
  have "reaches call w1" by (rule reaches_step [OF drained.prems, of Sync]) (simp_all add: drained.hyps)
  from drained.IH [OF this] show ?case
    using drained.hyps by (subst run_loop.simps) (auto simp: nothing_left_def)
next
  case (round w w1 ops w2)
  have w1: "reaches call w1" by (rule reaches_step [OF round.prems, of Sync]) (simp_all add: round.hyps)
  have "reaches call w2"
    using perform_all_reaches [OF call w1 round.hyps(6)] round.hyps(7) run_round_steps [OF round.hyps(5), of call] by simp
  from round.IH [OF this] show ?case
    using round.hyps by (subst run_loop.simps) (auto simp: nothing_left_def)
qed

lemma iosvc_run_reaches:
  assumes call: "\<And>s. detached_in s call" and w: "reaches call w" and ok: "svc_status w = READY \<longrightarrow> runs_through call (w\<lparr>svc_status := RUNNING\<rparr>)"
  shows "\<exists>e w'. iosvc_run call w = Some (e, w') \<and> reaches call w'"
proof (cases "svc_status w = READY")
  case True
  have "reaches call (w\<lparr>svc_status := RUNNING\<rparr>)" by (rule reaches_step [OF w, of Start]) (simp_all add: True)
  then obtain w1 where w1: "run_loop call (w\<lparr>svc_status := RUNNING\<rparr>) = Some w1" "reaches call w1"
    using run_loop_reaches [OF call] ok True by blast
  have "reaches call (w1\<lparr>svc_status := DONE\<rparr>)" by (rule reaches_step [OF w1(2), of Finish]) simp_all
  then show ?thesis using True w1(1) by (simp add: iosvc_run_def)
next
  case False
  then show ?thesis using w by (simp add: iosvc_run_def)
qed

text \<open>
  C5. However a program uses a service, and whatever the loop does in between, the service invariant holds, and the next
  operation or step of the loop returns and leads to such a state again: none of them meets undefined behaviour or runs
  forever. The same holds for a round of the loop and for a whole \<open>iosvc_run\<close> that comes to an end, where the steps they are
  made of are allowed: \<open>poll\<close> writes arbitrary reports into the poll vector. A registration is allowed where memory is available
  and the new node is not linked below a red node on the inner side; a cancellation and an expiry where \<open>extract_safe\<close> holds
  of the node; a pass over the poll vector where \<open>poll\<close> has reported only requested events or invalid descriptors and
  \<open>removable\<close> holds (at most two descriptors, or at most one that is finished with and \<open>extract_safe\<close>); starting
  where the service is ready; calling the handlers that are left where it is stopping. The callbacks' own calls are operations of
  the history, made between the steps.
\<close>

theorem service_safe:
  assumes "\<forall>s. detached_in s call" and "reaches call w"
  shows "(\<exists>m. svc_inv w m) \<and> (\<forall>op. allowed op w \<longrightarrow> (\<exists>w'. perform call op w = Some w' \<and> reaches call w'))
    \<and> (\<forall>ops. round_ops w = Some ops \<longrightarrow> followed call ops w \<longrightarrow> (\<exists>w'. run_round call w = Some w' \<and> reaches call w'))
    \<and> ((svc_status w = READY \<longrightarrow> runs_through call (w\<lparr>svc_status := RUNNING\<rparr>)) \<longrightarrow>
        (\<exists>e w'. iosvc_run call w = Some (e, w') \<and> reaches call w'))"
proof -
  have call: "\<And>s. detached_in s call" using assms(1) by blast
  have w: "sound w" by (rule reaches_sound [OF call assms(2)])
  have "\<exists>w'. perform call op w = Some w' \<and> reaches call w'" if "allowed op w" for op
    using perform_sound [OF call w that] reaches.performed [OF assms(2) that] by blast
  moreover have "\<exists>w'. run_round call w = Some w' \<and> reaches call w'" if "round_ops w = Some ops" "followed call ops w" for ops
    using perform_all_reaches [OF call assms(2) that(2)] run_round_steps [OF that(1)] by simp
  ultimately show ?thesis using w iosvc_run_reaches [OF call assms(2)] unfolding sound_def by blast
qed

text \<open>A service on which reading from descriptor 5 has been registered, and \<open>poll\<close> answers that there is something to read.\<close>

abbreviation idle_call :: "unit call" where
  "idle_call \<equiv> \<lambda>_. Some"

definition readable :: "world \<Rightarrow> world" where
  "readable w = w\<lparr>mallocs := \<lambda>_. Some 16, polls := \<lambda>_ _ _. (1, False, [POLLIN])\<rparr>"

definition read_service :: world where
  "read_service = snd (the (iosvc_sched (demo_event 5 WAIT_READ) (demo_handler 1) 40 (readable fresh_world)))"

lemma readable_fresh: "svc_inv (readable fresh_world) Map.empty" "room (readable fresh_world) 5" "reaches idle_call (readable fresh_world)"
proof -
  have t: "io_service.truncate (readable fresh_world) = io_service.truncate fresh_world" by (simp add: readable_def io_service.truncate_def)
  show "svc_inv (readable fresh_world) Map.empty" using fresh_svc_inv svc_inv_truncate [OF t] by simp
  show "reaches idle_call (readable fresh_world)"
    by (rule reaches.created) (simp add: iosvc_create_def fresh_world_def readable_def io_service.truncate_def)
  show "room (readable fresh_world) 5"
    using fresh_probe [of 5] by (simp add: room_def readable_def fresh_world_def aligned_def zigzag_at_def)
qed

lemma read_service:
  "iosvc_sched (demo_event 5 WAIT_READ) (demo_handler 1) 40 (readable fresh_world) = Some (EIO_OK, read_service)"
  "reaches idle_call read_service" "svc_inv read_service [5 \<mapsto> 16]" "svc_status read_service = READY"
  "polls read_service = (\<lambda>_ _ _. (1, False, [POLLIN]))"
  "look read_service [5 \<mapsto> 16] k = Some n \<Longrightarrow> {u. armed n u} = {WAIT_READ} \<and> pollfd_idx n = 0"
proof -
  let ?w = "readable fresh_world" and ?ev = "demo_event 5 WAIT_READ"
  have "svc_status ?w \<in> {READY, RUNNING}" "rb_probe (async_handlers ?w) Root_ref (ev_fd ?ev) = Some (Root_ref, NULL)"
      "Map.empty (ev_fd ?ev) = None" "\<not> zigzag_at (async_handlers ?w) Root_ref" "\<forall>i. mallocs ?w i \<noteq> None" "node_malloc ?w = Some 16"
      "(16 :: addr) \<noteq> NULL" "aligned (16 :: addr)" "16 \<notin> ran Map.empty"
    using fresh_probe [of 5] by (simp_all add: readable_def fresh_world_def zigzag_at_def node_malloc_def aligned_def)
  from iosvc_enqueue_new [OF readable_fresh(1) this(1) demo_cb [of 1] this(2-9), where st = 40]
  obtain w n where w: "iosvc_enqueue ?ev (demo_handler 1) 40 ?w = Some (EIO_OK, Some 16, w)" "svc_inv w (Map.empty(ev_fd ?ev \<mapsto> 16))"
      "registered ?w w Map.empty 16 n" "{u. armed n u} = {ev_wait_type ?ev}"
    by metis
  then show s: "iosvc_sched ?ev (demo_handler 1) 40 ?w = Some (EIO_OK, read_service)"
    by (simp add: iosvc_sched_def read_service_def)
  then have d: "read_service = w"
    using w(1) by (simp add: iosvc_sched_def)
  show inv: "svc_inv read_service [5 \<mapsto> 16]" using w(2) d by simp
  show "svc_status read_service = READY" "polls read_service = (\<lambda>_ _ _. (1, False, [POLLIN]))"
    using w(3) by (auto simp: registered_def d readable_def fresh_world_def)
  show "reaches idle_call read_service"
    by (rule reaches_step [OF readable_fresh(3), of "Sched ?ev (demo_handler 1) 40"]) (use readable_fresh(2) s in simp_all)
  show "{u. armed j u} = {WAIT_READ} \<and> pollfd_idx j = 0" if j: "look read_service [5 \<mapsto> 16] k = Some j" for k j
  proof -
    have k: "k = 5" using j by (auto simp: look_def bind_eq_Some split: if_splits)
    then have "j = n" using j w(3) by (simp add: look_def registered_def d)
    moreover obtain i where "look read_service [5 \<mapsto> 16] 5 = Some i" "pollfd_idx i < card (dom [5 \<mapsto> (16 :: addr)])"
      by (rule look_Some [OF inv, of 5 16]) simp_all
    then have "pollfd_idx j < 1" using j k by simp
    ultimately show ?thesis using w(4) by simp
  qed
qed

text \<open>The service as the loop finds it.\<close>

definition read_running :: world where
  "read_running = read_service\<lparr>svc_status := RUNNING\<rparr>"

lemma read_round:
  "next_deadline read_running = Some (-1, None)" "\<not> nothing_left read_running" "cbuf_empty (sync_handlers read_running)"
  "\<not> dynarr_empty (pollfds read_running)"
  "case run_round idle_call read_running of None \<Rightarrow> False | Some w \<Rightarrow> calls w = [demo_handler 1] \<and> nothing_left w"
  unfolding read_running_def read_service_def readable_def by code_simp+

lemma read_runs: "runs_through idle_call read_running"
proof -
  have inv: "svc_inv read_running [5 \<mapsto> 16]" using read_service(3) by (simp add: read_running_def)
  have "look read_running [5 \<mapsto> 16] = look read_service [5 \<mapsto> 16]" by (simp add: read_running_def look_def fun_eq_iff)
  then have ask: "\<forall>k n. look read_running [5 \<mapsto> 16] k = Some n \<longrightarrow> asked_only ([POLLIN] ! pollfd_idx n) n"
    using read_service(6) by (auto simp: asked_only_def reported_POLLIN)
  obtain ops where ops: "round_ops read_running = Some ops" "followed idle_call ops read_running"
    using round_followed [OF inv read_round(1) _ _ _ _ ask, where ready = 1 and eintr = False and call = idle_call] read_service(5)
    by (auto simp: read_running_def)
  obtain w where w: "run_round idle_call read_running = Some w" "nothing_left w"
    using read_round(5) by (auto split: option.splits)
  have "run_sync_handlers idle_call read_running = Some read_running"
    using read_round(3) by (subst run_sync_handlers.simps) simp
  moreover have "svc_status read_running \<noteq> STOPPING" by (simp add: read_running_def)
  ultimately show ?thesis
    using runs_through.round [OF read_round(2) _ _ _ ops w(1) runs_through.idle [OF w(2)]] read_round(4) by blast
qed

theorem service_safe_witness:
  "\<exists>e w'. iosvc_run idle_call read_service = Some (e, w') \<and> reaches idle_call w' \<and> (\<exists>m. svc_inv w' m) \<and> calls w' = [demo_handler 1]"
proof -
  have det: "\<forall>s. detached_in s idle_call" by (simp add: detached_in_def)
  obtain e w' where w': "iosvc_run idle_call read_service = Some (e, w')" "reaches idle_call w'"
    using service_safe [OF det read_service(2)] read_runs by (auto simp: read_running_def)
  moreover have "\<exists>m. svc_inv w' m"
    using service_safe [OF det w'(2)] by blast
  moreover have "case iosvc_run idle_call read_service of None \<Rightarrow> False | Some (e, w) \<Rightarrow> calls w = [demo_handler 1]"
    unfolding read_service_def readable_def by code_simp
  ultimately show ?thesis by simp
qed

end
