(* ===== verification/Loop_Fail.thy ===== *)
theory Loop_Fail
  imports Loop_Run
begin

text \<open>
  A run in which \<open>poll\<close> fails: the loop stops the service itself.
\<close>

section \<open>A failing round\<close>

text \<open>\<open>poll\<close> fails for another reason than a signal and writes nothing.\<close>

definition poll_fails :: "(pollfd list \<Rightarrow> int \<Rightarrow> int \<times> bool \<times> pollmask list) \<Rightarrow> bool" where
  "poll_fails p \<longleftrightarrow> (\<forall>P d. p P d = (-1, False, []))"

lemma run_round_fails:
  assumes inv: "svc_inv w m" and pos: "\<forall>x \<in> deadlines w. 0 \<le> x" and p: "poll_fails (polls w 0)"
  shows "run_round call w = Some (w\<lparr>polls := \<lambda>n. polls w (Suc n), clock := \<lambda>n. clock w (Suc (Suc n)), svc_status := STOPPING\<rparr>)"
proof -
  have "delay_ok w" "events_ok w" using inv by (simp_all add: svc_inv_def timers_ok_def)
  then obtain dl ev where "next_deadline w = Some (dl, ev)" using next_deadline_min [OF _ _ pos] by blast
  then show ?thesis
    using p by (simp add: run_round_def svc_poll_def current_time_def with_pollfds_def poll_fails_def)
qed

text \<open>A stopping service with something left to wait for and an empty queue leaves the loop by \<open>iosvc_prep_stop\<close>.\<close>

lemma run_loop_stopping:
  assumes "cbuf_empty (sync_handlers w)" "svc_status w = STOPPING" "\<not> (dynarr_empty (pollfds w) \<and> dynarr_empty (timed_handlers_heap w))"
  shows "run_loop call w = iosvc_prep_stop call w"
proof -
  have "run_sync_handlers call w = Some w" using assms(1) by (subst run_sync_handlers.simps) simp
  then show ?thesis using assms(2,3) by (subst run_loop.simps) auto
qed

section \<open>Properties\<close>

text \<open>
  C13. When \<open>poll\<close> fails, the loop stops the service: \<open>iosvc_run\<close> returns \<open>EIO_STOPPED\<close> after it has called the handlers of
  the queue, of every delayed entry and of every pending event exactly once, the latter two told \<open>EIO_STOPPED\<close>, and nothing is
  left in the service.
\<close>

theorem iosvc_run_poll_fails:
  assumes "svc_inv w m" and "svc_status w = READY" and "detached_in RUNNING call" "detached_in STOPPING call"
    and "\<forall>h \<in> set (cbuf_list (sync_handlers w)). callback h \<noteq> NULL" and "\<forall>x \<in> set (delayed w). callback (dh_handler x) \<noteq> NULL"
    and "\<forall>x \<in> deadlines w. 0 \<le> x" and "poll_fails (polls w 0)" and "dom m \<noteq> {} \<or> delayed w \<noteq> []"
  shows "\<exists>w' as es. iosvc_run call w = Some (EIO_STOPPED, w') \<and> distinct as \<and> set as = ran m \<and> es = concat (map (pending w) as)
    \<and> calls w' = calls w @ cbuf_list (sync_handlers w) @ map dh_handler (delayed w) @ map handler es
    \<and> (\<forall>x \<in> dh_status ` set (delayed w) \<union> status ` set es - {NULL}. errcs w' x = EIO_STOPPED)
    \<and> svc_inv w' Map.empty \<and> svc_status w' = DONE \<and> cbuf_list (sync_handlers w') = [] \<and> delayed w' = []"
proof -
  let ?w = "w\<lparr>svc_status := RUNNING\<rparr>"
  have cb: "cbuf_inv (sync_handlers ?w)" using assms(1) by (simp add: svc_inv_def)
  from run_sync_detached [OF assms(3) _ cb refl] assms(5) obtain v c where v: "run_sync_handlers call ?w = Some v" "cbuf_inv c"
      "cbuf_list c = []" "calls v = calls w @ cbuf_list (sync_handlers w)"
      "io_service.truncate v = io_service.truncate (?w\<lparr>sync_handlers := c\<rparr>)" "polls v = polls w"
    by auto
  note f = truncate_fields [OF v(5), simplified]
  have "svc_inv ?w m" "delay_ok ?w" using assms(1) by (simp, simp add: svc_inv_def delay_ok_def)
  then have inv: "svc_inv v m"
    using svc_inv_truncate [OF v(5)] svc_inv_handlers [OF _ v(2), of ?w m "timed_handlers_heap w"] by simp
  have dl: "deadlines v = deadlines w" by (simp add: deadlines_def events_list_def f)
  define u where "u = v\<lparr>polls := \<lambda>n. polls v (Suc n), clock := \<lambda>n. clock v (Suc (Suc n)), svc_status := STOPPING\<rparr>"
  have r: "run_round call v = Some u" unfolding u_def by (rule run_round_fails [OF inv]) (use assms(7,8) v(6) dl in simp_all)
  have "svc_inv u m = svc_inv (v\<lparr>svc_status := STOPPING\<rparr>) m" by (rule svc_inv_truncate) (simp add: u_def io_service.truncate_def)
  then have u: "svc_inv u m" "\<forall>x \<in> set (delayed u). callback (dh_handler x) \<noteq> NULL" "detached_in (svc_status u) call"
    using inv assms(4,6) by (simp_all add: u_def f)
  obtain w2 as where w2: "iosvc_prep_stop call u = Some w2" "distinct as" "set as = ran m"
      "calls w2 = calls u @ map dh_handler (delayed u) @ map handler (concat (map (pending u) as))"
      "errcs w2 = (\<lambda>x. if x \<noteq> NULL \<and> x \<in> dh_status ` set (delayed u) \<union> status ` set (concat (map (pending u) as)) then EIO_STOPPED else errcs u x)"
      "sync_handlers w2 = sync_handlers u" "svc_status w2 = svc_status u" "delayed w2 = []" "svc_inv w2 Map.empty"
    by (rule prep_stop_exec [OF u]) (rule that)
  have e: "\<not> (dynarr_empty (pollfds w) \<and> dynarr_empty (timed_handlers_heap w))" "cbuf_empty c"
  proof -
    have "dynarr_inv (pollfds w)" "dynarr_inv (timed_handlers_heap w)" "length (dynarr_list (pollfds w)) = card (dom m)" "finite (dom m)"
      using assms(1) tree_holds_finite by (auto simp: svc_inv_def delay_ok_def poll_ok_def Let_def simp del: length_dynarr_list)
    then show "\<not> (dynarr_empty (pollfds w) \<and> dynarr_empty (timed_handlers_heap w))"
      using assms(9) by (metis dynarr_empty_list card_0_eq length_0_conv)
    show "cbuf_empty c" using v(2,3) by (simp add: cbuf_empty_list)
  qed
  have "run_loop call u = iosvc_prep_stop call u"
    by (rule run_loop_stopping) (use e in \<open>simp_all add: u_def f\<close>)
  then have "run_loop call ?w = Some w2"
    using v(1) r e f w2(1) by (subst run_loop.simps) auto
  then have "iosvc_run call w = Some (EIO_STOPPED, w2\<lparr>svc_status := DONE\<rparr>)"
    using assms(2) w2(7) by (simp add: iosvc_run_def u_def)
  moreover have p: "pending u = pending w" "delayed u = delayed w" "calls u = calls v" "sync_handlers u = c" by (simp_all add: u_def f fun_eq_iff)
  have "\<forall>x \<in> dh_status ` set (delayed w) \<union> status ` set (concat (map (pending w) as)) - {NULL}. errcs w2 x = EIO_STOPPED"
    unfolding w2(5) p by auto
  ultimately show ?thesis
    using w2 v(3,4) unfolding p
    by (intro exI [of _ "w2\<lparr>svc_status := DONE\<rparr>"] exI [of _ as] exI [of _ "concat (map (pending w) as)"]) simp
qed

theorem iosvc_run_poll_fails_witness:
  "\<exists>w'. iosvc_run (\<lambda>_. Some) (demo_service\<lparr>polls := \<lambda>_ _ _. (-1, False, [])\<rparr>) = Some (EIO_STOPPED, w')
    \<and> calls w' = [demo_handler 1] \<and> errcs w' 40 = EIO_STOPPED \<and> svc_status w' = DONE"
proof -
  let ?w = "demo_service\<lparr>polls := \<lambda>_ _ _. (-1, False, [])\<rparr>"
  have inv: "svc_inv ?w [5 \<mapsto> 16]" using demo_service(1) svc_inv_truncate [of ?w demo_service] by (simp add: io_service.truncate_def)
  have e: "cbuf_list (sync_handlers demo_service) = []" "events_list demo_service = []" "delayed demo_service = []"
    unfolding demo_service_def by code_simp+
  have d: "detached_in s (\<lambda>_. Some :: world \<Rightarrow> world option)" for s by (simp add: detached_in_def)
  have h: "svc_status ?w = READY" "\<forall>h \<in> set (cbuf_list (sync_handlers ?w)). callback h \<noteq> NULL"
      "\<forall>x \<in> set (delayed ?w). callback (dh_handler x) \<noteq> NULL" "\<forall>x \<in> deadlines ?w. 0 \<le> x" "poll_fails (polls ?w 0)"
      "dom [5 \<mapsto> 16 :: addr] \<noteq> {} \<or> delayed ?w \<noteq> []"
    using demo_service(5) e by (simp_all add: deadlines_def events_list_def poll_fails_def)
  from iosvc_run_poll_fails [OF inv h(1) d d h(2-6)] show ?thesis
    using demo_stop_facts demo_service(2,8) e by fastforce
qed

end
