(* ===== verification/Poll_Faults.thy ===== *)
theory Poll_Faults
  imports Pass_Props
begin

text \<open>
  What an unrequested report of \<open>poll\<close> does: \<open>POLLHUP\<close> is reported whether it was asked for or not, and the loop takes it for
  the readiness of a read.
\<close>

section \<open>A hang-up where no read is pending\<close>

lemma dequeue_unarmed:
  assumes "rb_store (async_handlers w) a = Some n" "\<not> armed n t" "iosvc_dequeue a t now st w = Some (hnd, w')"
  shows "callback hnd = NULL"
proof -
  obtain sl d where "rb_load (async_handlers w) a = Some n" "get_evt_slot n t = Some sl" "slot_event n sl = Some d" "hnd = handler d"
    using assms(1,3) by (auto simp: iosvc_dequeue_def rb_load_def bind_eq_Some Let_def split: if_splits)
  then show ?thesis
    using assms(2) by (simp add: armed_def get_evt_data_def event_armed_def)
qed

lemma dispatch_one_unarmed:
  assumes "deref (async_handlers w) place = Some a" "rb_store (async_handlers w) a = Some n" "\<not> armed n t"
  shows "dispatch_one call place t now st w = None"
proof (cases "iosvc_dequeue a t now st w")
  case (Some r)
  then show ?thesis
    using assms(1) dequeue_unarmed [OF assms(2,3)] by (cases r) (simp add: dispatch_one_def invoke_def)
qed (simp add: dispatch_one_def assms(1))

text \<open>
  C36. A descriptor on which no read is pending, and for which \<open>poll\<close> reports a hang-up (\<open>POLLHUP\<close>, which it reports whether
  asked for or not) and no exception: dispatching it runs into undefined behaviour, whatever the callbacks do, because the code takes
  the hang-up for the readiness of a read and takes out a read event that is not there: it dereferences a null event or
  calls a null function pointer. If it is the first entry of the poll vector (and not reported invalid), so does the pass over the vector. The condition \<open>asked_only\<close> of the other properties of the loop is needed.
\<close>

theorem dispatch_hangup_faults:
  assumes "svc_inv w m" and "m k = Some a" "node_data (async_handlers w) a = Some n" "\<not> armed n WAIT_READ"
    and "rb_probe (async_handlers w) Root_ref k = Some (place, parent)"
    and "revents_of w n AND POLLHUP \<noteq> 0" "revents_of w n AND POLLPRI = 0"
  shows "dispatch_valid call (pollfd_idx n) place parent now w = None
    \<and> (pollfd_idx n = 0 \<and> revents_of w n AND POLLNVAL = 0 \<longrightarrow> dispatch_ready_events call now w = None)"
proof -
  have T: "tree_holds (async_handlers w) m" and pk: "poll_ok w m" and P: "dynarr_inv (pollfds w)"
    using assms(1) by (auto simp: svc_inv_def poll_ok_def Let_def)
  obtain r where r: "rb_store (async_handlers w) a = Some r"
    using tree_holds_load [OF T assms(2)] .
  have nr: "\<not> armed r WAIT_READ" using assms(3,4) r armed_payload(1) [of r] by (auto simp: node_data_def)
  have i: "pollfd_idx n < length (dynarr_list (pollfds w))" "pfd_fd (dynarr_list (pollfds w) ! pollfd_idx n) = k"
    using poll_okE [OF pk assms(2)] assms(3) by (metis option.inject)+
  have g: "dynarr_get (pollfds w) (pollfd_idx n) = Some (dynarr_list (pollfds w) ! pollfd_idx n)"
    by (rule dynarr_get_list [OF P i(1)])
  have rr: "read_ready (revents_of w n) ev" for ev
  proof -
    have "revents_of w n AND (POLLIN OR POLLHUP OR POLLRDBAND OR POLLRDNORM) \<noteq> 0"
      using assms(6) by (auto simp: bit.conj_disj_distrib or_eq_0_iff)
    then show ?thesis by (simp add: read_ready_def Let_def)
  qed
  have "dispatch_one call place WAIT_READ now EIO_OK w = None"
    by (rule dispatch_one_unarmed [OF probe_old [OF T assms(5,2)] r nr])
  then have dv: "dispatch_valid call (pollfd_idx n) place parent now w = None"
    using g rr assms(7) by (simp add: dispatch_valid_def revents_of_def Let_def)
  moreover have "dispatch_ready_events call now w = None" if z: "pollfd_idx n = 0" "revents_of w n AND POLLNVAL = 0"
    using dv g i assms(5) z dynarr_size_list [OF P] unfolding dispatch_ready_events_def
    by (subst dispatch_from.simps) (simp add: revents_of_def)
  ultimately show ?thesis by blast
qed

text \<open>A service on which writing to descriptor 5 has been registered, when \<open>poll\<close> has reported a hang-up.\<close>

definition hup_service :: world where
  "hup_service = snd (the (iosvc_sched (demo_event 5 WAIT_WRITE) (demo_handler 1) NULL fresh_world))"

definition hup_reported :: world where
  "hup_reported = hup_service\<lparr>pollfds := the (set_revents [POLLHUP] 0 (pollfds hup_service))\<rparr>"

theorem dispatch_hangup_faults_witness: "dispatch_ready_events (\<lambda>_. Some) 7 hup_reported = None"
proof -
  let ?m = "[5 \<mapsto> 16] :: int \<rightharpoonup> addr"
  have "svc_status fresh_world \<in> {READY, RUNNING}" "\<not> zigzag_at (async_handlers fresh_world) Root_ref"
      "Map.empty (ev_fd (demo_event 5 WAIT_WRITE)) = None" "(16 :: addr) \<noteq> NULL" "16 \<notin> ran Map.empty"
    by (simp_all add: fresh_world_def zigzag_at_def)
  from iosvc_enqueue_new [OF fresh_svc_inv this(1) demo_cb [of 1] fresh_probe this(3,2) fresh_malloc(1,2) this(4) fresh_malloc(3) this(5),
      where event = "demo_event 5 WAIT_WRITE" and st = NULL]
  obtain w n where w: "iosvc_enqueue (demo_event 5 WAIT_WRITE) (demo_handler 1) NULL fresh_world = Some (EIO_OK, Some 16, w)"
      "svc_inv w ?m" "registered fresh_world w Map.empty 16 n" "{u. armed n u} = {WAIT_WRITE}"
    unfolding demo_event_sel by metis
  have hs: "hup_service = w" using w(1) by (simp add: hup_service_def iosvc_sched_def)
  have n: "node_data (async_handlers w) 16 = Some n" using w(3) by (simp add: registered_def)
  have "length [POLLHUP] = card (dom ?m)" by simp
  from answered [OF w(2) this] obtain d where d: "set_revents [POLLHUP] 0 (pollfds w) = Some d" "svc_inv (w\<lparr>pollfds := d\<rparr>) ?m"
      "\<forall>k j. look w ?m k = Some j \<longrightarrow> revents_of (w\<lparr>pollfds := d\<rparr>) j = [POLLHUP] ! pollfd_idx j" .
  have hr: "hup_reported = w\<lparr>pollfds := d\<rparr>" unfolding hup_reported_def hs d(1) by simp
  have lk: "look w ?m 5 = Some n" using n by (simp add: look_def)
  obtain i where "look w ?m 5 = Some i" "pollfd_idx i < card (dom ?m)" by (rule look_Some [OF w(2), of 5 16]) simp_all
  then have i: "pollfd_idx n = 0" using lk by simp
  have rv: "revents_of hup_reported n = POLLHUP" using d(3) lk i by (simp add: hr)
  have u: "\<not> armed n WAIT_READ" "node_data (async_handlers hup_reported) 16 = Some n" "svc_inv hup_reported ?m" "?m 5 = Some 16"
      "revents_of hup_reported n AND POLLHUP \<noteq> 0" "revents_of hup_reported n AND POLLPRI = 0" "revents_of hup_reported n AND POLLNVAL = 0"
    using w(4) n d(2) by (auto simp: hr rv [unfolded hr] poll_bits)
  have T: "tree_holds (async_handlers hup_reported) ?m" using u(3) by (simp add: svc_inv_def)
  obtain place parent where "rb_probe (async_handlers hup_reported) Root_ref 5 = Some (place, parent)" using probe_runs [OF T] .
  from dispatch_hangup_faults [OF u(3,4,2,1) this u(5,6), of "\<lambda>_. Some" 7] show ?thesis using i u(7) by blast
qed

end
