(* ===== verification/Tree_Faults.thy ===== *)
theory Tree_Faults
  imports Svc_Props
begin

text \<open>
  The situations in which the code breaks the descriptor tree. Two are in \<open>iosvc_sched\<close>, both by the last
  write of \<open>reserve_evt_mem\<close> through the place that was probed: after an insertion that moved the new
  node, the write makes two nodes each other's child; after the new node was freed, it leaves the
  freed address in the tree. The third is in \<open>rb_extract\<close>, which after exchanging a node with its own
  left child takes that child's parent to be null.
\<close>

section \<open>Walking down the tree\<close>

text \<open>One iteration of the loop of \<open>rb_probe\<close>: the next place, \<open>None\<close> when the loop ends or faults.\<close>

definition probe_step :: "rb_heap \<Rightarrow> int \<Rightarrow> rb_place \<Rightarrow> rb_place option" where
  "probe_step h key pl =
     do { q \<leftarrow> deref h pl;
          n \<leftarrow> rb_load h q;
          if fd n = key then None else Some (Child_ref q (key > fd n)) }"

primrec probe_iter :: "rb_heap \<Rightarrow> int \<Rightarrow> nat \<Rightarrow> rb_place \<Rightarrow> rb_place option" where
  "probe_iter h key 0 pl = Some pl"
| "probe_iter h key (Suc n) pl = Option.bind (probe_step h key pl) (probe_iter h key n)"

text \<open>A search that returns has made finitely many iterations.\<close>

lemma probe_loop_ends: "probe_loop h pl par key = Some y \<Longrightarrow> \<exists>n. probe_iter h key n pl = None"
proof (induction rule: probe_loop.raw_induct [rotated 1, consumes 1])
  case (1 loop h pl par key y)
  obtain q where q: "deref h pl = Some q"
    using 1(2) by (auto simp: bind_eq_Some)
  show ?case
  proof (cases "probe_step h key pl")
    case None
    then have "probe_iter h key (Suc 0) pl = None" by simp
    then show ?thesis by blast
  next
    case (Some pl')
    then obtain n where n: "rb_load h q = Some n" "fd n \<noteq> key" "pl' = Child_ref q (key > fd n)"
      using q by (auto simp: probe_step_def bind_eq_Some split: if_splits)
    moreover from n(1) have "q \<noteq> NULL" by (auto simp: rb_load_def)
    ultimately have "loop h pl' q key = Some y"
      using 1(2) q by simp
    then obtain i where "probe_iter h key i pl' = None"
      using 1(1) by blast
    then have "probe_iter h key (Suc i) pl = None" using Some by simp
    then show ?thesis by blast
  qed
qed

lemma endless_probe:
  assumes "\<forall>n. probe_iter h key n Root_ref \<noteq> None"
  shows "rb_probe h Root_ref key = None"
proof (rule ccontr)
  assume "rb_probe h Root_ref key \<noteq> None"
  then obtain y where "probe_loop h Root_ref NULL key = Some y" by (auto simp: rb_probe_def)
  then show False using probe_loop_ends assms by blast
qed

text \<open>The walk from the root to a position whose context fits the key.\<close>

lemma ctx_deref:
  assumes "ctxrep (rb_store h) NULL C x" "rb_root h = croot C x"
  shows "deref h (cplace C) = Some x"
  using assms by (cases C rule: cplace.cases) (auto simp: node_at_def rb_load_def child_def)

lemma ctx_walk:
  assumes "ctxrep (rb_store h) NULL (Fr d c a k s # C) x" "rb_root h = croot (Fr d c a k s # C) x" "between key (Fr d c a k s # C)"
  obtains n where "deref h (cplace C) = Some a" "rb_load h a = Some n" "a \<noteq> NULL" "fd n \<noteq> key" "(key > fd n) = d" "between key C"
proof -
  obtain n where n: "rb_store h a = Some n" "fd n = k" "a \<noteq> NULL"
    using assms(1) by (auto simp: node_at_def)
  have "(key > k) = d" "k \<noteq> key" "between key C"
    using assms(3) by (cases "cinorder C"; auto simp: between_def split: if_splits)+
  then show ?thesis
    using that ctx_deref [of h C a] assms(1,2) n by (simp add: rb_load_def)
qed

lemma probe_to_hole:
  "ctxrep (rb_store h) NULL C x \<Longrightarrow> rb_root h = croot C x \<Longrightarrow> between key C \<Longrightarrow>
     probe_loop h Root_ref NULL key = probe_loop h (cplace C) (cpar C) key"
proof (induction C arbitrary: x)
  case (Cons f C)
  obtain d c a k s where f: "f = Fr d c a k s" by (cases f)
  obtain n where n: "deref h (cplace C) = Some a" "rb_load h a = Some n" "a \<noteq> NULL" "fd n \<noteq> key" "(key > fd n) = d" "between key C"
    using ctx_walk [OF Cons.prems [unfolded f]] .
  have "probe_loop h (cplace C) (cpar C) key = probe_loop h (Child_ref a d) a key"
    using n by (subst probe_loop.simps) simp
  then show ?case
    using Cons.IH [of a] Cons.prems n(6) f by simp
qed simp

lemma iter_to_hole:
  "ctxrep (rb_store h) NULL C x \<Longrightarrow> rb_root h = croot C x \<Longrightarrow> between key C \<Longrightarrow>
     \<forall>n. probe_iter h key n (cplace C) \<noteq> None \<Longrightarrow> probe_iter h key i Root_ref \<noteq> None"
proof (induction C arbitrary: x i)
  case (Cons f C)
  obtain d c a k s where f: "f = Fr d c a k s" by (cases f)
  obtain n where n: "deref h (cplace C) = Some a" "rb_load h a = Some n" "a \<noteq> NULL" "fd n \<noteq> key" "(key > fd n) = d" "between key C"
    using ctx_walk [OF Cons.prems(1-3) [unfolded f]] .
  have "probe_iter h key j (cplace C) \<noteq> None" for j
    using n Cons.prems(4) f by (cases j) (auto simp: probe_step_def)
  then show ?case
    using Cons.IH [of a] Cons.prems(1,2) n(6) f by simp
qed simp

text \<open>Two nodes that are each other's child, and a key between theirs.\<close>

lemma iter_in_cycle:
  assumes "rb_load h a = Some na" "rb_load h b = Some nb" "child na d = b" "child nb (\<not> d) = a"
    and "fd na \<noteq> key" "(key > fd na) = d" "fd nb \<noteq> key" "(key > fd nb) = (\<not> d)"
  shows "deref h pl = Some a \<or> deref h pl = Some b \<Longrightarrow> probe_iter h key n pl \<noteq> None"
proof (induction n arbitrary: pl)
  case (Suc n)
  have next_a: "deref h (Child_ref a d) = Some b" and next_b: "deref h (Child_ref b (\<not> d)) = Some a"
    using assms(1-4) by simp_all
  from Suc.prems have "\<exists>pl'. probe_step h key pl = Some pl' \<and> (deref h pl' = Some a \<or> deref h pl' = Some b)"
  proof
    assume "deref h pl = Some a"
    then have "probe_step h key pl = Some (Child_ref a d)" using assms by (simp add: probe_step_def)
    then show ?thesis using next_a by blast
  next
    assume "deref h pl = Some b"
    then have "probe_step h key pl = Some (Child_ref b (\<not> d))" using assms by (simp add: probe_step_def)
    then show ?thesis using next_b by blast
  qed
  then obtain pl' where "probe_step h key pl = Some pl'" "deref h pl' = Some a \<or> deref h pl' = Some b" by blast
  then show ?case using Suc.IH [of pl'] by simp
qed simp

lemma ctxrep_links:
  assumes "ctxrep s q C x" and "\<And>a n. s a = Some n \<Longrightarrow> \<exists>n'. s' a = Some n' \<and> links n' = links n"
  shows "ctxrep s' q C x"
  using assms(1)
proof (induction C arbitrary: x)
  case (Cons f C)
  obtain d c a k t where f: "f = Fr d c a k t" by (cases f)
  have "node_at s' a (cparent q C) c k (if d then ptr t else x) (if d then x else ptr t)"
    by (rule node_at_links) (use Cons.prems f assms(2) in auto)
  moreover have "rep s' a t"
    by (rule rep_links) (use Cons.prems f assms(2) in auto)
  ultimately show ?case using Cons f by simp
qed simp

section \<open>An insertion that moves the new node\<close>

lemma zigzag_ctx:
  assumes t: "trep h (plug C t)" and z: "zigzag_at h (cplace C)"
  shows "zigzag C"
proof -
  obtain d c p k s C1 where C: "C = Fr d c p k s # C1"
    using z by (cases C rule: cplace.cases) (auto simp: zigzag_at_def)
  have tp: "trep h (plug C1 (nd d c t p k s))" using t C by simp
  obtain pn where pn: "rb_load h p = Some pn" "meta pn = mk_meta (cpar C1) c"
    using trep_load [OF tp] by blast
  have al: "aligned (cpar C1)" by (rule trep_aligned_cpar [OF tp])
  obtain gn where gn: "rb_load h (cpar C1) = Some gn" "d \<noteq> (right gn = p)" "is_red h (child gn (right gn \<noteq> p)) = Some False" "c"
    using z pn al by (auto simp: C zigzag_at_def split: option.splits)
  then have "cpar C1 \<noteq> NULL" by (auto simp: rb_load_def)
  then obtain e c' b m u C2 where C1: "C1 = Fr e c' b m u # C2"
    by (cases C1 rule: cplace.cases) auto
  have tb: "trep h (plug C2 (nd e c' (nd d c t p k s) b m u))" using tp C1 by simp
  obtain bn where bn: "rb_load h b = Some bn" "(child bn True = p) = e" "child bn (\<not> e) = ptr u"
    using parent_dir [OF tb] by auto
  have "gn = bn" using gn(1) bn(1) C1 by simp
  then have e: "(right gn = p) = e" "child gn (\<not> e) = ptr u" using bn by (simp_all add: child_def)
  have tu: "trep h (plug (Fr (\<not> e) c' b m (nd d c t p k s) # C2) u)"
    using tb by (simp add: nd_flip)
  have "\<not> red u" using gn(3) e trep_is_red [OF tu] by simp
  then show ?thesis using gn(2,4) e(1) by (simp add: C C1)
qed

text \<open>The tree after such an insertion: the new node has gone up between its parent and grandparent.\<close>

lemma rb_insert_zigzag:
  assumes C: "C = Fr (\<not> e) True b m s # Fr e False g n u # D" and T: "rb_tree h (plug C Lf)" and u: "\<not> red u"
    and a: "rb_store h a = Some r" "meta r = 1" "left r = NULL" "right r = NULL"
    and fresh: "a \<noteq> NULL" "aligned a" "a \<notin> addrs (plug C Lf)"
  shows "runs (rb_insert a (Child_ref b (\<not> e)) b Root_ref h) h
    (\<lambda>T. T = plug D (nd e False (nd e True s b m Lf) a (fd r) (nd e True Lf g n u)))" (is "runs _ _ (\<lambda>T. T = ?T)")
proof -
  let ?t = "nd e True Lf a (fd r) Lf"
  have nt: "Nd True Lf a (fd r) Lf = ?t" by (simp add: nd_def)
  have att: "runs (do { h \<leftarrow> assign (Child_ref b (\<not> e)) a h; set_parent a b h }) h (\<lambda>T. T = plug C ?t)"
    using runs_attach [OF _ a fresh] T by (simp add: rb_tree_def nt C)
  have fx: "runs (do { red \<leftarrow> is_red h1 b; if red then fix_insert a b Root_ref h1 else Some h1 }) h1 (\<lambda>T. T = ?T)"
    if h1: "trep h1 (plug C ?t)" for h1
    using fix_insert_zigzag [OF h1 [unfolded C] u] trep_cpar_red [OF h1] by (simp add: C)
  have "\<not> red (plug D (nd e False (nd (\<not> e) True Lf b m s) g n u))"
    using T by (simp add: rb_tree_def rb_ok_def C)
  then have "\<not> red ?T"
    by (cases "D = []") (simp_all add: red_plug)
  then have fin: "runs (do { r \<leftarrow> deref h2 Root_ref; set_black r h2 }) h2 (\<lambda>T. T = ?T)" if "trep h2 ?T" for h2
    using runs_blacken_root [OF that] by (simp add: blacken_black)
  have "runs (do { h2 \<leftarrow> (do { red \<leftarrow> is_red h1 b; if red then fix_insert a b Root_ref h1 else Some h1 });
      r \<leftarrow> deref h2 Root_ref; set_black r h2 }) h1 (\<lambda>T. T = ?T)" if "trep h1 (plug C ?t)" for h1
    by (rule runs_bind [OF fx [OF that] fin])
  then show ?thesis
    using runs_bind [OF att, of _ "\<lambda>T. T = ?T"] by (simp add: rb_insert_def bind_assoc)
qed

text \<open>Strictly between two descriptors.\<close>

abbreviation inside :: "bool \<Rightarrow> int \<Rightarrow> int \<Rightarrow> int \<Rightarrow> bool" where
  "inside d k kb key \<equiv> (if d then k < key \<and> key < kb else kb < key \<and> key < k)"

text \<open>\<open>looped h a b d D k kb\<close>: at the position \<open>D\<close> hangs the node \<open>a\<close>, of descriptor \<open>k\<close>; its child on the
  side \<open>d\<close> is \<open>b\<close>, of descriptor \<open>kb\<close>, and the child of \<open>b\<close> on the other side is \<open>a\<close>.\<close>

definition looped :: "rb_heap \<Rightarrow> addr \<Rightarrow> addr \<Rightarrow> bool \<Rightarrow> frame list \<Rightarrow> int \<Rightarrow> int \<Rightarrow> bool" where
  "looped h a b d D k kb \<longleftrightarrow> ctxrep (rb_store h) NULL D a \<and> rb_root h = croot D a
     \<and> (\<exists>na nb. rb_load h a = Some na \<and> rb_load h b = Some nb \<and> fd na = k \<and> fd nb = kb \<and> child na d = b \<and> child nb (\<not> d) = a)"

lemma looped_links:
  assumes "looped h a b d D k kb" "same_links h h'"
  shows "looped h' a b d D k kb"
proof -
  have st: "\<exists>n'. rb_store h' p = Some n' \<and> links n' = links n" if "rb_store h p = Some n" for p n
    using assms(2) that by (auto simp: same_links_def)
  have ld: "\<exists>n'. rb_load h' p = Some n' \<and> fd n' = fd n \<and> child n' u = child n u" if "rb_load h p = Some n" for p n u
    using st [of p n] that by (auto simp: rb_load_def links_def child_def split: if_splits)
  have "rb_root h' = rb_root h" using assms(2) by (simp add: same_links_def)
  moreover have D: "ctxrep (rb_store h) NULL D a" "rb_root h = croot D a"
    using assms(1) unfolding looped_def by blast+
  moreover have "ctxrep (rb_store h') NULL D a"
    by (rule ctxrep_links [OF D(1) st])
  moreover obtain na nb where n: "rb_load h a = Some na" "rb_load h b = Some nb" "fd na = k" "fd nb = kb" "child na d = b" "child nb (\<not> d) = a"
    using assms(1) by (auto simp: looped_def)
  moreover obtain na' where "rb_load h' a = Some na'" "fd na' = k" "child na' d = b" using ld [OF n(1), of d] n by auto
  moreover obtain nb' where "rb_load h' b = Some nb'" "fd nb' = kb" "child nb' (\<not> d) = a" using ld [OF n(2), of "\<not> d"] n by auto
  ultimately show ?thesis
    by (simp add: looped_def)
qed

lemma looped_endless:
  assumes "looped h a b d D k kb" "between key D" "inside d k kb key"
  shows "probe_iter h key i Root_ref \<noteq> None"
proof -
  obtain na nb where n: "rb_load h a = Some na" "rb_load h b = Some nb" "fd na = k" "fd nb = kb" "child na d = b" "child nb (\<not> d) = a"
    and D: "ctxrep (rb_store h) NULL D a" "rb_root h = croot D a"
    using assms(1) by (auto simp: looped_def)
  have "fd na \<noteq> key" "(key > fd na) = d" "fd nb \<noteq> key" "(key > fd nb) = (\<not> d)"
    using assms(3) n(3,4) by (auto split: if_splits)
  then have "\<forall>n. probe_iter h key n (cplace D) \<noteq> None"
    using iter_in_cycle [OF n(1,2,5,6)] ctx_deref [OF D] by blast
  then show ?thesis
    by (rule iter_to_hole [OF D assms(2)])
qed

lemma sorted_ctx: "sorted_wrt (<) (keys (plug D t)) \<Longrightarrow> x \<in> snd ` set (inorder t) \<Longrightarrow> between x D"
  by (auto simp: between_def keys_def inorder_plug sorted_wrt_append)

lemma between_mid: "between x D \<Longrightarrow> between y D \<Longrightarrow> x < z \<Longrightarrow> z < y \<Longrightarrow> between z D"
  by (meson between_def less_trans)

lemma insert_cycle:
  assumes T: "tree_holds h m" and pr: "rb_probe h Root_ref key = Some (place, parent)"
    and new: "m key = None" and a: "a \<noteq> NULL" "aligned a" "a \<notin> ran m" and z: "zigzag_at h place"
    and n: "links n = links (make_rbnode key)"
  defines "h1 \<equiv> h\<lparr>rb_store := (rb_store h)(a \<mapsto> n)\<rparr>"
  obtains h2 h3 b d D kb where "rb_insert a place parent Root_ref h1 = Some h2" "assign place a h2 = Some h3" "assign place a h3 = Some h3"
    "rb_frame h1 h3" "deref h3 place = Some a" "m kb = Some b" "looped h3 a b d D key kb" "\<forall>x. inside d key kb x \<longrightarrow> between x D"
    "if d then key < kb else kb < key"
proof -
  obtain T where T: "rb_tree h T" "tree_map T = m"
    using T by (auto simp: tree_holds_def)
  obtain C where C: "T = plug C Lf" "place = cplace C" "parent = cpar C" "between key C"
    using probe_result [OF T(1) pr] new T(2) by metis
  have ok: "rb_ok T" using T(1) by (simp add: rb_tree_def)
  have "zigzag C"
    using zigzag_ctx [of h C Lf] T(1) C z by (simp add: rb_tree_def)
  then obtain e b kb s c g j u D where Z: "C = Fr (\<not> e) True b kb s # Fr e c g j u # D" and u: "\<not> red u"
    by (cases C rule: zigzag.cases) auto
  have "ctx_ok C (bh Lf)"
    using plug_inv [of C Lf] ok C(1) by (simp add: rb_ok_def)
  then have "\<not> c" by (simp add: Z)
  then have Z: "C = Fr (\<not> e) True b kb s # Fr e False g j u # D" using Z by simp
  let ?G = "nd e True Lf g j u"
  let ?E = "Fr (\<not> e) True b kb s # Fr e False a key ?G # D"
  have ad: "a \<notin> addrs T"
    using a(3) T(2) ok addrs_ran by auto
  have T1: "rb_tree h1 (plug C Lf)"
    using T(1) trep_fresh ad C(1) by (auto simp: rb_tree_def h1_def)
  have nn: "rb_store h1 a = Some n" "meta n = 1" "left n = NULL" "right n = NULL" "fd n = key"
    using n by (simp_all add: h1_def links_def make_rbnode_def)
  obtain h2 where h2: "rb_insert a place parent Root_ref h1 = Some h2" "rb_frame h1 h2" "trep h2 (plug ?E Lf)"
    using rb_insert_zigzag [OF Z T1 u nn(1-4) a(1,2)] ad C nn(5) by (auto simp: runs_def Z nd_flip)
  have hole: "ctxrep (rb_store h2) NULL ?E NULL" "rb_root h2 = croot ?E NULL" "distinct (map fst (fst (cinorder ?E) @ snd (cinorder ?E)))"
    using h2(3) unfolding trep_plug distinct_plug by auto
  obtain h3 where h3: "assign (cplace ?E) a h2 = Some h3" "rb_frame h2 h3" "ctxrep (rb_store h3) NULL ?E a" "rb_root h3 = croot ?E a"
    using assign_hole [OF hole] .
  have pl: "cplace ?E = place" using C(2) Z by simp
  have d: "deref h3 place = Some a" using ctx_deref [OF h3(3,4)] unfolding pl .
  have lp: "looped h3 a b e D key kb"
    using h3(3,4) by (auto simp: looped_def node_at_def rb_load_def child_def split: if_splits)
  have side: "if e then key < kb else kb < key"
    using C(4) Z by (cases "cinorder D"; auto simp: between_def split: if_splits)
  have "between kb D"
    by (rule sorted_ctx [of D "nd e False (nd (\<not> e) True Lf b kb s) g j u"]) (use ok C(1) Z in \<open>auto simp: rb_ok_def inorder_nd\<close>)
  moreover have "between key D"
    using C(4) Z by (cases "cinorder D"; auto simp: between_def split: if_splits)
  ultimately have "between x D" if "inside e key kb x" for x
    using that between_mid [of key D kb x] between_mid [of kb D key x] by (auto split: if_splits)
  moreover have "m kb = Some b"
    using tree_map_in [OF ok, of b kb] C(1) T(2) Z by (auto simp: inorder_plug inorder_nd)
  ultimately show ?thesis
    using that [OF h2(1) h3(1) [unfolded pl] assign_idem [OF d] rb_frame_trans [OF h2(2) h3(2)] d _ lp _ side] by blast
qed

lemma reserve_cycle:
  assumes T: "tree_holds (async_handlers w) m" and pr: "rb_probe (async_handlers w) Root_ref (ev_fd event) = Some (place, parent)"
    and new: "m (ev_fd event) = None" and a: "mallocs w 0 = Some a" "a \<noteq> NULL" "aligned a" "a \<notin> ran m"
    and mem: "mallocs w 1 \<noteq> None" and z: "zigzag_at (async_handlers w) place"
  obtains sl h' ms b d D kb p where "reserve_evt_mem place parent Root_ref event w = Some (Some (a, sl), w\<lparr>mallocs := ms, async_handlers := h'\<rparr>)"
    "deref h' place = Some a" "node_data h' a = Some p" "m kb = Some b" "looped h' a b d D (ev_fd event) kb"
    "\<forall>x. inside d (ev_fd event) kb x \<longrightarrow> between x D" "if d then ev_fd event < kb else kb < ev_fd event"
proof -
  let ?k = "ev_fd event" and ?t = "ev_wait_type event" and ?h = "async_handlers w"
  let ?w1 = "w\<lparr>mallocs := \<lambda>i. mallocs w (Suc i)\<rparr>"
  obtain sl n used where ri: "reserved_in (make_rbnode ?k) ?t (mallocs ?w1 0 \<noteq> None) = (sl, n, used)"
    by (metis prod_cases3)
  then have "reserved_in (make_rbnode ?k) ?t True = (sl, n, used)"
    using mem by simp
  then obtain s where s: "sl = Some s"
    using reserved_in_None [of "make_rbnode ?k" ?t True n used] by (cases sl) auto
  have ln: "links n = links (make_rbnode ?k)"
    using reserved_in_links [OF ri] by simp
  have rs: "reserve_slot (make_rbnode ?k) ?t ?w1 =
      (Some s, n, if used then ?w1\<lparr>mallocs := \<lambda>i. mallocs ?w1 (Suc i)\<rparr> else ?w1)"
    using reserve_slot_in [of "make_rbnode ?k" ?t ?w1] ri s by simp
  obtain h2 h3 b d D kb where h: "rb_insert a place parent Root_ref (?h\<lparr>rb_store := (rb_store ?h)(a \<mapsto> n)\<rparr>) = Some h2"
      "assign place a h2 = Some h3" "assign place a h3 = Some h3" "rb_frame (?h\<lparr>rb_store := (rb_store ?h)(a \<mapsto> n)\<rparr>) h3"
      "deref h3 place = Some a" "m kb = Some b" "looped h3 a b d D ?k kb" "\<forall>x. inside d ?k kb x \<longrightarrow> between x D"
      "if d then ?k < kb else kb < ?k"
    by (rule insert_cycle [OF T pr new a(2-4) z ln])
  have "reserve_evt_mem place parent Root_ref event w =
      Some (Some (a, s), (if used then ?w1\<lparr>mallocs := \<lambda>i. mallocs ?w1 (Suc i)\<rparr> else ?w1)\<lparr>async_handlers := h3\<rparr>)"
    using probe_new [OF T pr new] a rs h(1-3)
    by (simp add: reserve_evt_mem_def next_malloc_def rb_load_def rb_update_def Let_def)
  moreover have "\<exists>ms. (if used then ?w1\<lparr>mallocs := \<lambda>i. mallocs ?w1 (Suc i)\<rparr> else ?w1)\<lparr>async_handlers := h3\<rparr>
      = w\<lparr>mallocs := ms, async_handlers := h3\<rparr>"
    by (cases used) auto
  moreover have "node_data h3 a = Some (payload n)"
    using node_data_frame [OF h(4)] by (simp add: node_data_def)
  ultimately show ?thesis
    using that h(5-9) by metis
qed

text \<open>
  C33. Registering a descriptor whose place in the tree is below a red node on the inner side (the new
  node's parent is red, hangs on the other side of its own parent, and has no red sibling), with
  memory available: the call reports success, but the new node and its parent of before are now each
  other's child. Looking up any descriptor strictly between theirs visits the two nodes for ever: the
  search makes its \<open>i\<close>-th step for every \<open>i\<close>, so \<open>rb_probe\<close> does not return, and neither does
  \<open>iosvc_sched\<close> for such a descriptor.
\<close>

theorem iosvc_sched_cycle:
  assumes "svc_inv w m" and "svc_status w \<in> {READY, RUNNING}" and "callback hnd \<noteq> NULL"
    and "rb_probe (async_handlers w) Root_ref (ev_fd event) = Some (place, parent)" "zigzag_at (async_handlers w) place"
    and "m (ev_fd event) = None" and "\<forall>i. mallocs w i \<noteq> None"
    and "node_malloc w = Some a" "a \<noteq> NULL" "aligned a" "a \<notin> ran m"
  shows "\<exists>w' b na nb d. iosvc_sched event hnd st w = Some (EIO_OK, w')
    \<and> rb_store (async_handlers w') a = Some na \<and> rb_store (async_handlers w') b = Some nb
    \<and> fd na = ev_fd event \<and> m (fd nb) = Some b \<and> child na d = b \<and> child nb (\<not> d) = a
    \<and> (if d then fd na < fd nb else fd nb < fd na)
    \<and> (\<forall>key. (if d then fd na < key \<and> key < fd nb else fd nb < key \<and> key < fd na) \<longrightarrow>
         (\<forall>i. probe_iter (async_handlers w') key i Root_ref \<noteq> None) \<and> rb_probe (async_handlers w') Root_ref key = None
         \<and> iosvc_sched \<lparr>ev_fd = key, ev_wait_type = t\<rparr> hnd st w' = None)"
proof -
  let ?k = "ev_fd event" and ?P = "pollfds w"
  have T: "tree_holds (async_handlers w) m" and P: "dynarr_inv ?P"
    using assms(1) by (auto simp: svc_inv_def poll_ok_def Let_def)
  obtain ok w1 where al: "alloc_if (dynarr_full ?P) w = (ok, w1)" by fastforce
  obtain q d1 where em: "dynarr_emplace_back ok ?P = (Some q, d1)" "mallocs w1 0 = Some a" "\<forall>i. mallocs w1 i \<noteq> None"
      and w1: "\<exists>ms. w1 = w\<lparr>mallocs := ms\<rparr>"
    using alloc_emplace [OF P assms(7) al] assms(8) by (metis node_malloc_def)
  let ?w2 = "w1\<lparr>pollfds := d1\<rparr>"
  have h1: "async_handlers ?w2 = async_handlers w" "async_handlers w1 = async_handlers w" "pollfds w1 = ?P" "svc_status w1 = svc_status w"
    using w1 by auto
  obtain sl h' ms b d D kb p where rs: "reserve_evt_mem place parent Root_ref event ?w2 = Some (Some (a, sl), ?w2\<lparr>mallocs := ms, async_handlers := h'\<rparr>)"
      "deref h' place = Some a" "node_data h' a = Some p" "m kb = Some b" "looped h' a b d D ?k kb"
      "\<forall>x. inside d ?k kb x \<longrightarrow> between x D" "if d then ?k < kb else kb < ?k"
    by (rule reserve_cycle [of ?w2 m event place parent a]) (use T assms em in \<open>auto simp: h1\<close>)
  let ?w3 = "?w2\<lparr>mallocs := ms, async_handlers := h'\<rparr>"
  have pre: "node_data (async_handlers ?w3) a = Some p" "deref (async_handlers ?w3) place = Some a"
      "dynarr_emplace_back ok ?P = (Some q, pollfds ?w3)"
    using rs(2,3) em(1) by simp_all
  obtain h2 d2 where fl: "enqueue_fill place True (a, sl) event hnd st ?w3 = Some (a, ?w3\<lparr>async_handlers := h2, pollfds := d2\<rparr>)"
      "same_links (async_handlers ?w3) h2"
    by (rule enqueue_fill_new [OF pre(1) assms(9) pre(2) P pre(3) refl, where sl = sl and event = event and hnd = hnd and st = st])
  let ?w' = "?w3\<lparr>async_handlers := h2, pollfds := d2\<rparr>"
  have run: "iosvc_sched event hnd st w = Some (EIO_OK, ?w')"
    using assms(2-4) probe_new [OF T assms(4,6)] al em(1) rs(1) fl(1) h1
    by (auto simp: iosvc_sched_def iosvc_enqueue_def enqueue_reserve_def Let_def)
  have lp: "looped (async_handlers ?w') a b d D ?k kb"
    using looped_links [OF rs(5)] fl(2) by simp
  obtain na nb where n: "rb_store (async_handlers ?w') a = Some na" "rb_store (async_handlers ?w') b = Some nb"
      "fd na = ?k" "fd nb = kb" "child na d = b" "child nb (\<not> d) = a"
    using lp by (auto simp: looped_def rb_load_def split: if_splits)
  have "(\<forall>i. probe_iter (async_handlers ?w') key i Root_ref \<noteq> None) \<and> rb_probe (async_handlers ?w') Root_ref key = None
      \<and> iosvc_sched \<lparr>ev_fd = key, ev_wait_type = t\<rparr> hnd st ?w' = None" if key: "inside d ?k kb key" for key
  proof -
    have "\<forall>i. probe_iter (async_handlers ?w') key i Root_ref \<noteq> None"
      using looped_endless [OF lp _ key] rs(6) key by blast
    moreover from this have "rb_probe (async_handlers ?w') Root_ref key = None"
      by (rule endless_probe)
    ultimately show ?thesis
      using assms(2,3) h1(4) by (auto simp: iosvc_sched_def iosvc_enqueue_at)
  qed
  then show ?thesis
    using run n(1,2,5,6) rs(4,7) unfolding n(3,4) [symmetric] by blast
qed

text \<open>The descriptors 10 and 20 are registered; 15 belongs below 20, on the inner side.\<close>

definition one_service :: world where
  "one_service = (snd (the (iosvc_sched (demo_event 10 WAIT_READ) (demo_handler 1) NULL fresh_world)))\<lparr>mallocs := \<lambda>_. Some 32\<rparr>"

definition two_service :: world where
  "two_service = (snd (the (iosvc_sched (demo_event 20 WAIT_READ) (demo_handler 1) NULL one_service)))\<lparr>mallocs := \<lambda>_. Some 48\<rparr>"

lemma one_service_inv: "svc_inv one_service [10 \<mapsto> 16]"
proof -
  have "svc_status fresh_world \<in> {READY, RUNNING}" "\<not> zigzag_at (async_handlers fresh_world) Root_ref"
      "Map.empty (ev_fd (demo_event 10 WAIT_READ)) = None" "(16 :: addr) \<noteq> NULL" "16 \<notin> ran Map.empty"
    by (simp_all add: fresh_world_def zigzag_at_def)
  from iosvc_enqueue_new [OF fresh_svc_inv this(1) demo_cb [of 1] fresh_probe this(3,2) fresh_malloc(1,2) this(4) fresh_malloc(3) this(5),
      where event = "demo_event 10 WAIT_READ" and st = NULL]
  obtain w where "iosvc_enqueue (demo_event 10 WAIT_READ) (demo_handler 1) NULL fresh_world = Some (EIO_OK, Some 16, w)" "svc_inv w [10 \<mapsto> 16]"
    by (metis demo_event_sel(1))
  then show ?thesis
    using unchanged_svc_inv [of w] by (simp add: one_service_def iosvc_sched_def)
qed

lemma one_service_facts:
  "svc_status one_service = READY" "rb_probe (async_handlers one_service) Root_ref 20 = Some (Child_ref 16 True, 16)"
  "\<not> zigzag_at (async_handlers one_service) (Child_ref 16 True)" "node_malloc one_service = Some 32"
  unfolding one_service_def by code_simp+

lemma two_service_inv: "svc_inv two_service [10 \<mapsto> 16, 20 \<mapsto> 32]" "\<forall>i. mallocs two_service i \<noteq> None"
proof -
  have m: "\<forall>i. mallocs one_service i \<noteq> None" by (simp add: one_service_def)
  have "svc_status one_service \<in> {READY, RUNNING}" "[10 \<mapsto> 16] (ev_fd (demo_event 20 WAIT_READ)) = None"
      "rb_probe (async_handlers one_service) Root_ref (ev_fd (demo_event 20 WAIT_READ)) = Some (Child_ref 16 True, 16)"
      "(32 :: addr) \<noteq> NULL" "aligned (32 :: addr)" "32 \<notin> ran [10 \<mapsto> (16 :: addr)]"
    using one_service_facts(1,2) by (simp_all add: aligned_def)
  from iosvc_enqueue_new [OF one_service_inv this(1) demo_cb [of 1] this(3,2) one_service_facts(3) m one_service_facts(4) this(4-6), where st = NULL]
  obtain w where "iosvc_enqueue (demo_event 20 WAIT_READ) (demo_handler 1) NULL one_service = Some (EIO_OK, Some 32, w)" "svc_inv w [10 \<mapsto> 16, 20 \<mapsto> 32]"
    by (metis demo_event_sel(1))
  then show "svc_inv two_service [10 \<mapsto> 16, 20 \<mapsto> 32]"
    using unchanged_svc_inv [of w] by (simp add: two_service_def iosvc_sched_def)
qed (simp add: two_service_def)

lemma two_service_facts:
  "svc_status two_service = READY" "rb_probe (async_handlers two_service) Root_ref 15 = Some (Child_ref 32 False, 32)"
  "zigzag_at (async_handlers two_service) (Child_ref 32 False)" "node_malloc two_service = Some 48"
  unfolding two_service_def one_service_def by code_simp+

theorem iosvc_sched_cycle_witness:
  "\<exists>w' b na nb d. iosvc_sched (demo_event 15 WAIT_READ) (demo_handler 1) NULL two_service = Some (EIO_OK, w')
    \<and> rb_store (async_handlers w') 48 = Some na \<and> rb_store (async_handlers w') b = Some nb \<and> child na d = b \<and> child nb (\<not> d) = 48"
proof -
  have "svc_status two_service \<in> {READY, RUNNING}" "[10 \<mapsto> 16, 20 \<mapsto> 32] (ev_fd (demo_event 15 WAIT_READ)) = None"
      "rb_probe (async_handlers two_service) Root_ref (ev_fd (demo_event 15 WAIT_READ)) = Some (Child_ref 32 False, 32)"
      "(48 :: addr) \<noteq> NULL" "aligned (48 :: addr)" "48 \<notin> ran [10 \<mapsto> (16 :: addr), 20 \<mapsto> 32]"
    using two_service_facts(1,2) by (auto simp: aligned_def ran_def)
  from iosvc_sched_cycle [OF two_service_inv(1) this(1) demo_cb [of 1] this(3) two_service_facts(3) this(2) two_service_inv(2)
      two_service_facts(4) this(4-6), where st = NULL]
  show ?thesis by blast
qed

section \<open>A node that is freed but stays in the tree\<close>

text \<open>The place of an absent descriptor, after the address \<open>a\<close> has been freed and written there.\<close>

lemma assign_freed:
  assumes T: "tree_holds h m" and pr: "rb_probe h Root_ref key = Some (place, parent)"
    and new: "m key = None" and a: "a \<noteq> NULL" "a \<notin> ran m"
  obtains h' where "assign place a (h\<lparr>rb_store := (rb_store h)(a := None)\<rparr>) = Some h'" "deref h' place = Some a" "rb_store h' a = None"
    "rb_probe h' Root_ref key = None"
proof -
  obtain T where T: "rb_tree h T" "tree_map T = m"
    using T by (auto simp: tree_holds_def)
  obtain C where C: "T = plug C Lf" "place = cplace C" "between key C"
    using probe_result [OF T(1) pr] new T(2) by metis
  let ?h = "h\<lparr>rb_store := (rb_store h)(a := None)\<rparr>"
  have "a \<notin> addrs T"
    using a(2) T addrs_ran by (auto simp: rb_tree_def)
  then have ca: "a \<notin> caddrs C" by (simp add: C(1) addrs_plug)
  have C0: "ctxrep (rb_store h) NULL C NULL" "rb_root h = croot C NULL" "distinct (map fst (fst (cinorder C) @ snd (cinorder C)))"
    using T(1) unfolding rb_tree_def C(1) trep_plug distinct_plug by simp_all
  have "ctxrep (rb_store ?h) NULL C NULL"
    by (rule ctxrep_agree [OF C0(1)]) (use ca in auto)
  moreover have "rb_root ?h = croot C NULL" using C0(2) by simp
  ultimately obtain h' where h': "assign (cplace C) a ?h = Some h'" "ctxrep (rb_store h') NULL C a" "rb_root h' = croot C a"
      "\<And>b. b \<noteq> cpar C \<Longrightarrow> rb_store h' b = rb_store ?h b"
    using assign_hole [OF _ _ C0(3)] by metis
  have "cpar C \<noteq> a"
    using ca a(1) by (cases C rule: cplace.cases) auto
  then have st: "rb_store h' a = None" using h'(4) [of a] by simp
  have d: "deref h' place = Some a" using ctx_deref [OF h'(2,3)] C(2) by simp
  then have "probe_loop h' (cplace C) (cpar C) key = None"
    using st a(1) C(2) by (subst probe_loop.simps) (simp add: rb_load_def)
  then have "rb_probe h' Root_ref key = None"
    using probe_to_hole [OF h'(2,3) C(3)] by (simp add: rb_probe_def)
  then show ?thesis
    using that [OF h'(1) [folded C(2)] d st] by blast
qed

text \<open>
  C34. Registering the exception event of a descriptor without a node, when the node can be allocated and
  the block for the event cannot: the call reports \<open>EIO_NOMEM\<close>, but the place in the tree where the
  descriptor belongs is left holding the address of the node that was just freed. Whatever is
  registered next on this descriptor dereferences it: the search for the descriptor reads freed
  memory, so \<open>iosvc_sched\<close> has no defined result.
\<close>

theorem iosvc_sched_dangling:
  assumes "svc_inv w m" and "svc_status w \<in> {READY, RUNNING}" and "callback hnd \<noteq> NULL"
    and "m (ev_fd event) = None" "ev_wait_type event = WAIT_EXCEPTION"
    and "dynarr_full (pollfds w) \<longrightarrow> mallocs w 0 \<noteq> None" and "node_malloc w = Some a" "a \<noteq> NULL" "a \<notin> ran m"
    and "mallocs w (if dynarr_full (pollfds w) then 2 else 1) = None"
  shows "\<exists>w' place parent. rb_probe (async_handlers w) Root_ref (ev_fd event) = Some (place, parent)
    \<and> iosvc_sched event hnd st w = Some (EIO_NOMEM, w')
    \<and> deref (async_handlers w') place = Some a \<and> rb_store (async_handlers w') a = None
    \<and> rb_probe (async_handlers w') Root_ref (ev_fd event) = None
    \<and> iosvc_sched \<lparr>ev_fd = ev_fd event, ev_wait_type = t\<rparr> hnd st w' = None"
proof -
  let ?k = "ev_fd event" and ?P = "pollfds w" and ?h = "async_handlers w"
  have T: "tree_holds ?h m" and P: "dynarr_inv ?P"
    using assms(1) by (auto simp: svc_inv_def poll_ok_def Let_def)
  obtain place parent where pr: "rb_probe ?h Root_ref ?k = Some (place, parent)"
    using probe_runs [OF T] .
  obtain ok w1 where al: "alloc_if (dynarr_full ?P) w = (ok, w1)" by fastforce
  obtain ms where w1: "w1 = w\<lparr>mallocs := ms\<rparr>" using alloc_if_world [OF al] by blast
  have "mallocs w1 0 = Some a" "mallocs w1 1 = None"
    using al assms(7,10) by (auto simp: alloc_if_def next_malloc_def node_malloc_def numeral_2_eq_2 split: if_splits)
  then have ms: "ms 0 = Some a" "ms 1 = None" by (simp_all add: w1)
  have "ok" using alloc_if_ok [OF al] assms(6) by simp
  then obtain q d1 where em: "dynarr_emplace_back ok ?P = (Some q, d1)"
    using dynarr_emplace_back_fail(1) [of ok ?P] by (metis option.exhaust prod.collapse)
  obtain h' where h': "assign place a (?h\<lparr>rb_store := (rb_store ?h)(a := None)\<rparr>) = Some h'" "deref h' place = Some a"
      "rb_store h' a = None" "rb_probe h' Root_ref ?k = None"
    using assign_freed [OF T pr assms(4,8,9)] .
  let ?w2 = "w1\<lparr>pollfds := d1\<rparr>"
  have rs: "reserve_evt_mem place parent Root_ref event ?w2 = Some (None, ?w2\<lparr>mallocs := \<lambda>i. ms (Suc (Suc i)), async_handlers := h'\<rparr>)"
    using probe_new [OF T pr assms(4)] assms(5,8) ms h'(1)
    by (simp add: reserve_evt_mem_def next_malloc_def reserve_slot_def reserve_ex_def make_rbnode_def rb_load_def rb_update_def Let_def
        w1 free_node_def event_armed_def)
  let ?w' = "?w2\<lparr>mallocs := \<lambda>i. ms (Suc (Suc i)), async_handlers := h', pollfds := dynarr_pop_back d1\<rparr>"
  have "iosvc_sched event hnd st w = Some (EIO_NOMEM, ?w')"
    using assms(2,3) pr probe_new [OF T pr assms(4)] al em rs
    by (auto simp: iosvc_sched_def iosvc_enqueue_at enqueue_at_def enqueue_reserve_def Let_def w1)
  moreover have "iosvc_sched \<lparr>ev_fd = ?k, ev_wait_type = t\<rparr> hnd st ?w' = None"
    using assms(2,3) h'(4) by (auto simp: iosvc_sched_def iosvc_enqueue_at w1)
  ultimately show ?thesis
    using pr h'(2-4) by fastforce
qed

text \<open>A new service on which the third allocation fails: the poll vector and the node get their memory.\<close>

definition scarce_world :: world where
  "scarce_world = fresh_world\<lparr>mallocs := \<lambda>n. if n = 2 then None else Some (8 * of_nat (Suc n))\<rparr>"

theorem iosvc_sched_dangling_witness:
  "\<exists>w' place. iosvc_sched (demo_event 5 WAIT_EXCEPTION) (demo_handler 1) NULL scarce_world = Some (EIO_NOMEM, w')
    \<and> deref (async_handlers w') place = Some 16 \<and> rb_store (async_handlers w') 16 = None
    \<and> rb_probe (async_handlers w') Root_ref 5 = None"
proof -
  have "svc_inv scarce_world Map.empty"
    unfolding scarce_world_def using unchanged_svc_inv [OF fresh_svc_inv] by simp
  moreover have "svc_status scarce_world \<in> {READY, RUNNING}" "node_malloc scarce_world = Some 16"
      "mallocs scarce_world (if dynarr_full (pollfds scarce_world) then 2 else 1) = None"
      "dynarr_full (pollfds scarce_world) \<longrightarrow> mallocs scarce_world 0 \<noteq> None"
    by (simp_all add: scarce_world_def fresh_world_def dynarr_full_def dynarr_init_def node_malloc_def)
  moreover have "Map.empty (ev_fd (demo_event 5 WAIT_EXCEPTION)) = None" "ev_wait_type (demo_event 5 WAIT_EXCEPTION) = WAIT_EXCEPTION"
      "(16 :: addr) \<noteq> NULL" "16 \<notin> ran Map.empty"
    by simp_all
  ultimately have "\<exists>w' place parent. rb_probe (async_handlers scarce_world) Root_ref (ev_fd (demo_event 5 WAIT_EXCEPTION)) = Some (place, parent)
    \<and> iosvc_sched (demo_event 5 WAIT_EXCEPTION) (demo_handler 1) NULL scarce_world = Some (EIO_NOMEM, w')
    \<and> deref (async_handlers w') place = Some 16 \<and> rb_store (async_handlers w') 16 = None
    \<and> rb_probe (async_handlers w') Root_ref (ev_fd (demo_event 5 WAIT_EXCEPTION)) = None
    \<and> iosvc_sched \<lparr>ev_fd = ev_fd (demo_event 5 WAIT_EXCEPTION), ev_wait_type = WAIT_READ\<rparr> (demo_handler 1) NULL w' = None"
    by (intro iosvc_sched_dangling [OF _ _ demo_cb])
  then show ?thesis
    unfolding demo_event_sel by blast
qed

section \<open>A removal that loses the parent\<close>

text \<open>What a memory represents below a context is determined by the memory.\<close>

lemma mk_meta_eq:
  assumes "aligned p" "aligned q" "mk_meta p c = mk_meta q d"
  shows "p = q \<and> c = d"
  using arg_cong [OF assms(3), of meta_parent] arg_cong [OF assms(3), of meta_red] assms(1,2) by simp

lemma node_at_unique:
  assumes "node_at s a p c k l r" "node_at s a q d j u v" "aligned p" "aligned q"
  shows "p = q" "c = d" "k = j" "l = u" "r = v"
proof -
  obtain n where n: "s a = Some n" "meta n = mk_meta p c" "fd n = k" "left n = l" "right n = r"
    using assms(1) by (auto simp: node_at_def)
  then have "mk_meta p c = mk_meta q d" and e: "k = j" "l = u" "r = v"
    using assms(2) by (auto simp: node_at_def)
  from mk_meta_eq [OF assms(3,4) this(1)] e show "p = q" "c = d" "k = j" "l = u" "r = v" by blast+
qed

lemma rep_unique: "rep s p t \<Longrightarrow> rep s p u \<Longrightarrow> ptr t = ptr u \<Longrightarrow> aligned p \<Longrightarrow> t = u"
proof (induction t arbitrary: p u)
  case Lf
  then show ?case using rep_ptr_NULL [of s p u] by simp
next
  case (Nd c l a k r)
  have a: "node_at s a p c k (ptr l) (ptr r)" "a \<noteq> NULL" "aligned a" "rep s a l" "rep s a r"
    using Nd.prems(1) by (auto simp: node_at_def)
  obtain c' l' k' r' where u: "u = Nd c' l' a k' r'"
    using Nd.prems(3) a(2) by (cases u) auto
  then have b: "node_at s a p c' k' (ptr l') (ptr r')" "rep s a l'" "rep s a r'"
    using Nd.prems(2) by simp_all
  note q = node_at_unique [OF a(1) b(1) Nd.prems(4,4)]
  show ?case
    using Nd.IH(1) [OF a(4) b(2) q(4) a(3)] Nd.IH(2) [OF a(5) b(3) q(5) a(3)] q(2,3) u by simp
qed

lemma ctx_unique:
  assumes "trep h T" "ctxrep (rb_store h) NULL C x" "rb_root h = croot C x"
  shows "\<exists>t. T = plug C t \<and> ptr t = x"
  using assms(2,3)
proof (induction C arbitrary: x)
  case Nil
  then show ?case using assms(1) by (simp add: trep_def)
next
  case (Cons f C)
  obtain d c a k s where f: "f = Fr d c a k s" by (cases f)
  obtain t where t: "T = plug C t" "ptr t = a"
    using Cons.IH [of a] Cons.prems f by auto
  have al: "aligned (cpar C)" using trep_aligned_cpar assms(1) t(1) by blast
  have n: "node_at (rb_store h) a (cpar C) c k (if d then ptr s else x) (if d then x else ptr s)" "rep (rb_store h) a s"
    using Cons.prems(1) f by simp_all
  then have "t \<noteq> Lf" using t(2) by (auto simp: node_at_def)
  then obtain c' u k' v where nd: "t = nd d c' u a k' v"
    using nd_exhaust [where t = t and d = d] t(2) by (metis ptr_nd)
  have r: "rep (rb_store h) (cpar C) (nd d c' u a k' v)"
    using assms(1) t(1) nd by (simp add: trep_plug)
  have m: "node_at (rb_store h) a (cpar C) c' k' (if d then ptr v else ptr u) (if d then ptr u else ptr v)"
      and v: "rep (rb_store h) a v" "aligned a"
    using r by (auto simp: rep_nd node_at_def)
  have eq: "c' = c" "k' = k" "ptr v = ptr s" "ptr u = x"
    using node_at_unique [OF m n(1) al al] by (auto split: if_splits)
  have "v = s" by (rule rep_unique [OF v(1) n(2) eq(3) v(2)])
  then show ?case
    using t(1) nd eq f by (intro exI [of _ u]) simp
qed

text \<open>Unlinking a black node that has no right child, with a null pointer in place of its parent.\<close>

lemma unlink_orphan:
  assumes t: "trep h (plug E (Nd False pl a k Lf))" and E: "E \<noteq> []" and pl: "pl = Lf \<or> red pl"
  obtains h' where "rb_unlink a (cplace E) NULL Root_ref h = Some h'" "ctxrep (rb_store h') NULL E (ptr pl)" "rb_root h' = croot E (ptr pl)"
    "pl \<noteq> Lf \<longrightarrow> (\<exists>n. rb_store h' (ptr pl) = Some n \<and> meta n = mk_meta NULL False)"
proof -
  obtain n where n: "rb_load h a = Some n" "child n False = ptr pl" "child n True = NULL" "meta n = mk_meta (cpar E) False" "rb_store h a = Some n"
    using trep_load [of h E False False pl a k Lf] t by (auto simp: nd_def)
  have rp: "rep (rb_store h) a pl" and al: "aligned a" "aligned (cpar E)" and d: "a \<notin> caddrs E" "a \<notin> addrs pl" "caddrs E \<inter> addrs pl = {}"
    using t trep_aligned_cpar [OF t] by (auto simp: trep_plug distinct_plug node_at_def)
  have cE: "cpar E \<in> caddrs E" using E by (cases E rule: cplace.cases) simp_all
  obtain h1 where h1: "assign (cplace E) (ptr pl) h = Some h1" "ctxrep (rb_store h1) NULL E (ptr pl)" "rb_root h1 = croot E (ptr pl)"
      "\<And>b. b \<noteq> cpar E \<Longrightarrow> rb_store h1 b = rb_store h b"
    by (rule assign_hole [of h E a "ptr pl"]) (use t in \<open>auto simp: trep_plug distinct_plug\<close>)
  have a1: "rb_store h1 a = Some n" using h1(4) [of a] cE d(1) n(5) by auto
  have un: "rb_unlink a (cplace E) NULL Root_ref h = do { h \<leftarrow> (if ptr pl \<noteq> NULL then set_parent (ptr pl) NULL h1 else Some h1);
      red \<leftarrow> is_red h a; if \<not> red then fix_delete (ptr pl) NULL Root_ref h else Some h }"
  proof -
    have son: "(if child n LEFT \<noteq> NULL then child n LEFT else child n RIGHT) = ptr pl" using n(2,3) by simp
    show ?thesis unfolding rb_unlink_def n(1) Let_def Option.bind.bind_lunit son rb_splice_def h1(1) ..
  qed
  show ?thesis
  proof (cases pl)
    case Lf
    have "is_red h1 a = Some False" using a1 n(1,4) al by (auto simp: is_red_def rb_load_def split: if_splits)
    moreover have "fix_delete NULL NULL Root_ref h1 = Some h1" by (subst fix_delete.simps) (simp add: is_red_def)
    ultimately show ?thesis using that [of h1] un h1(2,3) Lf by simp
  next
    case (Nd c l b m r)
    then have c: "pl = Nd True l b m r" using pl by auto
    obtain nb where nb: "rb_store h b = Some nb" "meta nb = mk_meta a True" "b \<noteq> NULL"
      using rp c by (auto simp: node_at_def)
    have b1: "rb_store h1 b = Some nb" using h1(4) [of b] cE d(3) c nb(1) by auto
    let ?n = "\<lambda>c. nb\<lparr>meta := mk_meta NULL c\<rparr>"
    let ?h = "\<lambda>c. h1\<lparr>rb_store := (rb_store h1)(b \<mapsto> ?n c)\<rparr>"
    have s1: "set_parent b NULL h1 = Some (?h True)"
      using b1 nb al by (simp add: set_parent_def rb_update_def rb_load_def)
    have "a \<noteq> b" using d(2) c by auto
    then have "is_red (?h True) a = Some False" using a1 n(1,4) al by (auto simp: is_red_def rb_load_def split: if_splits)
    moreover have "fix_delete b NULL Root_ref (?h True) = Some (?h False)"
      using nb by (subst fix_delete.simps) (simp add: is_red_def rb_load_def set_black_def rb_update_def)
    ultimately have "rb_unlink a (cplace E) NULL Root_ref h = Some (?h False)"
      using un s1 c nb(3) by simp
    moreover have "b \<notin> caddrs E" using d(3) c by auto
    ultimately show ?thesis using that [of "?h False"] h1(2,3) c by simp
  qed
qed

lemma pred_not_ok:
  assumes "l \<noteq> Lf" "r \<noteq> Lf" "spine D" "l = plug D (Nd cp pl p kp Lf)" "\<not> pred_ok l r"
  shows "D = []" "\<not> cp"
proof -
  show D: "D = []"
  proof (cases D rule: rev_cases)
    case (snoc D' f)
    then obtain c b k s where "f = Fr True c b k s"
      using assms(3) by (cases f) auto
    then have "l = Nd c s b k (plug D' (Nd cp pl p kp Lf))"
      using assms(4) snoc by (simp add: plug_append nd_def)
    then show ?thesis
      using assms(5) by (cases "plug D' (Nd cp pl p kp Lf)") auto
  qed simp
  then show "\<not> cp"
    using assms(2,4,5) by (cases r) auto
qed

lemma extract_unsafe_pred:
  assumes t: "trep h (plug C (Nd c l a k r))" and "\<not> extract_safe h a"
  shows "\<not> pred_ok l r"
proof -
  have a: "node_at (rb_store h) a (cpar C) c k (ptr l) (ptr r)" "rep (rb_store h) a l" "rep (rb_store h) a r" "aligned a"
    using t by (auto simp: trep_plug node_at_def)
  have "l \<noteq> Lf" "r \<noteq> Lf"
    using assms(2) a(1) by (auto simp: extract_safe_def node_at_def rb_load_def)
  then obtain cl ll b m rl where l: "l = Nd cl ll b m rl" by (cases l) auto
  have b: "node_at (rb_store h) b a cl m (ptr ll) (ptr rl)" "rep (rb_store h) b rl"
    using a(2) l by simp_all
  have "ptr rl = NULL" "\<not> cl"
    using assms(2) a(1,4) b(1) l by (auto simp: extract_safe_def node_at_def rb_load_def)
  then show ?thesis
    using l \<open>r \<noteq> Lf\<close> rep_ptr_NULL [OF b(2)] by (cases r) auto
qed

text \<open>
  C35. The condition on removals is necessary: from any valid tree, removing a node with two children
  whose left child is black and has no right child (the case that \<open>extract_safe\<close> excludes) does
  return the node, but the memory it leaves represents no red-black tree at all. The code exchanges
  the node with its left child and then takes the parent of the exchanged node to be null, so the
  rebalancing is skipped, and a child that moves up gets a null parent.
\<close>

theorem rb_extract_unsafe:
  assumes "rb_tree h T" and "rb_probe h Root_ref key = Some (place, parent)"
    and "tree_map T key = Some a" and "\<not> extract_safe h a"
  shows "\<exists>h'. rb_extract place parent Root_ref h = Some (a, h') \<and> (\<forall>T'. \<not> rb_tree h' T')"
proof -
  obtain C u where C: "T = plug C u" "place = cplace C" "parent = cpar C" "u \<noteq> Lf"
    "\<And>c l b k r. u = Nd c l b k r \<Longrightarrow> k = key \<and> tree_map T key = Some b"
    using probe_result [OF assms(1,2)] assms(3) by (metis option.distinct(1))
  then obtain c l r where u: "u = Nd c l a key r"
    using assms(3) by (cases u) auto
  have t: "trep h (plug C (Nd c l a key r))" and srt: "sorted_wrt (<) (keys (plug C (Nd c l a key r)))"
    and inv: "invc (plug C (Nd c l a key r))" "invh (plug C (Nd c l a key r))" "\<not> red (plug C (Nd c l a key r))"
    using assms(1) by (auto simp: rb_tree_def rb_ok_def C(1) u)
  obtain n where n: "rb_load h a = Some n" "left n = ptr l" "right n = ptr r" "fd n = key" "rep (rb_store h) a l" "rep (rb_store h) a r"
    using t by (auto simp: trep_plug node_at_def rb_load_def)
  have two: "l \<noteq> Lf" "r \<noteq> Lf"
    using assms(4) n(1-3) by (auto simp: extract_safe_def)
  then have nn: "left n \<noteq> NULL" "right n \<noteq> NULL"
    using n(2,3) rep_ptr_NULL [OF n(5)] rep_ptr_NULL [OF n(6)] by simp_all
  obtain D cp pl p kp h1 where l: "l = plug D (Nd cp pl p kp Lf)" "spine D"
    and sw: "swap_with_pred a (cplace C) (cpar C) h = Some (p, h1)" "trep h1 (with_pred C c D cp pl a key p kp r)"
    using swap_with_pred_exec [OF t two(1)] by metis
  have unsafe: "D = []" "\<not> cp"
    by (rule pred_not_ok [OF two l(2,1) extract_unsafe_pred [OF t assms(4)]])+
  let ?E = "Fr False c p kp r # C"
  have tE: "trep h1 (plug ?E (Nd False pl a key Lf))"
    using sw(2) unsafe by (simp add: nd_def)
  have ext: "rb_extract place parent Root_ref h = map_option (Pair a) (rb_unlink a (cplace ?E) NULL Root_ref h1)"
    using rb_extract_exchange [OF _ n(1) nn sw(1)] probe_exchanged [OF sw(2) l(2)] keys_spine_less srt l(1)
      trep_deref [OF t] n(4) unsafe(1) C(2,3) by simp
  have "invc (Nd c l a key r) \<and> invh (Nd c l a key r)"
    using inv plug_inv [of C "Nd c l a key r"] by blast
  moreover have "l = Nd False pl p kp Lf" using l(1) unsafe by simp
  ultimately have "bh pl = 0" and pl: "bh r = 1" by auto
  then have pl: "pl = Lf \<or> red pl" "bh r = 1" by (cases pl, auto split: if_splits)
  obtain h' where h': "rb_unlink a (cplace ?E) NULL Root_ref h1 = Some h'" "ctxrep (rb_store h') NULL ?E (ptr pl)" "rb_root h' = croot ?E (ptr pl)"
      "pl \<noteq> Lf \<longrightarrow> (\<exists>n. rb_store h' (ptr pl) = Some n \<and> meta n = mk_meta NULL False)"
    by (rule unlink_orphan [OF tE list.simps(3) pl(1)])
  have "\<not> rb_tree h' T'" for T'
  proof
    assume T': "rb_tree h' T'"
    then obtain x where x: "T' = plug ?E x" "ptr x = ptr pl"
      using ctx_unique [OF _ h'(2,3)] by (auto simp: rb_tree_def)
    have rx: "rep (rb_store h') p x" and p: "p \<noteq> NULL" "aligned p" and ok: "invc (plug ?E x)" "invh (plug ?E x)"
      using T' h'(2) x(1) by (auto simp: rb_tree_def rb_ok_def trep_plug rep_nd node_at_def)
    show False
    proof (cases "pl = Lf")
      case True
      then have "x = Lf" using x(2) rep_ptr_NULL [OF rx] by simp
      then have "ctx_ok ?E 0" using ok plug_inv [of ?E x] by simp
      then show False using pl(2) by simp
    next
      case False
      then obtain n where n: "rb_store h' (ptr x) = Some n" "meta n = mk_meta NULL False"
        using h'(4) x(2) by auto
      have "ptr pl \<noteq> NULL"
        using tE False by (auto simp: trep_plug rep_nd rep_ptr_NULL)
      then have "x \<noteq> Lf" using x(2) by auto
      then obtain c' where "meta n = mk_meta p c'"
        using rx n(1) by (cases x) (auto simp: node_at_def)
      then show False
        using mk_meta_eq [of p NULL c' False] p n(2) by (simp add: aligned_def)
    qed
  qed
  then show ?thesis
    using ext h'(1) by simp
qed

text \<open>A root with two black leaves.\<close>

definition unsafe_heap :: rb_heap where
  "unsafe_heap = \<lparr>rb_root = 8, rb_store =
     [8 \<mapsto> (make_rbnode 3)\<lparr>meta := 0, left := 16, right := 24\<rparr>, 16 \<mapsto> (make_rbnode 1)\<lparr>meta := 8\<rparr>,
      24 \<mapsto> (make_rbnode 4)\<lparr>meta := 8\<rparr>]\<rparr>"

definition unsafe_tree :: rbt where
  "unsafe_tree = Nd False (Nd False Lf 16 1 Lf) 8 3 (Nd False Lf 24 4 Lf)"

theorem rb_extract_unsafe_witness:
  "\<exists>h'. rb_extract Root_ref NULL Root_ref unsafe_heap = Some (8, h') \<and> (\<forall>T'. \<not> rb_tree h' T')"
proof -
  have T: "rb_tree unsafe_heap unsafe_tree"
    by (simp add: rb_tree_def trep_def unsafe_heap_def unsafe_tree_def node_at_def aligned_def mk_meta_def
        make_rbnode_def rb_ok_def keys_def)
  have p: "rb_probe unsafe_heap Root_ref 3 = Some (Root_ref, NULL)" by code_simp
  have m: "tree_map unsafe_tree 3 = Some 8" by (simp add: tree_map_def unsafe_tree_def)
  have u: "\<not> extract_safe unsafe_heap 8" by code_simp
  show ?thesis by (rule rb_extract_unsafe [OF T p m u])
qed

end
