(* ===== verification/Lib_World.thy ===== *)
theory Lib_World
  imports Io_Service
begin

text \<open>
  The memory and the parts of the C library that the modules built on the service use:
  \<open>src/task_group.c\<close>, \<open>src/async_rdwr.c\<close> and \<open>src/async_net.c\<close>.

  \<open>lib_world\<close> extends the service's world with the context objects these modules allocate, one map
  from addresses per type, the callers' \<open>size_t\<close> variables and byte buffers, and the results of
  the system calls, in call order. \<open>read\<close> yields the bytes it delivers, \<open>None\<close> for an error;
  \<open>write\<close> the number of bytes taken. \<open>sent\<close> logs what the kernel took; nothing reads it.

  The modules hand the addresses of their own functions to the service; the linker chooses them, so
  they are the parameter \<open>lib_code\<close>.
\<close>

type_synonym byte = "8 word"

type_synonym size = "64 word"

record task_group_ctx =
  remaining_tasks :: size
  tg_hnd :: io_handler

record rw_ctx =
  rw_hnd :: io_handler
  rw_buf :: addr
  rw_nbytes :: size
  rw_transferred :: addr
  rw_errc :: addr
  rw_fd :: int
  rw_op_type :: io_wait_type

record accept_ctx =
  ac_listen_sock :: int
  ac_addr :: addr
  ac_addrlen :: addr
  ac_hnd :: io_handler
  ac_new_sock :: addr
  ac_errc :: addr

record conn_ctx =
  cn_sockfd :: int
  cn_hnd :: io_handler
  cn_errc :: addr

record lib_code =
  fn_task_group_callback :: addr
  fn_rw_some_impl :: addr
  fn_rw_impl :: addr
  fn_connect_impl :: addr
  fn_accept_impl :: addr

record lib_world = world +
  task_groups :: "addr \<rightharpoonup> task_group_ctx"
  rw_ctxs :: "addr \<rightharpoonup> rw_ctx"
  accept_ctxs :: "addr \<rightharpoonup> accept_ctx"
  conn_ctxs :: "addr \<rightharpoonup> conn_ctx"
  sizes :: "addr \<Rightarrow> size"
  bytes :: "addr \<Rightarrow> byte"
  reads :: "nat \<Rightarrow> int \<Rightarrow> size \<Rightarrow> byte list option"
  writes :: "nat \<Rightarrow> int \<Rightarrow> byte list \<Rightarrow> nat option"
  sent :: "(int \<times> byte list) list"
  accepts :: "nat \<Rightarrow> int \<Rightarrow> int"
  sockerrs :: "nat \<Rightarrow> int \<Rightarrow> int \<times> int"
  getfls :: "nat \<Rightarrow> int \<Rightarrow> int"
  setfls :: "nat \<Rightarrow> int \<Rightarrow> int \<Rightarrow> int"
  connects :: "nat \<Rightarrow> int \<Rightarrow> addr \<Rightarrow> nat \<Rightarrow> int \<times> bool"

type_synonym 'x lib_call = "'x lib_world_ext call"

section \<open>Variables of the caller\<close>

definition get_errc :: "addr \<Rightarrow> 'x world_scheme \<Rightarrow> io_errcode option" where
  "get_errc p w = (if p = NULL then None else Some (errcs w p))"

definition put_errc :: "addr \<Rightarrow> io_errcode \<Rightarrow> 'x world_scheme \<Rightarrow> 'x world_scheme option" where
  "put_errc p e w = (if p = NULL then None else Some (w\<lparr>errcs := (errcs w)(p := e)\<rparr>))"

definition get_size :: "addr \<Rightarrow> 'x lib_world_scheme \<Rightarrow> size option" where
  "get_size p w = (if p = NULL then None else Some (sizes w p))"

definition put_size :: "addr \<Rightarrow> size \<Rightarrow> 'x lib_world_scheme \<Rightarrow> 'x lib_world_scheme option" where
  "put_size p n w = (if p = NULL then None else Some (w\<lparr>sizes := (sizes w)(p := n)\<rparr>))"

section \<open>Bytes and transfers\<close>

definition load_bytes :: "addr \<Rightarrow> size \<Rightarrow> (addr \<Rightarrow> byte) \<Rightarrow> byte list" where
  "load_bytes buf n m = map (\<lambda>i. m (buf + of_nat i)) [0..<unat n]"

definition store_bytes :: "addr \<Rightarrow> byte list \<Rightarrow> (addr \<Rightarrow> byte) \<Rightarrow> addr \<Rightarrow> byte" where
  "store_bytes buf bs m p = (let i = unat (p - buf) in if i < length bs then bs ! i else m p)"

text \<open>\<open>read\<close> and \<open>write\<close> with their \<open>ssize_t\<close> result, \<open>-1\<close> for an error.\<close>

definition sys_read :: "int \<Rightarrow> addr \<Rightarrow> size \<Rightarrow> 'x lib_world_scheme \<Rightarrow> int \<times> 'x lib_world_scheme" where
  "sys_read f buf n w =
     (let r = reads w 0 f n; w = w\<lparr>reads := \<lambda>i. reads w (Suc i)\<rparr> in
      case r of None \<Rightarrow> (-1, w) | Some bs \<Rightarrow> (int (length bs), w\<lparr>bytes := store_bytes buf bs (bytes w)\<rparr>))"

definition sys_write :: "int \<Rightarrow> addr \<Rightarrow> size \<Rightarrow> 'x lib_world_scheme \<Rightarrow> int \<times> 'x lib_world_scheme" where
  "sys_write f buf n w =
     (let bs = load_bytes buf n (bytes w); r = writes w 0 f bs; w = w\<lparr>writes := \<lambda>i. writes w (Suc i)\<rparr> in
      case r of None \<Rightarrow> (-1, w) | Some k \<Rightarrow> (int k, w\<lparr>sent := sent w @ [(f, take k bs)]\<rparr>))"

lemma length_load_bytes [simp]: "length (load_bytes buf n m) = unat n"
  by (simp add: load_bytes_def)

lemma unat_of_nat_lt: "i < unat (n :: size) \<Longrightarrow> unat (of_nat i :: size) = i"
  using unsigned_less [of n, where ?'a = nat] by (simp add: unsigned_of_nat take_bit_nat_eq_self)

lemma unat_of_nat_le: "i \<le> unat (n :: size) \<Longrightarrow> unat (of_nat i :: size) = i"
  using unat_of_nat_lt [of i n] by (cases "i = unat n") simp_all

lemma size_sub_pos: "m \<le> unat n \<Longrightarrow> 0 < n - of_nat m \<longleftrightarrow> m < unat (n :: size)"
  by (simp add: word_less_nat_alt unat_sub_if' unat_of_nat_le)

text \<open>Bytes stored one after the other are read back in that order.\<close>

lemma load_store:
  assumes "length bs = unat n"
  shows "load_bytes buf n (store_bytes buf bs m) = bs"
  using assms by (intro nth_equalityI) (simp_all add: load_bytes_def store_bytes_def unat_of_nat_lt)

lemma load_store_append:
  assumes "unat k + length bs = unat n"
  shows "load_bytes buf n (store_bytes (buf + k) bs m) = load_bytes buf k m @ bs"
proof (rule nth_equalityI)
  show "length (load_bytes buf n (store_bytes (buf + k) bs m)) = length (load_bytes buf k m @ bs)"
    using assms by simp
  fix i assume "i < length (load_bytes buf n (store_bytes (buf + k) bs m))"
  then have i: "i < unat n" by simp
  have u: "unat (of_nat i - k) = (if i < unat k then i + 2 ^ 64 - unat k else i - unat k)"
    using unat_of_nat_lt [OF i] by (simp add: unat_sub_if')
  have "buf + of_nat i - (buf + k) = of_nat i - k" by simp
  then show "load_bytes buf n (store_bytes (buf + k) bs m) ! i = (load_bytes buf k m @ bs) ! i"
    using i assms unsigned_less [of n, where ?'a = nat] u by (auto simp: load_bytes_def store_bytes_def nth_append Let_def)
qed

lemma load_drop:
  assumes "k \<le> unat N"
  shows "load_bytes (b0 + of_nat k) (N - of_nat k) m = drop k (load_bytes b0 N m)"
proof -
  have "unat (N - of_nat k) = unat N - k"
    using assms by (simp add: unat_sub_if' unat_of_nat_le)
  then show ?thesis
    by (intro nth_equalityI) (auto simp: load_bytes_def add.assoc less_diff_conv add.commute [of _ k])
qed

section \<open>A world for the modules\<close>

text \<open>A new service, no context allocated, and system calls that fail.\<close>

definition fresh_lib :: lib_world where
  "fresh_lib = world.extend fresh_world \<lparr>task_groups = Map.empty, rw_ctxs = Map.empty, accept_ctxs = Map.empty,
     conn_ctxs = Map.empty, sizes = (\<lambda>_. 0), bytes = (\<lambda>_. 0), reads = (\<lambda>_ _ _. None), writes = (\<lambda>_ _ _. None),
     sent = [], accepts = (\<lambda>_ _. -1), sockerrs = (\<lambda>_ _. (-1, 0)), getfls = (\<lambda>_ _. -1), setfls = (\<lambda>_ _ _. -1),
     connects = (\<lambda>_ _ _ _. (-1, False)) \<rparr>"

definition demo_code :: lib_code where
  "demo_code = \<lparr>fn_task_group_callback = 256, fn_rw_some_impl = 272, fn_rw_impl = 288, fn_connect_impl = 304, fn_accept_impl = 320\<rparr>"

end
