(* ===== verification/Task_Group.thy ===== *)
theory Task_Group
  imports Lib_World
begin

text \<open>
  \<open>src/task_group.c\<close>: a handler that counts its invocations down and calls another handler at the
  last one. The counter is a \<open>size_t\<close>, a 64-bit word.
\<close>

section \<open>The operations\<close>

definition task_group_callback ::
  "'x lib_call \<Rightarrow> addr \<Rightarrow> 'x lib_world_scheme \<Rightarrow> 'x lib_world_scheme option"
where
  "task_group_callback call arg w =
     do { c \<leftarrow> task_groups w arg;
          let left = remaining_tasks c - 1;
          let w = w\<lparr>task_groups := (task_groups w)(arg \<mapsto> c\<lparr>remaining_tasks := left\<rparr>)\<rparr>;
          if left = 0
          then do { w \<leftarrow> invoke call (tg_hnd c) w;
                    _ \<leftarrow> task_groups w arg;
                    Some (w\<lparr>task_groups := (task_groups w)(arg := None)\<rparr>) }
          else Some w }"

definition make_task_group ::
  "lib_code \<Rightarrow> size \<Rightarrow> io_handler \<Rightarrow> 'x lib_world_scheme \<Rightarrow> io_handler \<times> 'x lib_world_scheme"
where
  "make_task_group code num_tasks hnd w =
     (let (p, w) = next_malloc w in
      case p of
        None \<Rightarrow> (\<lparr>callback = NULL, ctx = NULL\<rparr>, w)
      | Some a \<Rightarrow> (\<lparr>callback = fn_task_group_callback code, ctx = a\<rparr>,
                   w\<lparr>task_groups := (task_groups w)(a \<mapsto> \<lparr>remaining_tasks = num_tasks, tg_hnd = hnd\<rparr>)\<rparr>))"

section \<open>Counting down\<close>

text \<open>Completions of the group's tasks, each after some other work \<open>f\<close> that leaves the group alone.\<close>

primrec tg_run ::
  "'x lib_call \<Rightarrow> addr \<Rightarrow> ('x lib_world_scheme \<Rightarrow> 'x lib_world_scheme) list \<Rightarrow> 'x lib_world_scheme
    \<Rightarrow> 'x lib_world_scheme option"
where
  "tg_run call arg [] w = Some w"
| "tg_run call arg (f # fs) w = do { w \<leftarrow> task_group_callback call arg (f w); tg_run call arg fs w }"

definition leaves_group :: "addr \<Rightarrow> ('x lib_world_scheme \<Rightarrow> 'x lib_world_scheme) \<Rightarrow> bool" where
  "leaves_group arg f \<longleftrightarrow> (\<forall>w. task_groups (f w) arg = task_groups w arg \<and> calls (f w) = calls w)"

lemma task_group_step:
  assumes "task_groups w arg = Some \<lparr>remaining_tasks = n, tg_hnd = hnd\<rparr>" and "n \<noteq> 1"
  shows "task_group_callback call arg w =
    Some (w\<lparr>task_groups := (task_groups w)(arg \<mapsto> \<lparr>remaining_tasks = n - 1, tg_hnd = hnd\<rparr>)\<rparr>)"
  using assms by (simp add: task_group_callback_def)

lemma tg_run_pending:
  assumes "task_groups w arg = Some \<lparr>remaining_tasks = n, tg_hnd = hnd\<rparr>"
    and "\<forall>f \<in> set fs. leaves_group arg f" and "length fs \<le> unat (n - 1)"
  shows "\<exists>w'. tg_run call arg fs w = Some w' \<and> calls w' = calls w
    \<and> task_groups w' arg = Some \<lparr>remaining_tasks = n - of_nat (length fs), tg_hnd = hnd\<rparr>"
  using assms
proof (induction fs arbitrary: w n)
  case (Cons f fs)
  have n: "n \<noteq> 1" "n - 1 \<noteq> 0" "Suc (length fs) \<le> unat (n - 1)"
    using Cons.prems(3) by auto
  have f: "task_groups (f w) arg = Some \<lparr>remaining_tasks = n, tg_hnd = hnd\<rparr>" "calls (f w) = calls w"
    using Cons.prems(1,2) by (simp_all add: leaves_group_def)
  let ?w = "(f w)\<lparr>task_groups := (task_groups (f w))(arg \<mapsto> \<lparr>remaining_tasks = n - 1, tg_hnd = hnd\<rparr>)\<rparr>"
  have "unat (n - 1 - 1) = unat (n - 1) - 1"
    using n(2) by (rule unat_minus_one)
  then have "length fs \<le> unat (n - 1 - 1)"
    using n(3) by simp
  then obtain w' where "tg_run call arg fs ?w = Some w'" "calls w' = calls ?w"
      "task_groups w' arg = Some \<lparr>remaining_tasks = n - 1 - of_nat (length fs), tg_hnd = hnd\<rparr>"
    using Cons.IH [of ?w "n - 1"] Cons.prems(2) by auto
  then show ?case
    using f task_group_step [OF f(1) n(1)] by (simp add: algebra_simps)
qed simp

section \<open>Properties\<close>

text \<open>
  C37. A group of \<open>num_tasks\<close> tasks, at least one, calls its handler at the last completion and not
  before, whatever else runs between completions, and then releases its context.
\<close>

theorem task_group_completes:
  assumes "num_tasks \<noteq> 0" and "mallocs w 0 = Some a"
    and "length fs = unat num_tasks - 1" and "\<forall>f \<in> set fs. leaves_group a f" and "leaves_group a g"
  shows "\<exists>w1 w2. make_task_group code num_tasks hnd w = (\<lparr>callback = fn_task_group_callback code, ctx = a\<rparr>, w1)
    \<and> tg_run call a fs w1 = Some w2 \<and> calls w2 = calls w \<and> task_groups w2 a \<noteq> None
    \<and> task_group_callback call a (g w2) =
        do { w3 \<leftarrow> invoke call hnd ((g w2)\<lparr>task_groups := (task_groups (g w2))(a \<mapsto> \<lparr>remaining_tasks = 0, tg_hnd = hnd\<rparr>)\<rparr>);
             _ \<leftarrow> task_groups w3 a;
             Some (w3\<lparr>task_groups := (task_groups w3)(a := None)\<rparr>) }"
proof -
  define w1 where "w1 = w\<lparr>mallocs := \<lambda>n. mallocs w (Suc n),
    task_groups := (task_groups w)(a \<mapsto> \<lparr>remaining_tasks = num_tasks, tg_hnd = hnd\<rparr>)\<rparr>"
  have m: "make_task_group code num_tasks hnd w = (\<lparr>callback = fn_task_group_callback code, ctx = a\<rparr>, w1)"
    using assms(2) by (simp add: make_task_group_def next_malloc_def w1_def)
  have len: "length fs = unat (num_tasks - 1)"
    using assms(3) unat_minus_one [OF assms(1)] by simp
  then have "of_nat (length fs) = num_tasks - 1"
    by simp
  then obtain w2 where w2: "tg_run call a fs w1 = Some w2" "calls w2 = calls w1"
      "task_groups w2 a = Some \<lparr>remaining_tasks = 1, tg_hnd = hnd\<rparr>"
    using tg_run_pending [of w1 a num_tasks hnd fs call] assms(4) len by (auto simp: w1_def)
  then have "task_groups (g w2) a = Some \<lparr>remaining_tasks = 1, tg_hnd = hnd\<rparr>"
    using assms(5) by (simp add: leaves_group_def)
  then show ?thesis
    using m w2 by (intro exI [of _ w1] exI [of _ w2]) (simp add: task_group_callback_def, simp add: w1_def)
qed

theorem task_group_completes_witness:
  "\<exists>w1 w2. make_task_group demo_code 2 \<lparr>callback = 16, ctx = 0\<rparr> fresh_lib = (\<lparr>callback = 256, ctx = 8\<rparr>, w1)
    \<and> tg_run (\<lambda>_. Some) 8 [\<lambda>w. w] w1 = Some w2 \<and> calls w2 = []
    \<and> (\<exists>w3. task_group_callback (\<lambda>_. Some) 8 w2 = Some w3 \<and> calls w3 = [\<lparr>callback = 16, ctx = 0\<rparr>] \<and> task_groups w3 8 = None)"
proof -
  have "leaves_group 8 (\<lambda>w. w :: lib_world)" "mallocs fresh_lib 0 = Some 8" "calls fresh_lib = []"
    by (simp_all add: leaves_group_def fresh_lib_def fresh_world_def world.extend_def)
  then show ?thesis
    using task_group_completes [of 2 fresh_lib 8 "[\<lambda>w. w]" "\<lambda>w. w" demo_code "\<lparr>callback = 16, ctx = 0\<rparr>" "\<lambda>_. Some"]
    by (auto simp: demo_code_def invoke_def simp del: tg_run.simps)
qed

text \<open>A group of no tasks does not call its handler at its first invocation, nor at any of the
  \<open>2 ^ 64 - 1\<close> first ones: the counter wraps.
\<close>

lemma task_group_zero_wraps:
  assumes "mallocs w 0 = Some a" and "length fs < 2 ^ 64" and "\<forall>f \<in> set fs. leaves_group a f"
  shows "\<exists>h w1 w2. make_task_group code 0 hnd w = (h, w1) \<and> tg_run call a fs w1 = Some w2
    \<and> calls w2 = calls w \<and> task_groups w2 a \<noteq> None"
proof -
  define w1 where "w1 = w\<lparr>mallocs := \<lambda>n. mallocs w (Suc n),
    task_groups := (task_groups w)(a \<mapsto> \<lparr>remaining_tasks = 0, tg_hnd = hnd\<rparr>)\<rparr>"
  have "make_task_group code 0 hnd w = (\<lparr>callback = fn_task_group_callback code, ctx = a\<rparr>, w1)"
    using assms(1) by (simp add: make_task_group_def next_malloc_def w1_def)
  moreover have "unat (0 - 1 :: size) = 2 ^ 64 - 1"
    by (simp add: unsigned_minus_1_eq_mask mask_eq_exp_minus_1)
  then have "length fs \<le> unat (0 - 1 :: size)"
    using assms(2) by linarith
  then obtain w2 where "tg_run call a fs w1 = Some w2" "calls w2 = calls w1" "task_groups w2 a \<noteq> None"
    using tg_run_pending [of w1 a 0 hnd fs call] assms(3) by (auto simp: w1_def)
  ultimately show ?thesis
    by (auto simp: w1_def)
qed

end
