(* ===== verification/Async_Rdwr.thy ===== *)
theory Async_Rdwr
  imports Lib_World
begin

text \<open>
  \<open>src/async_rdwr.c\<close>: reads and writes on top of \<open>iosvc_sched\<close>. The \<open>_some\<close> operations make one
  system call when the descriptor is ready; the others schedule themselves again until the whole
  buffer is transferred.

  \<open>rw_impl\<close> and \<open>rw_some_impl\<close> run as handlers; \<open>call\<close> runs the user's handler. A fault is \<open>None\<close>:
  a null \<open>errc\<close> or \<open>transferred\<close>, a null handler, or a context that is not allocated.
  \<open>transfer\<close> is the specification of a whole transfer: what is delivered and which status it ends
  with, as a function of the chunks the system calls deliver.
\<close>

section \<open>The handlers\<close>

definition sys_rw :: "rw_ctx \<Rightarrow> 'x lib_world_scheme \<Rightarrow> int \<times> 'x lib_world_scheme" where
  "sys_rw c w =
     (if rw_op_type c = WAIT_READ then sys_read (rw_fd c) (rw_buf c) (rw_nbytes c) w
      else sys_write (rw_fd c) (rw_buf c) (rw_nbytes c) w)"

text \<open>The end of both handlers: the user's handler runs, then the context is freed.\<close>

definition rw_finish :: "'x lib_call \<Rightarrow> addr \<Rightarrow> 'x lib_world_scheme \<Rightarrow> 'x lib_world_scheme option" where
  "rw_finish call arg w =
     do { c \<leftarrow> rw_ctxs w arg;
          w \<leftarrow> invoke call (rw_hnd c) w;
          _ \<leftarrow> rw_ctxs w arg;
          Some (w\<lparr>rw_ctxs := (rw_ctxs w)(arg := None)\<rparr>) }"

definition rw_some_impl :: "'x lib_call \<Rightarrow> addr \<Rightarrow> 'x lib_world_scheme \<Rightarrow> 'x lib_world_scheme option" where
  "rw_some_impl call arg w =
     do { c \<leftarrow> rw_ctxs w arg;
          e \<leftarrow> get_errc (rw_errc c) w;
          w \<leftarrow> (if e = EIO_OK
               then let (bytes_transferred, w) = sys_rw c w in
                 if bytes_transferred < 0
                 then do { w \<leftarrow> put_errc (rw_errc c) EIO_SYSERR w; put_size (rw_transferred c) 0 w }
                 else put_size (rw_transferred c) (of_int bytes_transferred) w
               else Some w);
          rw_finish call arg w }"

text \<open>The bookkeeping of \<open>rw_impl\<close> after a system call that moved bytes.\<close>

definition rw_advance :: "addr \<Rightarrow> int \<Rightarrow> 'x lib_world_scheme \<Rightarrow> (rw_ctx \<times> 'x lib_world_scheme) option" where
  "rw_advance arg n w =
     do { c \<leftarrow> rw_ctxs w arg;
          t \<leftarrow> get_size (rw_transferred c) w;
          w \<leftarrow> put_size (rw_transferred c) (t + of_int n) w;
          let c = c\<lparr>rw_nbytes := rw_nbytes c - of_int n, rw_buf := rw_buf c + of_int n\<rparr>;
          Some (c, w\<lparr>rw_ctxs := (rw_ctxs w)(arg \<mapsto> c)\<rparr>) }"

definition rw_impl :: "lib_code \<Rightarrow> 'x lib_call \<Rightarrow> addr \<Rightarrow> 'x lib_world_scheme \<Rightarrow> 'x lib_world_scheme option" where
  "rw_impl code call arg w =
     do { c \<leftarrow> rw_ctxs w arg;
          e \<leftarrow> get_errc (rw_errc c) w;
          if e \<noteq> EIO_OK then rw_finish call arg w
          else let (bytes_transferred, w) = sys_rw c w in
            if bytes_transferred \<le> 0
            then do { w \<leftarrow> put_errc (rw_errc c) (if bytes_transferred = 0 then EIO_EOF else EIO_SYSERR) w;
                      rw_finish call arg w }
            else do {
              (c, w) \<leftarrow> rw_advance arg bytes_transferred w;
              if rw_nbytes c > 0
              then do {
                (errc, w) \<leftarrow> iosvc_sched \<lparr>ev_fd = rw_fd c, ev_wait_type = rw_op_type c\<rparr>
                               \<lparr>callback = fn_rw_impl code, ctx = arg\<rparr> (rw_errc c) w;
                if errcode_true errc
                then do { w \<leftarrow> put_errc (rw_errc c) errc w; rw_finish call arg w }
                else Some w }
              else rw_finish call arg w } }"

section \<open>Starting an operation\<close>

definition async_rw_sched ::
  "int \<Rightarrow> addr \<Rightarrow> size \<Rightarrow> io_handler \<Rightarrow> addr \<Rightarrow> addr \<Rightarrow> io_wait_type \<Rightarrow> addr \<Rightarrow> 'x lib_world_scheme
    \<Rightarrow> (io_errcode \<times> 'x lib_world_scheme) option"
where
  "async_rw_sched f buf nbytes hnd transferred errc op_type impl_callback w =
     (let (p, w) = next_malloc w in
      case p of
        None \<Rightarrow> Some (EIO_NOMEM, w)
      | Some a \<Rightarrow>
          do { let w = w\<lparr>rw_ctxs := (rw_ctxs w)(a \<mapsto> \<lparr>rw_hnd = hnd, rw_buf = buf, rw_nbytes = nbytes,
                  rw_transferred = transferred, rw_errc = errc, rw_fd = f, rw_op_type = op_type\<rparr>)\<rparr>;
               w \<leftarrow> put_size transferred 0 w;
               iosvc_sched \<lparr>ev_fd = f, ev_wait_type = op_type\<rparr> \<lparr>callback = impl_callback, ctx = a\<rparr> errc w })"

definition async_read_some ::
  "lib_code \<Rightarrow> int \<Rightarrow> addr \<Rightarrow> size \<Rightarrow> io_handler \<Rightarrow> addr \<Rightarrow> addr \<Rightarrow> 'x lib_world_scheme
    \<Rightarrow> (io_errcode \<times> 'x lib_world_scheme) option"
where
  "async_read_some code f buf nbytes hnd transferred errc =
     async_rw_sched f buf nbytes hnd transferred errc WAIT_READ (fn_rw_some_impl code)"

definition async_read ::
  "lib_code \<Rightarrow> int \<Rightarrow> addr \<Rightarrow> size \<Rightarrow> io_handler \<Rightarrow> addr \<Rightarrow> addr \<Rightarrow> 'x lib_world_scheme
    \<Rightarrow> (io_errcode \<times> 'x lib_world_scheme) option"
where
  "async_read code f buf nbytes hnd transferred errc =
     async_rw_sched f buf nbytes hnd transferred errc WAIT_READ (fn_rw_impl code)"

definition async_write_some ::
  "lib_code \<Rightarrow> int \<Rightarrow> addr \<Rightarrow> size \<Rightarrow> io_handler \<Rightarrow> addr \<Rightarrow> addr \<Rightarrow> 'x lib_world_scheme
    \<Rightarrow> (io_errcode \<times> 'x lib_world_scheme) option"
where
  "async_write_some code f buf nbytes hnd transferred errc =
     async_rw_sched f buf nbytes hnd transferred errc WAIT_WRITE (fn_rw_some_impl code)"

definition async_write ::
  "lib_code \<Rightarrow> int \<Rightarrow> addr \<Rightarrow> size \<Rightarrow> io_handler \<Rightarrow> addr \<Rightarrow> addr \<Rightarrow> 'x lib_world_scheme
    \<Rightarrow> (io_errcode \<times> 'x lib_world_scheme) option"
where
  "async_write code f buf nbytes hnd transferred errc =
     async_rw_sched f buf nbytes hnd transferred errc WAIT_WRITE (fn_rw_impl code)"

section \<open>One step of a transfer\<close>

text \<open>\<open>rw_pending w arg c\<close>: the operation with context \<open>c\<close> at \<open>arg\<close> has been woken without error.\<close>

definition rw_pending :: "'x lib_world_scheme \<Rightarrow> addr \<Rightarrow> rw_ctx \<Rightarrow> bool" where
  "rw_pending w arg c \<longleftrightarrow> rw_ctxs w arg = Some c \<and> rw_transferred c \<noteq> NULL \<and> rw_errc c \<noteq> NULL
     \<and> errcs w (rw_errc c) = EIO_OK"

definition rw_moved :: "addr \<Rightarrow> rw_ctx \<Rightarrow> nat \<Rightarrow> 'x lib_world_scheme \<Rightarrow> 'x lib_world_scheme" where
  "rw_moved arg c n w = w\<lparr>sizes := (sizes w)(rw_transferred c := sizes w (rw_transferred c) + of_nat n),
     rw_ctxs := (rw_ctxs w)(arg \<mapsto> c\<lparr>rw_nbytes := rw_nbytes c - of_nat n, rw_buf := rw_buf c + of_nat n\<rparr>)\<rparr>"

text \<open>The rest of a step once \<open>n\<close> bytes have moved and more are wanted.\<close>

definition rw_again :: "lib_code \<Rightarrow> 'x lib_call \<Rightarrow> addr \<Rightarrow> rw_ctx \<Rightarrow> 'x lib_world_scheme \<Rightarrow> 'x lib_world_scheme option" where
  "rw_again code call arg c w =
     do { (errc, w) \<leftarrow> iosvc_sched \<lparr>ev_fd = rw_fd c, ev_wait_type = rw_op_type c\<rparr>
                         \<lparr>callback = fn_rw_impl code, ctx = arg\<rparr> (rw_errc c) w;
          if errcode_true errc then do { w \<leftarrow> put_errc (rw_errc c) errc w; rw_finish call arg w } else Some w }"

lemma sys_rw_keeps:
  assumes "sys_rw c w = (r, w')"
  shows "rw_ctxs w' = rw_ctxs w" "sizes w' = sizes w" "errcs w' = errcs w" "calls w' = calls w"
    "io_service.truncate w' = io_service.truncate w"
  using assms by (auto simp: sys_rw_def sys_read_def sys_write_def Let_def io_service.truncate_def
      split: if_splits option.splits)

lemma rw_impl_run:
  assumes p: "rw_pending w arg c" and r: "sys_rw c w = (r, w')" and n: "r \<le> int (unat (rw_nbytes c))"
  shows "rw_impl code call arg w =
    (if r \<le> 0 then rw_finish call arg (w'\<lparr>errcs := (errcs w)(rw_errc c := if r = 0 then EIO_EOF else EIO_SYSERR)\<rparr>)
     else if nat r < unat (rw_nbytes c) then rw_again code call arg c (rw_moved arg c (nat r) w')
     else rw_finish call arg (rw_moved arg c (nat r) w'))"
proof -
  note keep = sys_rw_keeps [OF r]
  have ok: "get_errc (rw_errc c) w = Some EIO_OK" "rw_ctxs w arg = Some c"
      "get_size (rw_transferred c) w' = Some (sizes w (rw_transferred c))" "rw_ctxs w' arg = Some c"
    using p keep by (auto simp: rw_pending_def get_errc_def get_size_def)
  show ?thesis
  proof (cases "r \<le> 0")
    case True
    then show ?thesis
      using p r ok keep by (simp add: rw_impl_def put_errc_def rw_pending_def)
  next
    case False
    then obtain m where m: "r = int m"
      by (metis linear nonneg_int_cases)
    have "rw_advance arg r w' = Some (c\<lparr>rw_nbytes := rw_nbytes c - of_nat m, rw_buf := rw_buf c + of_nat m\<rparr>, rw_moved arg c m w')"
      using p ok keep(2) by (simp add: rw_advance_def put_size_def rw_moved_def rw_pending_def m Let_def)
    moreover have "rw_nbytes c - of_nat m > 0 \<longleftrightarrow> m < unat (rw_nbytes c)"
      using n m by (intro size_sub_pos) linarith
    ultimately show ?thesis
      using False r ok m by (simp add: rw_impl_def rw_again_def cong: if_cong)
  qed
qed

section \<open>Whole transfers\<close>

text \<open>The abstract transfer of \<open>N\<close> bytes: \<open>acc\<close> has been moved, \<open>r\<close> is what the next system call moves;
  the second component is the final status once there is one.\<close>

definition xfer_step :: "nat \<Rightarrow> byte list \<Rightarrow> byte list option \<Rightarrow> byte list \<times> io_errcode option" where
  "xfer_step N acc r =
     (case r of
        None \<Rightarrow> (acc, Some EIO_SYSERR)
      | Some bs \<Rightarrow> if bs = [] then (acc, Some EIO_EOF)
                   else (acc @ bs, if length (acc @ bs) < N then None else Some EIO_OK))"

text \<open>The context agrees with \<open>length acc\<close> bytes out of \<open>N\<close> moved from or to the buffer at \<open>b0\<close>.\<close>

definition rw_at :: "'x lib_world_scheme \<Rightarrow> addr \<Rightarrow> rw_ctx \<Rightarrow> addr \<Rightarrow> size \<Rightarrow> nat \<Rightarrow> bool" where
  "rw_at w arg c b0 N k \<longleftrightarrow> rw_pending w arg c \<and> k < unat N \<and> rw_buf c = b0 + of_nat k
     \<and> rw_nbytes c = N - of_nat k \<and> sizes w (rw_transferred c) = of_nat k"

definition reading :: "'x lib_world_scheme \<Rightarrow> addr \<Rightarrow> rw_ctx \<Rightarrow> addr \<Rightarrow> size \<Rightarrow> byte list \<Rightarrow> bool" where
  "reading w arg c b0 N acc \<longleftrightarrow> rw_at w arg c b0 N (length acc) \<and> rw_op_type c = WAIT_READ
     \<and> load_bytes b0 (of_nat (length acc)) (bytes w) = acc"

definition writing :: "'x lib_world_scheme \<Rightarrow> addr \<Rightarrow> rw_ctx \<Rightarrow> addr \<Rightarrow> size \<Rightarrow> byte list \<Rightarrow> bool" where
  "writing w arg c b0 N acc \<longleftrightarrow> rw_at w arg c b0 N (length acc) \<and> rw_op_type c \<noteq> WAIT_READ
     \<and> (\<exists>pre chunks. sent w = pre @ map (Pair (rw_fd c)) chunks \<and> concat chunks = acc)
     \<and> acc = take (length acc) (load_bytes b0 N (bytes w))"

lemma rw_at_nbytes: "rw_at w arg c b0 N k \<Longrightarrow> unat (rw_nbytes c) = unat N - k"
  by (auto simp: rw_at_def unat_sub_if' unat_of_nat_lt)

lemma rw_at_moved:
  assumes "rw_at w arg c b0 N k" "sys_rw c w = (r, w')" "k + n < unat N"
  shows "rw_at (rw_moved arg c n w') arg (c\<lparr>rw_nbytes := rw_nbytes c - of_nat n, rw_buf := rw_buf c + of_nat n\<rparr>) b0 N (k + n)"
  using assms sys_rw_keeps [OF assms(2)] by (auto simp: rw_at_def rw_moved_def rw_pending_def algebra_simps)

text \<open>Scheduling again does not touch the operation.\<close>

lemma reg_frame_lib:
  assumes "reg_frame w w'"
  shows "rw_ctxs w' = rw_ctxs w" "sizes w' = sizes w" "errcs w' = errcs w" "bytes w' = bytes w" "sent w' = sent w"
    "reads w' = reads w" "writes w' = writes w" "calls w' = calls w"
  using assms by (auto simp: reg_frame_def)

lemma reading_frame: "reading w arg c b0 N acc \<Longrightarrow> reg_frame w w' \<Longrightarrow> reading w' arg c b0 N acc"
  by (auto simp: reading_def rw_at_def rw_pending_def reg_frame_lib)

lemma writing_frame: "writing w arg c b0 N acc \<Longrightarrow> reg_frame w w' \<Longrightarrow> writing w' arg c b0 N acc"
  by (auto simp: writing_def rw_at_def rw_pending_def reg_frame_lib)

text \<open>\<open>rw_ends\<close>: the handler is about to run, with status \<open>st\<close> and \<open>n\<close> bytes reported.\<close>

definition rw_ends :: "'x lib_world_scheme \<Rightarrow> 'x lib_world_scheme \<Rightarrow> addr \<Rightarrow> rw_ctx \<Rightarrow> io_errcode \<Rightarrow> nat \<Rightarrow> bool" where
  "rw_ends w w' arg c st n \<longleftrightarrow> (\<exists>c'. rw_ctxs w' arg = Some c' \<and> rw_hnd c' = rw_hnd c)
     \<and> errcs w' (rw_errc c) = st \<and> sizes w' (rw_transferred c) = of_nat n \<and> calls w' = calls w"

lemma rw_impl_step:
  assumes at: "rw_at w arg c b0 N k" and r: "sys_rw c w = (r, w')" and n: "r \<le> int (unat (rw_nbytes c))"
  obtains (failed) w1 where "r \<le> 0" "rw_impl code call arg w = rw_finish call arg w1" "bytes w1 = bytes w'" "sent w1 = sent w'"
      "rw_ends w w1 arg c (if r = 0 then EIO_EOF else EIO_SYSERR) k"
  | (more) n c' where "r = int n" "0 < n" "k + n < unat N" "rw_impl code call arg w = rw_again code call arg c (rw_moved arg c n w')"
      "rw_at (rw_moved arg c n w') arg c' b0 N (k + n)" "rw_op_type c' = rw_op_type c" "rw_fd c' = rw_fd c" "rw_hnd c' = rw_hnd c"
      "rw_errc c' = rw_errc c" "rw_transferred c' = rw_transferred c"
  | (finished) n where "r = int n" "0 < n" "k + n = unat N" "rw_impl code call arg w = rw_finish call arg (rw_moved arg c n w')"
      "rw_ends w (rw_moved arg c n w') arg c EIO_OK (k + n)"
proof -
  have p: "rw_pending w arg c" and k: "k < unat N" "sizes w (rw_transferred c) = of_nat k"
    using at by (auto simp: rw_at_def)
  note run = rw_impl_run [OF p r n, of code call] and keep = sys_rw_keeps [OF r]
  have nb: "unat (rw_nbytes c) = unat N - k" using rw_at_nbytes [OF at] .
  consider "r \<le> 0" | "0 < r" "k + nat r < unat N" | "0 < r" "k + nat r = unat N"
    using n nb k(1) by linarith
  then show ?thesis
  proof cases
    case 1
    show ?thesis
      by (rule failed [OF 1, of "w'\<lparr>errcs := (errcs w)(rw_errc c := if r = 0 then EIO_EOF else EIO_SYSERR)\<rparr>"])
        (use 1 run keep p k in \<open>auto simp: rw_ends_def rw_pending_def\<close>)
  next
    case 2
    show ?thesis
      by (rule more [OF _ _ 2(2) _ rw_at_moved [OF at r 2(2)]]) (use 2 run nb in auto)
  next
    case 3
    then have N: "(of_nat k :: size) + of_int r = N"
      using of_nat_add [of k "nat r", where ?'a = "64 word"] by simp
    show ?thesis
      by (rule finished [OF _ _ 3(2)]) (use 3 run nb k keep p N in \<open>auto simp: rw_ends_def rw_moved_def rw_pending_def\<close>)
  qed
qed

lemma rw_moved_sel [simp]: "bytes (rw_moved arg c n w) = bytes w" "sent (rw_moved arg c n w) = sent w"
  by (simp_all add: rw_moved_def)

lemma load_more:
  assumes "load_bytes b0 (of_nat (length acc)) m = acc" "length acc + length bs \<le> unat (N :: size)"
  shows "load_bytes b0 (of_nat (length (acc @ bs))) (store_bytes (b0 + of_nat (length acc)) bs m) = acc @ bs"
  using assms unat_of_nat_le [of "length acc" N] unat_of_nat_le [of "length acc + length bs" N]
  by (subst load_store_append) auto

section \<open>Properties\<close>


definition demo_rw_ctx :: "io_wait_type \<Rightarrow> rw_ctx" where
  "demo_rw_ctx t = \<lparr>rw_hnd = \<lparr>callback = 16, ctx = 0\<rparr>, rw_buf = 1000, rw_nbytes = 3, rw_transferred = 8, rw_errc = 24,
     rw_fd = 5, rw_op_type = t\<rparr>"

definition demo_rw :: "io_wait_type \<Rightarrow> lib_world" where
  "demo_rw t = fresh_lib\<lparr>rw_ctxs := [64 \<mapsto> demo_rw_ctx t], reads := \<lambda>_ _ _. Some [7, 9], writes := \<lambda>_ _ _. Some 2\<rparr>"

lemma demo_rw_at: "rw_at (demo_rw t) 64 (demo_rw_ctx t) 1000 3 0"
  by (simp add: rw_at_def rw_pending_def demo_rw_def demo_rw_ctx_def fresh_lib_def fresh_world_def world.extend_def)


text \<open>Each time \<open>async_write\<close>'s handler is woken it does one step of the abstract transfer: the bytes
  the kernel has taken since the start are, in order, the first bytes of the buffer, whether the
  transfer continues or ends; it ends with the abstract status and reports that many bytes. The one
  assumption is that \<open>write\<close> does not take more bytes than offered.
\<close>

lemma rw_impl_write_refines:
  assumes st: "writing w arg c b0 N acc"
    and chunk: "writes w 0 (rw_fd c) (drop (length acc) (load_bytes b0 N (bytes w))) = r"
    and posix: "r \<noteq> None \<Longrightarrow> the r \<le> unat (rw_nbytes c)"
  shows "case xfer_step (unat N) acc (map_option (\<lambda>k. take k (drop (length acc) (load_bytes b0 N (bytes w)))) r) of
      (acc', Some est) \<Rightarrow> acc' = take (length acc') (load_bytes b0 N (bytes w))
          \<and> (\<exists>w1. rw_impl code call arg w = rw_finish call arg w1 \<and> rw_ends w w1 arg c est (length acc')
              \<and> (\<exists>pre chunks. sent w1 = pre @ map (Pair (rw_fd c)) chunks \<and> concat chunks = acc'))
    | (acc', None) \<Rightarrow> \<exists>w1 c'. rw_impl code call arg w = rw_again code call arg c w1
          \<and> writing w1 arg c' b0 N acc' \<and> rw_hnd c' = rw_hnd c
          \<and> (\<forall>e w2. iosvc_sched \<lparr>ev_fd = rw_fd c, ev_wait_type = rw_op_type c\<rparr> \<lparr>callback = fn_rw_impl code, ctx = arg\<rparr>
                (rw_errc c) w1 = Some (e, w2) \<longrightarrow> writing w2 arg c' b0 N acc')"
proof -
  let ?data = "load_bytes b0 N (bytes w)"
  let ?rest = "drop (length acc) ?data"
  have at: "rw_at w arg c b0 N (length acc)" and op: "rw_op_type c \<noteq> WAIT_READ" and acc: "acc = take (length acc) ?data"
    using st by (auto simp: writing_def)
  obtain pre chunks where out: "sent w = pre @ map (Pair (rw_fd c)) chunks" "concat chunks = acc"
    using st by (auto simp: writing_def)
  have nb: "length acc < unat N" "unat (rw_nbytes c) = unat N - length acc"
    using at rw_at_nbytes [OF at] by (auto simp: rw_at_def)
  then have rest: "load_bytes (rw_buf c) (rw_nbytes c) (bytes w) = ?rest"
    using at load_drop [of "length acc" N] by (simp add: rw_at_def)
  show ?thesis
  proof (cases r)
    case None
    then have s: "sys_rw c w = (-1, w\<lparr>writes := \<lambda>i. writes w (Suc i)\<rparr>)"
      using op chunk rest by (simp add: sys_rw_def sys_write_def)
    have lei: "-1 \<le> int (unat (rw_nbytes c))"
      by (rule order_trans [of _ 0]) simp_all
    show ?thesis
      using None acc out by (cases rule: rw_impl_step [OF at s lei, of code call]) (auto simp: xfer_step_def)
  next
    case (Some k)
    let ?bs = "take k ?rest"
    let ?w1 = "w\<lparr>writes := \<lambda>i. writes w (Suc i), sent := sent w @ [(rw_fd c, ?bs)]\<rparr>"
    have s: "sys_rw c w = (int k, ?w1)"
      using Some op chunk rest by (simp add: sys_rw_def sys_write_def)
    have le: "k \<le> unat (rw_nbytes c)"
      using posix Some by simp
    then have len: "length ?bs = k" "length (acc @ ?bs) = length acc + k"
      using nb by simp_all
    have pf: "acc @ ?bs = take (length (acc @ ?bs)) ?data"
      unfolding len(2) using acc by (metis take_add)
    have out': "sent ?w1 = pre @ map (Pair (rw_fd c)) (chunks @ [?bs]) \<and> concat (chunks @ [?bs]) = acc @ ?bs"
      using out by simp
    have nil: "?bs = [] \<longleftrightarrow> k = 0"
      using len(1) by auto
    from le have lei: "int k \<le> int (unat (rw_nbytes c))" by (rule zle_int [THEN iffD2])
    from at s lei show ?thesis
    proof (cases rule: rw_impl_step [where code = code and call = call])
      case (failed w1)
      then have out1: "sent w1 = pre @ map (Pair (rw_fd c)) (chunks @ [?bs]) \<and> concat (chunks @ [?bs]) = acc" "k = 0"
        using out' nil by simp_all
      have xs: "xfer_step (unat N) acc (map_option (\<lambda>k. take k ?rest) r) = (acc, Some EIO_EOF)"
        using Some \<open>k = 0\<close> by (simp add: xfer_step_def)
      have "rw_ends w w1 arg c EIO_EOF (length acc)"
        using failed(5) \<open>k = 0\<close> by simp
      then show ?thesis
        unfolding xs prod.case option.case using failed(2) acc out1(1) by blast
    next
      case (more n c')
      have wr: "writing (rw_moved arg c n ?w1) arg c' b0 N (acc @ ?bs)"
      proof -
        have "rw_at (rw_moved arg c n ?w1) arg c' b0 N (length (acc @ ?bs))"
          using more(1,5) len(2) by simp
        moreover have "bytes ?w1 = bytes w" by simp
        ultimately show ?thesis
          unfolding writing_def rw_moved_sel more(6,7) using op pf out' by metis
      qed
      have xs: "xfer_step (unat N) acc (map_option (\<lambda>k. take k ?rest) r) = (acc @ ?bs, None)"
        using Some more nil len(2) by (auto simp: xfer_step_def)
      show ?thesis
        unfolding xs prod.case option.case
        using wr more(4,8) writing_frame [OF wr iosvc_sched_frame] by blast
    next
      case (finished n)
      have en: "rw_ends w (rw_moved arg c n ?w1) arg c EIO_OK (length (acc @ ?bs))"
        using finished(1,5) len(2) by simp
      have xs: "xfer_step (unat N) acc (map_option (\<lambda>k. take k ?rest) r) = (acc @ ?bs, Some EIO_OK)"
        using Some nil len(2) finished(1-3) by (auto simp: xfer_step_def)
      show ?thesis
        unfolding xs prod.case option.case using finished(4) pf out' en rw_moved_sel(2) by metis
    qed
  qed
qed

text \<open>Starting a read of \<open>N\<close> bytes allocates a context and asks the service for the descriptor to become
  readable. Once the service reports success through \<open>errc\<close>, the transfer is at its start: nothing
  moved, all of \<open>N\<close> wanted.
\<close>

lemma async_read_starts:
  assumes "mallocs w 0 = Some a" and "transferred \<noteq> NULL" "errc \<noteq> NULL" "N > 0"
  shows "\<exists>w1 c. async_read code f buf N hnd transferred errc w =
        iosvc_sched \<lparr>ev_fd = f, ev_wait_type = WAIT_READ\<rparr> \<lparr>callback = fn_rw_impl code, ctx = a\<rparr> errc w1
    \<and> rw_hnd c = hnd \<and> rw_fd c = f
    \<and> (\<forall>e w2. async_read code f buf N hnd transferred errc w = Some (e, w2) \<longrightarrow>
          reading (put_status errc EIO_OK w2) a c buf N [])"
proof -
  let ?c = "\<lparr>rw_hnd = hnd, rw_buf = buf, rw_nbytes = N, rw_transferred = transferred, rw_errc = errc, rw_fd = f, rw_op_type = WAIT_READ\<rparr>"
  define w1 where "w1 = w\<lparr>mallocs := \<lambda>n. mallocs w (Suc n), rw_ctxs := (rw_ctxs w)(a \<mapsto> ?c), sizes := (sizes w)(transferred := 0)\<rparr>"
  have r: "async_read code f buf N hnd transferred errc w =
      iosvc_sched \<lparr>ev_fd = f, ev_wait_type = WAIT_READ\<rparr> \<lparr>callback = fn_rw_impl code, ctx = a\<rparr> errc w1"
    using assms by (simp add: async_read_def async_rw_sched_def next_malloc_def put_size_def w1_def)
  have "reading (put_status errc EIO_OK w2) a ?c buf N []" if "reg_frame w1 w2" for w2
    using reg_frame_lib [OF that] assms
    by (simp add: reading_def rw_at_def rw_pending_def put_status_def load_bytes_def w1_def unat_gt_0)
  then show ?thesis
    using r by (intro exI [of _ w1] exI [of _ ?c]) (auto dest: iosvc_sched_frame)
qed

text \<open>
  C38. Starting a read or a write on a service that has stopped fails and leaves the allocated context
  behind: no handler refers to it.
\<close>

theorem async_rw_leaks:
  assumes "mallocs w 0 = Some a" and "transferred \<noteq> NULL" and "svc_status w \<in> {STOPPING, DONE}"
  shows "\<exists>w'. async_rw_sched f buf nbytes hnd transferred errc t impl w = Some (EIO_STOPPED, w')
    \<and> rw_ctxs w' a \<noteq> None \<and> async_handlers w' = async_handlers w"
  using assms by (auto simp: async_rw_sched_def next_malloc_def put_size_def iosvc_sched_def iosvc_enqueue_def)

theorem async_rw_leaks_witness:
  "\<exists>w'. async_rw_sched 5 1000 3 \<lparr>callback = 16, ctx = 0\<rparr> 8 24 WAIT_READ 288 (fresh_lib\<lparr>svc_status := DONE\<rparr>) = Some (EIO_STOPPED, w')
    \<and> rw_ctxs w' 8 \<noteq> None"
  using async_rw_leaks [of "fresh_lib\<lparr>svc_status := DONE\<rparr>" 8 8 5 1000 3 "\<lparr>callback = 16, ctx = 0\<rparr>" 24 WAIT_READ 288]
  by (auto simp: fresh_lib_def fresh_world_def world.extend_def)

end
