(* ===== verification/Async_Net.thy ===== *)
theory Async_Net
  imports Lib_World
begin

text \<open>
  \<open>src/async_net.c\<close>: accepting and connecting on top of \<open>iosvc_sched\<close>. The socket calls are read off
  the world in call order: \<open>accepts\<close> the descriptor or \<open>-1\<close>, \<open>sockerrs\<close> the result of \<open>getsockopt\<close> with
  the socket error it stores, \<open>getfls\<close> and \<open>setfls\<close> the two uses of \<open>fcntl\<close>, \<open>connects\<close> the result
  with whether \<open>errno\<close> is \<open>EINPROGRESS\<close>. The peer address that \<open>accept\<close> stores is the kernel's, and
  is not part of the model.
\<close>

unbundle bit_operations_syntax

section \<open>The socket calls\<close>

definition O_NONBLOCK :: int where
  "O_NONBLOCK = 2048"

definition sys_accept :: "int \<Rightarrow> 'x lib_world_scheme \<Rightarrow> int \<times> 'x lib_world_scheme" where
  "sys_accept s w = (accepts w 0 s, w\<lparr>accepts := \<lambda>i. accepts w (Suc i)\<rparr>)"

definition sys_sockerr :: "int \<Rightarrow> 'x lib_world_scheme \<Rightarrow> (int \<times> int) \<times> 'x lib_world_scheme" where
  "sys_sockerr s w = (sockerrs w 0 s, w\<lparr>sockerrs := \<lambda>i. sockerrs w (Suc i)\<rparr>)"

definition sys_getfl :: "int \<Rightarrow> 'x lib_world_scheme \<Rightarrow> int \<times> 'x lib_world_scheme" where
  "sys_getfl s w = (getfls w 0 s, w\<lparr>getfls := \<lambda>i. getfls w (Suc i)\<rparr>)"

definition sys_setfl :: "int \<Rightarrow> int \<Rightarrow> 'x lib_world_scheme \<Rightarrow> int \<times> 'x lib_world_scheme" where
  "sys_setfl s fl w = (setfls w 0 s fl, w\<lparr>setfls := \<lambda>i. setfls w (Suc i)\<rparr>)"

definition sys_connect :: "int \<Rightarrow> addr \<Rightarrow> nat \<Rightarrow> 'x lib_world_scheme \<Rightarrow> (int \<times> bool) \<times> 'x lib_world_scheme" where
  "sys_connect s p n w = (connects w 0 s p n, w\<lparr>connects := \<lambda>i. connects w (Suc i)\<rparr>)"

section \<open>The handlers\<close>

definition connect_impl :: "'x lib_call \<Rightarrow> addr \<Rightarrow> 'x lib_world_scheme \<Rightarrow> 'x lib_world_scheme option" where
  "connect_impl call arg w =
     do { c \<leftarrow> conn_ctxs w arg;
          e \<leftarrow> get_errc (cn_errc c) w;
          w \<leftarrow> (if e = EIO_OK
               then let ((rc, conn_rc), w) = sys_sockerr (cn_sockfd c) w in
                 if rc \<noteq> 0 \<or> conn_rc \<noteq> 0 then put_errc (cn_errc c) EIO_SYSERR w else Some w
               else Some w);
          w \<leftarrow> invoke call (cn_hnd c) w;
          _ \<leftarrow> conn_ctxs w arg;
          Some (w\<lparr>conn_ctxs := (conn_ctxs w)(arg := None)\<rparr>) }"

definition accept_impl :: "'x lib_call \<Rightarrow> addr \<Rightarrow> 'x lib_world_scheme \<Rightarrow> 'x lib_world_scheme option" where
  "accept_impl call arg w =
     do { c \<leftarrow> accept_ctxs w arg;
          e \<leftarrow> get_errc (ac_errc c) w;
          w \<leftarrow> (if e = EIO_OK
               then let (s, w) = sys_accept (ac_listen_sock c) w in
                 do { w \<leftarrow> put_int (ac_new_sock c) s w;
                      if s < 0 then put_errc (ac_errc c) EIO_SYSERR w else Some w }
               else Some w);
          w \<leftarrow> invoke call (ac_hnd c) w;
          _ \<leftarrow> accept_ctxs w arg;
          Some (w\<lparr>accept_ctxs := (accept_ctxs w)(arg := None)\<rparr>) }"

section \<open>Starting an operation\<close>

definition async_accept ::
  "lib_code \<Rightarrow> int \<Rightarrow> addr \<Rightarrow> addr \<Rightarrow> io_handler \<Rightarrow> addr \<Rightarrow> addr \<Rightarrow> 'x lib_world_scheme
    \<Rightarrow> (io_errcode \<times> 'x lib_world_scheme) option"
where
  "async_accept code listen_sock peer addrlen hnd new_sock errc w =
     (let (p, w) = next_malloc w in
      case p of
        None \<Rightarrow> Some (EIO_NOMEM, w)
      | Some a \<Rightarrow>
          let w = w\<lparr>accept_ctxs := (accept_ctxs w)(a \<mapsto> \<lparr>ac_listen_sock = listen_sock, ac_addr = peer,
                ac_addrlen = addrlen, ac_hnd = hnd, ac_new_sock = new_sock, ac_errc = errc\<rparr>)\<rparr>
          in iosvc_sched \<lparr>ev_fd = listen_sock, ev_wait_type = WAIT_READ\<rparr>
               \<lparr>callback = fn_accept_impl code, ctx = a\<rparr> errc w)"

definition async_connect ::
  "lib_code \<Rightarrow> int \<Rightarrow> addr \<Rightarrow> nat \<Rightarrow> io_handler \<Rightarrow> addr \<Rightarrow> 'x lib_world_scheme
    \<Rightarrow> (io_errcode \<times> 'x lib_world_scheme) option"
where
  "async_connect code sockfd peer addrlen hnd errc w =
     (let (rc, w) = sys_getfl sockfd w in
      if rc = -1 then Some (EIO_SYSERR, w)
      else let (rc, w) = sys_setfl sockfd (rc OR O_NONBLOCK) w in
        if rc = -1 then Some (EIO_SYSERR, w)
        else let (p, w) = next_malloc w in
          case p of
            None \<Rightarrow> Some (EIO_NOMEM, w)
          | Some a \<Rightarrow>
              let w = w\<lparr>conn_ctxs := (conn_ctxs w)(a \<mapsto> \<lparr>cn_sockfd = sockfd, cn_hnd = hnd, cn_errc = errc\<rparr>)\<rparr>;
                  ((rc, in_progress), w) = sys_connect sockfd peer addrlen w
              in if rc = -1 \<and> \<not> in_progress
                 then Some (EIO_SYSERR, w\<lparr>conn_ctxs := (conn_ctxs w)(a := None)\<rparr>)
                 else iosvc_sched \<lparr>ev_fd = sockfd, ev_wait_type = WAIT_WRITE\<rparr>
                        \<lparr>callback = fn_connect_impl code, ctx = a\<rparr> errc w)"

section \<open>Properties\<close>

text \<open>
  C39. When an accept is woken without error, the caller's handler runs next with the descriptor that
  \<open>accept\<close> returned in \<open>new_sock\<close> and a status that is a success exactly when that descriptor is not
  negative; the context is released after the handler. When it is woken with an error, \<open>accept\<close> is
  not called and the status is passed on.
\<close>

theorem accept_impl_reports:
  assumes c: "accept_ctxs w arg = Some c" and ptrs: "ac_errc c \<noteq> NULL" "ac_new_sock c \<noteq> NULL"
  shows "\<exists>w1. accept_impl call arg w =
      do { w2 \<leftarrow> invoke call (ac_hnd c) w1; _ \<leftarrow> accept_ctxs w2 arg;
           Some (w2\<lparr>accept_ctxs := (accept_ctxs w2)(arg := None)\<rparr>) }
    \<and> calls w1 = calls w \<and> io_service.truncate w1 = io_service.truncate w
    \<and> (if errcs w (ac_errc c) = EIO_OK
       then ints w1 (ac_new_sock c) = accepts w 0 (ac_listen_sock c)
          \<and> (errcs w1 (ac_errc c) = (if accepts w 0 (ac_listen_sock c) < 0 then EIO_SYSERR else EIO_OK))
       else w1 = w)"
proof -
  let ?s = "accepts w 0 (ac_listen_sock c)"
  define w1 where "w1 = (if errcs w (ac_errc c) = EIO_OK
     then w\<lparr>accepts := \<lambda>i. accepts w (Suc i), ints := (ints w)(ac_new_sock c := ?s),
            errcs := (if ?s < 0 then (errcs w)(ac_errc c := EIO_SYSERR) else errcs w)\<rparr>
     else w)"
  have "accept_impl call arg w =
      do { w2 \<leftarrow> invoke call (ac_hnd c) w1; _ \<leftarrow> accept_ctxs w2 arg;
           Some (w2\<lparr>accept_ctxs := (accept_ctxs w2)(arg := None)\<rparr>) }"
    using c ptrs by (auto simp: accept_impl_def get_errc_def sys_accept_def put_int_def put_errc_def w1_def)
  moreover have "calls w1 = calls w \<and> io_service.truncate w1 = io_service.truncate w"
    by (simp add: w1_def io_service.truncate_def)
  ultimately show ?thesis
    by (intro exI [of _ w1]) (auto simp: w1_def)
qed

definition demo_accept :: lib_world where
  "demo_accept = fresh_lib\<lparr>accepts := \<lambda>_ _. 9, accept_ctxs := [64 \<mapsto> \<lparr>ac_listen_sock = 4, ac_addr = 0, ac_addrlen = 0,
     ac_hnd = \<lparr>callback = 16, ctx = 0\<rparr>, ac_new_sock = 32, ac_errc = 40\<rparr>]\<rparr>"

theorem accept_impl_reports_witness:
  "\<exists>w1. accept_impl (\<lambda>_. Some) 64 demo_accept =
      do { w2 \<leftarrow> invoke (\<lambda>_. Some) \<lparr>callback = 16, ctx = 0\<rparr> w1; _ \<leftarrow> accept_ctxs w2 64;
           Some (w2\<lparr>accept_ctxs := (accept_ctxs w2)(64 := None)\<rparr>) }
    \<and> ints w1 32 = 9 \<and> errcs w1 40 = EIO_OK"
proof -
  let ?c = "\<lparr>ac_listen_sock = 4, ac_addr = 0, ac_addrlen = 0, ac_hnd = \<lparr>callback = 16, ctx = 0\<rparr>, ac_new_sock = 32, ac_errc = 40\<rparr>"
  have "accept_ctxs demo_accept 64 = Some ?c" "errcs demo_accept 40 = EIO_OK" "accepts demo_accept 0 4 = 9"
    by (simp_all add: demo_accept_def fresh_lib_def fresh_world_def world.extend_def)
  then show ?thesis
    using accept_impl_reports [of demo_accept 64 ?c "\<lambda>_. Some"] by auto
qed

text \<open>
  A connect that cannot be started, because the socket cannot be made non-blocking or the handshake
  fails at once, returns \<open>EIO_SYSERR\<close>, and one without memory \<open>EIO_NOMEM\<close>; no context remains and the
  service is as before. Otherwise exactly the writability of the socket is asked for.
\<close>

lemma async_connect_cases:
  assumes free: "\<And>a. mallocs w 0 = Some a \<Longrightarrow> conn_ctxs w a = None"
  shows "\<exists>w'. async_connect code s peer n hnd errc w =
      (if getfls w 0 s = -1 \<or> setfls w 0 s (getfls w 0 s OR O_NONBLOCK) = -1 then Some (EIO_SYSERR, w')
       else case mallocs w 0 of None \<Rightarrow> Some (EIO_NOMEM, w')
         | Some a \<Rightarrow> if connects w 0 s peer n = (-1, False) then Some (EIO_SYSERR, w')
             else iosvc_sched \<lparr>ev_fd = s, ev_wait_type = WAIT_WRITE\<rparr> \<lparr>callback = fn_connect_impl code, ctx = a\<rparr> errc
                    (w'\<lparr>conn_ctxs := (conn_ctxs w')(a \<mapsto> \<lparr>cn_sockfd = s, cn_hnd = hnd, cn_errc = errc\<rparr>)\<rparr>))
    \<and> conn_ctxs w' = conn_ctxs w \<and> io_service.truncate w' = io_service.truncate w"
proof -
  let ?g = "w\<lparr>getfls := \<lambda>i. getfls w (Suc i)\<rparr>"
  let ?h = "?g\<lparr>setfls := \<lambda>i. setfls w (Suc i)\<rparr>"
  let ?m = "?h\<lparr>mallocs := \<lambda>i. mallocs w (Suc i)\<rparr>"
  let ?k = "?m\<lparr>connects := \<lambda>i. connects w (Suc i)\<rparr>"
  define w' where "w' = (if getfls w 0 s = -1 then ?g else if setfls w 0 s (getfls w 0 s OR O_NONBLOCK) = -1 then ?h else case mallocs w 0 of None \<Rightarrow> ?m | Some a \<Rightarrow> ?k)"
  have "conn_ctxs w' = conn_ctxs w \<and> io_service.truncate w' = io_service.truncate w"
    by (auto simp: w'_def io_service.truncate_def split: option.splits)
  moreover have "(conn_ctxs w)(a := None) = conn_ctxs w" if "mallocs w 0 = Some a" for a
    using free [OF that] by (simp add: fun_upd_idem_iff)
  then have "async_connect code s peer n hnd errc w =
      (if getfls w 0 s = -1 \<or> setfls w 0 s (getfls w 0 s OR O_NONBLOCK) = -1 then Some (EIO_SYSERR, w')
       else case mallocs w 0 of None \<Rightarrow> Some (EIO_NOMEM, w')
         | Some a \<Rightarrow> if connects w 0 s peer n = (-1, False) then Some (EIO_SYSERR, w')
             else iosvc_sched \<lparr>ev_fd = s, ev_wait_type = WAIT_WRITE\<rparr> \<lparr>callback = fn_connect_impl code, ctx = a\<rparr> errc
                    (w'\<lparr>conn_ctxs := (conn_ctxs w')(a \<mapsto> \<lparr>cn_sockfd = s, cn_hnd = hnd, cn_errc = errc\<rparr>)\<rparr>))"
    by (cases w) (auto simp: async_connect_def sys_getfl_def sys_setfl_def sys_connect_def next_malloc_def w'_def
        split: option.splits prod.splits)
  ultimately show ?thesis by blast
qed

end
