(* ===== verification/Net_Props.thy ===== *)
theory Net_Props
  imports Async_Net Svc_Props
begin

text \<open>
  Asynchronous operations on the service they are scheduled on: starting a connect on a socket the service does not know yet.
\<close>

section \<open>The steps before the registration\<close>

text \<open>The world after \<open>async_connect\<close> has made the socket non-blocking, allocated its context at \<open>c\<close> and started the handshake.\<close>

definition connecting :: "addr \<Rightarrow> conn_ctx \<Rightarrow> 'x lib_world_scheme \<Rightarrow> 'x lib_world_scheme" where
  "connecting c x w = w\<lparr>getfls := \<lambda>i. getfls w (Suc i), setfls := \<lambda>i. setfls w (Suc i), mallocs := \<lambda>i. mallocs w (Suc i),
     conn_ctxs := (conn_ctxs w)(c \<mapsto> x), connects := \<lambda>i. connects w (Suc i)\<rparr>"

lemma async_connect_registers:
  assumes "getfls w 0 s \<noteq> -1" "setfls w 0 s (getfls w 0 s OR O_NONBLOCK) \<noteq> -1" "mallocs w 0 = Some c" "connects w 0 s peer len \<noteq> (-1, False)"
  shows "async_connect code s peer len hnd errc w = iosvc_sched \<lparr>ev_fd = s, ev_wait_type = WAIT_WRITE\<rparr>
    \<lparr>callback = fn_connect_impl code, ctx = c\<rparr> errc (connecting c \<lparr>cn_sockfd = s, cn_hnd = hnd, cn_errc = errc\<rparr> w)"
  using assms
  by (cases "connects w 0 s peer len")
    (auto simp: async_connect_def sys_getfl_def sys_setfl_def sys_connect_def next_malloc_def connecting_def)

lemma connecting_sel [simp]:
  "async_handlers (connecting c x w) = async_handlers w" "svc_status (connecting c x w) = svc_status w"
  "svc_inv (connecting c x w) m = svc_inv w m" "mallocs (connecting c x w) = (\<lambda>i. mallocs w (Suc i))"
  "pollfds (connecting c x w) = pollfds w" "conn_ctxs (connecting c x w) = (conn_ctxs w)(c \<mapsto> x)"
  by (simp_all add: connecting_def svc_inv_def delay_ok_def poll_ok_def timers_ok_def events_ok_def heap_idx_ok_def events_list_def
      del: length_dynarr_list)

section \<open>Properties\<close>

text \<open>
  C40. A connect on a socket the service does not know yet, when the socket can be made non-blocking, the handshake starts,
  memory suffices and the place of the socket's new node in the tree is not below a red node on the inner side (\<open>zigzag_at\<close>): \<open>async_connect\<close> returns \<open>EIO_OK\<close>, exactly the writability of the socket is pending, for \<open>connect_impl\<close> with the
  new context, which holds the caller's handler and status variable; every other context and every other descriptor is as
  before and the service invariant is kept.
\<close>

theorem async_connect_starts:
  assumes "svc_inv w m" and "svc_status w \<in> {READY, RUNNING}" and "fn_connect_impl code \<noteq> NULL"
    and "getfls w 0 s \<noteq> -1" "setfls w 0 s (getfls w 0 s OR O_NONBLOCK) \<noteq> -1" "connects w 0 s peer len \<noteq> (-1, False)"
    and "m s = None" "rb_probe (async_handlers w) Root_ref s = Some (place, parent)" "\<not> zigzag_at (async_handlers w) place"
    and "\<forall>i. mallocs w i \<noteq> None" and "mallocs w 0 = Some c" "mallocs w (if dynarr_full (pollfds w) then 2 else 1) = Some a"
    and "a \<noteq> NULL" "aligned a" "a \<notin> ran m"
  shows "\<exists>w' n. async_connect code s peer len hnd errc w = Some (EIO_OK, w') \<and> svc_inv w' (m(s \<mapsto> a))
    \<and> node_data (async_handlers w') a = Some n \<and> {t. armed n t} = {WAIT_WRITE}
    \<and> get_evt_data n WAIT_WRITE = Some \<lparr>handler = \<lparr>callback = fn_connect_impl code, ctx = c\<rparr>, status = errc, ddl_heap_idx = -1\<rparr>
    \<and> conn_ctxs w' = (conn_ctxs w)(c \<mapsto> \<lparr>cn_sockfd = s, cn_hnd = hnd, cn_errc = errc\<rparr>)
    \<and> (\<forall>b \<in> ran m. node_data (async_handlers w') b = node_data (async_handlers w) b) \<and> calls w' = calls w"
proof -
  let ?x = "\<lparr>cn_sockfd = s, cn_hnd = hnd, cn_errc = errc\<rparr>"
  let ?v = "connecting c ?x w" and ?ev = "\<lparr>ev_fd = s, ev_wait_type = WAIT_WRITE\<rparr>" and ?h = "\<lparr>callback = fn_connect_impl code, ctx = c\<rparr>"
  have v: "svc_inv ?v m" "svc_status ?v \<in> {READY, RUNNING}" "callback ?h \<noteq> NULL" "m (ev_fd ?ev) = None"
      "rb_probe (async_handlers ?v) Root_ref (ev_fd ?ev) = Some (place, parent)" "\<not> zigzag_at (async_handlers ?v) place"
      "\<forall>i. mallocs ?v i \<noteq> None" "node_malloc ?v = Some a"
    using assms by (auto simp: node_malloc_def numeral_2_eq_2)
  obtain w' n where r: "iosvc_enqueue ?ev ?h errc ?v = Some (EIO_OK, Some a, w')" "svc_inv w' (m(ev_fd ?ev \<mapsto> a))" "registered ?v w' m a n"
      "get_evt_data n (ev_wait_type ?ev) = Some \<lparr>handler = ?h, status = errc, ddl_heap_idx = -1\<rparr>" "{u. armed n u} = {ev_wait_type ?ev}"
    using iosvc_enqueue_new [OF v(1-3,5,4,6-8) assms(13-15)] .
  have "async_connect code s peer len hnd errc w = Some (EIO_OK, w')"
    using async_connect_registers [OF assms(4,5,11,6)] r(1) by (simp add: iosvc_sched_def)
  moreover have "conn_ctxs w' = conn_ctxs ?v" "calls w' = calls ?v" "node_data (async_handlers w') a = Some n"
      "\<forall>b \<in> ran m. node_data (async_handlers w') b = node_data (async_handlers w) b"
    using r(3) assms(15) by (auto simp: registered_def)
  moreover have "calls ?v = calls w" by (simp add: connecting_def)
  ultimately show ?thesis using r(2,4,5) by auto
qed

theorem async_connect_starts_witness:
  "\<exists>w' n. async_connect demo_code 4 0 0 (demo_handler 1) 40 (fresh_lib\<lparr>getfls := \<lambda>_ _. 0, setfls := \<lambda>_ _ _. 0, connects := \<lambda>_ _ _ _. (-1, True),
        mallocs := \<lambda>i. Some (16 * (of_nat i + 1))\<rparr>) = Some (EIO_OK, w')
    \<and> svc_inv w' [4 \<mapsto> 48] \<and> {t. armed n t} = {WAIT_WRITE}
    \<and> conn_ctxs w' = [16 \<mapsto> \<lparr>cn_sockfd = 4, cn_hnd = demo_handler 1, cn_errc = 40\<rparr>]"
proof -
  let ?w = "fresh_lib\<lparr>getfls := \<lambda>_ _. 0, setfls := \<lambda>_ _ _. 0, connects := \<lambda>_ _ _ _. (-1, True), mallocs := \<lambda>i. Some (16 * (of_nat i + 1))\<rparr>"
  have f: "async_handlers ?w = async_handlers fresh_world" "pollfds ?w = pollfds fresh_world" "svc_status ?w = svc_status fresh_world"
      "conn_ctxs ?w = Map.empty" "mallocs ?w = (\<lambda>i. Some (16 * (of_nat i + 1)))"
    by (simp_all add: fresh_lib_def world.extend_def)
  have inv: "svc_inv ?w Map.empty"
    using fresh_svc_inv by (simp add: fresh_lib_def world.extend_def svc_inv_def delay_ok_def poll_ok_def timers_ok_def events_ok_def
        heap_idx_ok_def events_list_def del: length_dynarr_list)
  have h: "svc_status ?w \<in> {READY, RUNNING}" "fn_connect_impl demo_code \<noteq> NULL" "getfls ?w 0 4 \<noteq> -1"
      "setfls ?w 0 4 (getfls ?w 0 4 OR O_NONBLOCK) \<noteq> -1" "connects ?w 0 4 0 0 \<noteq> (-1, False)" "Map.empty 4 = None"
      "rb_probe (async_handlers ?w) Root_ref 4 = Some (Root_ref, NULL)" "\<not> zigzag_at (async_handlers ?w) Root_ref"
      "\<forall>i. mallocs ?w i \<noteq> None" "mallocs ?w 0 = Some 16" "mallocs ?w (if dynarr_full (pollfds ?w) then 2 else 1) = Some 48"
      "(48 :: addr) \<noteq> NULL" "aligned 48" "48 \<notin> ran Map.empty"
    using fresh_probe unfolding f
    by (simp_all add: fresh_world_def demo_code_def zigzag_at_def dynarr_full_def dynarr_init_def aligned_def)
  from async_connect_starts [OF inv h, where hnd = "demo_handler 1" and errc = 40] show ?thesis unfolding f by blast
qed

end
