(* ===== verification/Coroutine.thy ===== *)
theory Coroutine
  imports Prelude
begin

text \<open>
  \<open>include/coroutine.h\<close>: stackless coroutines by macros. The macros turn the caller's block into a
  \<open>switch\<close> whose cases lie inside the block's own loops and conditionals, so the block is a
  statement of a small language here: ordinary code on the coroutine's context of type \<open>'s\<close>,
  sequences, conditionals, loops, \<open>await\<close> with its label and \<open>co_return\<close>. The awaited statement does
  not enter the coroutine again: it schedules it.

  \<open>after\<close> is the jump to a \<open>case\<close> label: the code that remains from there on. \<open>run\<close> executes the block
  up to where it is left, \<open>async\<close> is one entry into the block and \<open>drive\<close> a number of entries.
  \<open>direct\<close> is the specification: the block executed straight through, as if \<open>await\<close> were nothing.
\<close>

section \<open>The macros\<close>

datatype 's stm =
    Do "'s \<Rightarrow> 's"
  | Seq "'s stm" "'s stm"
  | Cond "'s \<Rightarrow> bool" "'s stm" "'s stm"
  | Loop "'s \<Rightarrow> bool" "'s stm"
  | Await int "'s \<Rightarrow> 's"
  | Co_return int

type_synonym coro_state = int

definition CORO_INITIALIZER :: coro_state where
  "CORO_INITIALIZER = 0"

definition coro_is_done :: "coro_state \<Rightarrow> bool" where
  "coro_is_done state \<longleftrightarrow> state = -1"

fun after :: "int \<Rightarrow> 's stm \<Rightarrow> 's stm list \<Rightarrow> 's stm list option" where
  "after l (Do f) k = None"
| "after l (Seq a b) k = (case after l a (b # k) of None \<Rightarrow> after l b k | r \<Rightarrow> r)"
| "after l (Cond c a b) k = (case after l a k of None \<Rightarrow> after l b k | r \<Rightarrow> r)"
| "after l (Loop c a) k = after l a (Loop c a # k)"
| "after l (Await m f) k = (if l = m then Some k else None)"
| "after l (Co_return m) k = (if l = m then Some k else None)"

text \<open>
  \<open>await\<close> stores its label, executes its statement and leaves the block through \<open>_coro_break\<close>, which keeps
  the state. The statement of \<open>co_return\<close> is a \<open>break\<close>, which leaves through \<open>_coro_cont\<close>: the
  \<open>continue\<close> there executes the loop's update, \<open>-1\<close>, as does the end of the block.
\<close>

partial_function (option) run :: "'s stm list \<Rightarrow> 's \<Rightarrow> (coro_state \<times> 's) option" where
  "run k s =
     (case k of
        [] \<Rightarrow> Some (-1, s)
      | c # k \<Rightarrow>
          (case c of
             Do f \<Rightarrow> run k (f s)
           | Seq a b \<Rightarrow> run (a # b # k) s
           | Cond c a b \<Rightarrow> run ((if c s then a else b) # k) s
           | Loop c a \<Rightarrow> if c s then run (a # Loop c a # k) s else run k s
           | Await l f \<Rightarrow> Some (l, f s)
           | Co_return l \<Rightarrow> Some (-1, s)))"

declare run.simps [code]

definition async :: "'s stm \<Rightarrow> coro_state \<Rightarrow> 's \<Rightarrow> (coro_state \<times> 's) option" where
  "async block state s =
     (if coro_is_done state then Some (state, s)
      else if state = -2 then Some (-1, s)
      else if state = -3 then Some (-3, s)
      else if state = 0 then run [block] s
      else (case after state block [] of
              None \<Rightarrow> Some (-1, s)
            | Some k \<Rightarrow> run k s))"

text \<open>Entering the block \<open>n\<close> times, as the handlers the awaited statements schedule do.\<close>

primrec drive :: "nat \<Rightarrow> 's stm \<Rightarrow> coro_state \<times> 's \<Rightarrow> (coro_state \<times> 's) option" where
  "drive 0 block cs = Some cs"
| "drive (Suc n) block cs = do { cs \<leftarrow> async block (fst cs) (snd cs); drive n block cs }"

section \<open>The specification\<close>

partial_function (option) direct :: "'s stm list \<Rightarrow> 's \<Rightarrow> 's option" where
  "direct k s =
     (case k of
        [] \<Rightarrow> Some s
      | c # k \<Rightarrow>
          (case c of
             Do f \<Rightarrow> direct k (f s)
           | Seq a b \<Rightarrow> direct (a # b # k) s
           | Cond c a b \<Rightarrow> direct ((if c s then a else b) # k) s
           | Loop c a \<Rightarrow> if c s then direct (a # Loop c a # k) s else direct k s
           | Await l f \<Rightarrow> direct k (f s)
           | Co_return l \<Rightarrow> Some s))"

declare direct.simps [code]

text \<open>The labels of a block; the preprocessor's counter makes them distinct and positive.\<close>

fun labels :: "'s stm \<Rightarrow> int list" where
  "labels (Do f) = []"
| "labels (Seq a b) = labels a @ labels b"
| "labels (Cond c a b) = labels a @ labels b"
| "labels (Loop c a) = labels a"
| "labels (Await l f) = [l]"
| "labels (Co_return l) = [l]"

definition well_labelled :: "'s stm \<Rightarrow> bool" where
  "well_labelled block \<longleftrightarrow> distinct (labels block) \<and> (\<forall>l \<in> set (labels block). 0 < l)"

section \<open>Continuations\<close>

text \<open>The statements inside a block, each with what remains after it.\<close>

fun parts :: "'s stm \<Rightarrow> 's stm list \<Rightarrow> ('s stm \<times> 's stm list) set" where
  "parts (Seq a b) k = insert (Seq a b, k) (parts a (b # k) \<union> parts b k)"
| "parts (Cond c a b) k = insert (Cond c a b, k) (parts a k \<union> parts b k)"
| "parts (Loop c a) k = insert (Loop c a, k) (parts a (Loop c a # k))"
| "parts (Do f) k = {(Do f, k)}"
| "parts (Await l f) k = {(Await l f, k)}"
| "parts (Co_return l) k = {(Co_return l, k)}"

lemma parts_self: "(c, k) \<in> parts c k"
  by (cases c) auto

lemma parts_trans: "(c, k) \<in> parts p q \<Longrightarrow> parts c k \<subseteq> parts p q"
  by (induction p q rule: parts.induct) auto

lemma after_labels: "after l c k = Some k' \<Longrightarrow> l \<in> set (labels c)"
  by (induction l c k rule: after.induct) (auto split: option.splits if_splits)

lemma after_None: "l \<notin> set (labels c) \<Longrightarrow> after l c k = None"
  by (cases "after l c k") (auto dest: after_labels)

lemma parts_labels: "(Await l f, k') \<in> parts c k \<Longrightarrow> l \<in> set (labels c)"
  by (induction c k rule: parts.induct) auto

lemma parts_after:
  "(Await l f, k') \<in> parts c k \<Longrightarrow> distinct (labels c) \<Longrightarrow> after l c k = Some k'"
proof (induction c k rule: parts.induct)
  case (1 a b k)
  show ?case
  proof (cases "(Await l f, k') \<in> parts a (b # k)")
    case False
    then have "(Await l f, k') \<in> parts b k" using 1 by simp
    then have "l \<notin> set (labels a)" using 1 parts_labels by fastforce
    then have "after l a (b # k) = None" by (rule after_None)
    then show ?thesis using 1 \<open>(Await l f, k') \<in> parts b k\<close> by simp
  qed (use 1 in simp)
next
  case (2 c a b k)
  show ?case
  proof (cases "(Await l f, k') \<in> parts a k")
    case False
    then have "(Await l f, k') \<in> parts b k" using 2 by simp
    then have "l \<notin> set (labels a)" using 2 parts_labels by fastforce
    then have "after l a k = None" by (rule after_None)
    then show ?thesis using 2 \<open>(Await l f, k') \<in> parts b k\<close> by simp
  qed (use 2 in simp)
qed auto

text \<open>The continuations an execution of the block goes through.\<close>

inductive cont_of :: "'s stm \<Rightarrow> 's stm list \<Rightarrow> bool" for p where
  cont_Nil: "cont_of p []"
| cont_Cons: "(c, k) \<in> parts p [] \<Longrightarrow> cont_of p k \<Longrightarrow> cont_of p (c # k)"

inductive_cases cont_ConsE: "cont_of p (c # k)"

lemma cont_of_block: "cont_of p [p]"
  by (intro cont_of.intros parts_self)

lemma cont_of_steps:
  "cont_of p (Seq a b # k) \<Longrightarrow> cont_of p (a # b # k)" "cont_of p (Cond c a b # k) \<Longrightarrow> cont_of p (a # k) \<and> cont_of p (b # k)"
  "cont_of p (Loop c a # k) \<Longrightarrow> cont_of p (a # Loop c a # k)" "cont_of p (x # k) \<Longrightarrow> cont_of p k"
  by (auto elim!: cont_ConsE dest!: parts_trans intro!: cont_of.intros simp: parts_self subset_iff)

lemma await_resumes:
  assumes "cont_of p (Await l f # k)" and "well_labelled p"
  shows "async p l s = run k s"
proof -
  have k: "(Await l f, k) \<in> parts p []"
    using assms(1) by (auto elim: cont_ConsE)
  then have "after l p [] = Some k" "0 < l"
    using assms(2) parts_after [OF k] parts_labels [OF k] by (auto simp: well_labelled_def)
  then show ?thesis
    by (simp add: async_def coro_is_done_def)
qed

lemma drive_done: "drive n p (-1, s) = Some (-1, s)"
  by (induction n) (simp_all add: async_def coro_is_done_def)

lemma drive_add: "drive (m + n) p cs = do { cs \<leftarrow> drive m p cs; drive n p cs }"
  by (induction m arbitrary: cs) auto

section \<open>Equivalence with straight-line execution\<close>

lemma run_step [simp]:
  "run [] s = Some (-1, s)" "run (Do f # k) s = run k (f s)" "run (Seq a b # k) s = run (a # b # k) s"
  "run (Cond c a b # k) s = run ((if c s then a else b) # k) s"
  "run (Loop c a # k) s = (if c s then run (a # Loop c a # k) s else run k s)"
  "run (Await l f # k) s = Some (l, f s)" "run (Co_return l # k) s = Some (-1, s)"
  by (subst run.simps; simp)+

lemma direct_step [simp]:
  "direct [] s = Some s" "direct (Do f # k) s = direct k (f s)" "direct (Seq a b # k) s = direct (a # b # k) s"
  "direct (Cond c a b # k) s = direct ((if c s then a else b) # k) s"
  "direct (Loop c a # k) s = (if c s then direct (a # Loop c a # k) s else direct k s)"
  "direct (Await l f # k) s = direct k (f s)" "direct (Co_return l # k) s = Some s"
  by (subst direct.simps; simp)+

definition drives_to :: "'s stm \<Rightarrow> 's stm list \<Rightarrow> 's \<Rightarrow> 's \<Rightarrow> bool" where
  "drives_to p k s s' \<longleftrightarrow> (\<exists>n. do { cs \<leftarrow> run k s; drive n p cs } = Some (-1, s'))"

lemma drives_to_await:
  assumes "cont_of p (Await l f # k)" "well_labelled p" "drives_to p k (f s) s'"
  shows "drives_to p (Await l f # k) s s'"
proof -
  obtain n where "do { cs \<leftarrow> run k (f s); drive n p cs } = Some (-1, s')"
    using assms(3) by (auto simp: drives_to_def)
  then have "drive (Suc n) p (l, f s) = Some (-1, s')"
    using await_resumes [OF assms(1,2)] by simp
  then show ?thesis
    unfolding drives_to_def by (intro exI [of _ "Suc n"]) (simp del: drive.simps)
qed

lemma drives_to_step:
  "drives_to p [] s s' \<longleftrightarrow> s' = s" "drives_to p (Co_return l # k) s s' \<longleftrightarrow> s' = s"
  "drives_to p (Do f # k) s s' = drives_to p k (f s) s'" "drives_to p (Seq a b # k) s s' = drives_to p (a # b # k) s s'"
  "drives_to p (Cond c a b # k) s s' = drives_to p ((if c s then a else b) # k) s s'"
  "drives_to p (Loop c a # k) s s' = (if c s then drives_to p (a # Loop c a # k) s s' else drives_to p k s s')"
  by (auto simp: drives_to_def drive_done)

lemma direct_drives:
  "direct k s = Some s' \<Longrightarrow> well_labelled p \<longrightarrow> cont_of p k \<longrightarrow> drives_to p k s s'"
proof (induction rule: direct.raw_induct [rotated 1, consumes 1])
  case (1 direct k s s')
  show ?case
  proof (intro impI)
    assume wl: "well_labelled p" and k: "cont_of p k"
    have ih: "drives_to p k s s'" if "direct k s = Some s'" "cont_of p k" for k s s'
      using 1(1) [OF that(1)] wl that(2) by blast
    show "drives_to p k s s'"
    proof (cases k)
      case Nil
      then show ?thesis using 1(2) by (simp add: drives_to_step)
    next
      case (Cons c k')
      note k = k [unfolded Cons] and d = 1(2) [unfolded Cons]
      have k': "cont_of p k'" by (rule cont_of_steps(4) [OF k])
      show ?thesis
      proof (cases c)
        case (Cond b x y)
        then show ?thesis
          using d cont_of_steps(2) [OF k [unfolded Cond]] ih [of "(if b s then x else y) # k'" s s'] by (auto simp: Cons drives_to_step)
      next
        case (Loop b x)
        then show ?thesis
          using d cont_of_steps(3) [OF k [unfolded Loop]] k' ih [of "x # Loop b x # k'" s s'] ih [of k' s s']
          by (auto simp: Cons drives_to_step split: if_splits)
      next
        case (Await l f)
        then show ?thesis
          using d drives_to_await [OF _ wl, of l f k'] k k' ih [of k' "f s" s'] by (simp add: Cons)
      next
        case (Seq x y)
        then show ?thesis
          using d cont_of_steps(1) [OF k [unfolded Seq]] ih [of "x # y # k'" s s'] by (simp add: Cons drives_to_step)
      qed (use d k' ih in \<open>auto simp: Cons drives_to_step\<close>)
    qed
  qed
qed

section \<open>Properties\<close>

text \<open>
  C25. A coroutine block with distinct labels that would finish if it were executed straight through
  finishes when it is entered often enough, each time continuing after the \<open>await\<close> it was left
  at, with the same final context; from then on it is done and further entries change nothing.
\<close>

theorem coroutine_resumes:
  assumes "well_labelled block" and "direct [block] s = Some s'"
  shows "\<exists>n. \<forall>m \<ge> n. drive m block (CORO_INITIALIZER, s) = Some (-1, s')"
proof -
  obtain n where "do { cs \<leftarrow> run [block] s; drive n block cs } = Some (-1, s')"
    using direct_drives [OF assms(2), of block] assms(1) cont_of_block by (auto simp: drives_to_def)
  then have n: "drive (Suc n) block (CORO_INITIALIZER, s) = Some (-1, s')"
    by (simp add: async_def coro_is_done_def CORO_INITIALIZER_def)
  have "drive (Suc n + i) block (CORO_INITIALIZER, s) = Some (-1, s')" for i
    by (simp only: drive_add n) (simp add: drive_done)
  then show ?thesis
    by (metis le_Suc_ex)
qed

text \<open>A loop that awaits once per round, with a second await after it and an early return.\<close>

definition demo_block :: "nat stm" where
  "demo_block = Seq (Loop (\<lambda>n. n < 3) (Await 1 Suc)) (Seq (Cond (\<lambda>n. n = 7) (Co_return 2) (Do (\<lambda>n. n * 10))) (Await 3 Suc))"

theorem coroutine_resumes_witness:
  "\<exists>n. \<forall>m \<ge> n. drive m demo_block (CORO_INITIALIZER, 0) = Some (-1, 31)"
proof -
  have "well_labelled demo_block" "direct [demo_block] 0 = Some 31"
    by (simp_all add: well_labelled_def demo_block_def)
  then show ?thesis
    by (rule coroutine_resumes)
qed

end
