(* ===== verification/Spec2Isabelle.thy ===== *)
theory Spec2Isabelle
  imports Loop_History Loop_Fail Poll_Faults Tree_Faults Io_Semaphore Task_Group Async_Rdwr Net_Props Coroutine
begin

text \<open>
  \<^bold>\<open>IO-Engine: a single-threaded event loop in C.\<close>

  A program creates an \<open>io_service\<close>, gives it handlers (a function pointer and a context) and calls
  \<open>iosvc_run\<close>, which returns when no handler is left or after \<open>iosvc_stop\<close>. A handler runs as soon as
  possible (\<open>iosvc_post\<close>), after a delay (\<open>iosvc_post_delay\<close>), or when a descriptor is ready
  (\<open>iosvc_sched\<close>, with a time limit \<open>iosvc_sched_timeout\<close>); a pending event can be cancelled
  (\<open>iosvc_cancel\<close>). Semaphores, task groups, asynchronous transfers, sockets and coroutines are built on these
  operations. All files named below are under \<open>src/src\<close> and \<open>src/include\<close>.

  \<^bold>\<open>Reading the model.\<close> A C function that may run into undefined behaviour, or not return, is an
  \<open>option\<close>-valued function, and \<open>None\<close> stands for both: reading freed or missing memory, calling a null
  pointer, overflowing an \<open>int\<close>, looping forever. Every property that says what the code does therefore
  also says that it returns. Loops without a structural measure (\<open>probe_loop\<close>, \<open>fix_insert\<close>, \<open>fix_delete\<close>,
  the heap sifts, \<open>del_rb_node\<close>, \<open>stop_async_ops\<close>, \<open>run_sync_handlers\<close>, \<open>dispatch_from\<close>, \<open>run_loop\<close>) are partial functions in the option monad,
  so no fuel is chosen anywhere. Pointers are 64-bit words, \<open>NULL\<close> is \<open>0\<close>. The state of a program is
  the record \<open>world\<close> (theory \<open>Iosvc_Def\<close>): the fields of \<open>struct io_service\<close>, the memory behind the status
  and \<open>int\<close> pointers, and, as oracles consumed in call order, what \<open>malloc\<close>, \<open>clock_gettime\<close> and \<open>poll\<close>
  will return, with the log of the callbacks invoked. \<open>lib_world\<close> (theory \<open>Lib_World\<close>) adds the contexts of
  the modules built on the service and the results of \<open>read\<close>, \<open>write\<close>, \<open>accept\<close>, \<open>connect\<close>, \<open>fcntl\<close> and
  \<open>getsockopt\<close>. The code behind function pointers is the parameter \<open>call\<close> of the operations that invoke
  handlers; properties state what they need of it.

  \<^bold>\<open>Theories and sources.\<close>
  \<^item> \<open>Prelude\<close>: pointers, the cast to \<open>int\<close>, the \<open>size_t\<close> decrement, shared lemmas.
  \<^item> \<open>Dynarray\<close> (\<open>dynarray.c\<close>, \<open>dynarray.h\<close>), \<open>Cbuffer\<close> (\<open>cbuffer.c\<close>, \<open>cbuffer.h\<close>): the containers, with
    allocation failure. The locale \<open>vector\<close> states the array contract; \<open>fifo\<close> the queue contract, from which
    follows that any sequence of pushes and pops behaves as on a list.
  \<^item> \<open>Iotypes\<close> (\<open>iotypes.h\<close>, \<open>ioec_strerr.c\<close>), \<open>Rbnode\<close> (\<open>rbnode.h\<close>): the data types; the parent pointer and
    the colour share one word.
  \<^item> \<open>Heaputils\<close> (\<open>heaputils.c\<close>): heap sifts over the clients' callbacks; the locale \<open>heap_array\<close> is their
    contract and proves the sifts correct once. \<open>Heap_Entries\<close> (\<open>delay_heap_entry.c\<close>, \<open>async_heap_entry.c\<close>)
    interprets it for both heaps; \<open>Deadline_Heap\<close> proves insertion and removal of timed events.
  \<^item> \<open>Rbtree\<close> (\<open>rbtree.c\<close>): the tree on an explicit store. \<open>Rbtree_Rep\<close> relates a store to an abstract
    red-black tree with contexts, \<open>Rbtree_Insert\<close>, \<open>Rbtree_Delete\<close> and \<open>Rbtree_Extract\<close> verify the operations,
    \<open>Rbtree_Props\<close> states them as the finite map of the locale \<open>fd_map\<close>.
  \<^item> \<open>Iosvc_Def\<close> (\<open>iosvc_def.h\<close>, \<open>iosvc_cdtor.c\<close>), \<open>Iosvc_Post\<close> (\<open>iosvc_post.c\<close>), \<open>Iosvc_Sched\<close>
    (\<open>iosvc_sched.c\<close>), \<open>Iosvc_Dequeue\<close> (\<open>iosvc_dequeue.c\<close>, \<open>iosvc_cancel.c\<close>), \<open>Io_Service\<close> (\<open>io_service.c\<close>):
    the service's operations and its loop.
  \<^item> \<open>Svc_Inv\<close>: the invariant \<open>svc_inv\<close>. The tree holds one node per descriptor, every node's poll entry has the
    descriptor and exactly the flags of its pending events, the deadline heap is in order, and every
    timed event knows the position of its entry.
  \<^item> \<open>Sched_Props\<close>, \<open>Enqueue_Props\<close>, \<open>Enqueue_More\<close>, \<open>Dequeue_Props\<close>, \<open>Svc_Props\<close>, \<open>Timeout_Props\<close>,
    \<open>Cleanup_Props\<close>: registration, removal, deadlines and cancelling keep \<open>svc_inv\<close> and change exactly what was
    asked for, or report an error and change nothing. \<open>Tree_Faults\<close>: where they do not, stated for every tree of the
    shape concerned: two nodes become each other's child, a freed node stays in the tree, a removal leaves no red-black tree.
  \<^item> \<open>Loop_Sync\<close>, \<open>Loop_Timers\<close>: rounds of synchronous handlers, deadlines, expiry, the service's states.
  \<^item> \<open>Stop_Props\<close>, \<open>Run_Props\<close>: stopping calls every handler once, told \<open>EIO_STOPPED\<close>, and releases every node; deleting
    releases everything; whole runs of \<open>iosvc_run\<close> that end by \<open>iosvc_stop\<close> or because the delayed handlers are used up.
  \<^item> \<open>Dispatch_Props\<close>, \<open>Pass_Props\<close>: expiry of a timed event, dispatch of one descriptor, valid or not, a pass over the
    poll vector while entries are dropped and moved, and a round of the loop with the answer of \<open>poll\<close>. \<open>Loop_Run\<close>: runs of
    \<open>iosvc_run\<close> with queued handlers, delayed handlers and timed and untimed events on descriptors, which end after every one of
    their handlers has been called exactly once, because it was ready or because it expired; \<open>Loop_Fail\<close>: a run in which \<open>poll\<close> fails, which
    stops the service; \<open>Poll_Faults\<close>: what an unrequested hang-up does. \<open>History\<close>: all states reachable by the
    operations and the steps of the loop, \<open>poll\<close> with arbitrary reports among them, as an inductive predicate; the invariant holds in
    them and every allowed operation or step returns. \<open>Loop_History\<close>: \<open>run_round\<close> is a sequence of these steps and \<open>iosvc_run\<close> a
    sequence of rounds, so both return, in a reachable state, where their steps are allowed (and the rounds come to an end).
  \<^item> \<open>Io_Semaphore\<close> (\<open>io_semaphore.c\<close>) relies on the service through the locale \<open>poster\<close>; \<open>Task_Group\<close>
    (\<open>task_group.c\<close>); \<open>Async_Rdwr\<close> (\<open>async_rdwr.c\<close>), a refinement of an abstract transfer; \<open>Async_Net\<close>
    (\<open>async_net.c\<close>), with \<open>Net_Props\<close> for a connect on the service it is scheduled on; \<open>Coroutine\<close> (\<open>coroutine.h\<close>), the macros' control flow on blocks, equivalent to executing
    the block straight through.

  \<^bold>\<open>Bounds.\<close> \<open>size_t\<close> values are natural numbers except where the code relies on or meets their wrap-around:
  \<open>nelems - 1\<close> (\<open>size_dec\<close>), the counter of a task group and the lengths of transfers are 64-bit. Times are
  mathematical integers (\<open>int64_t\<close> milliseconds do not overflow in practice); casts of time differences to
  \<open>int\<close> truncate. \<open>poll\<close> flags are 16-bit words with the values of Linux. Deadlines are assumed
  nonnegative, as the code's use of \<open>-1\<close> for no deadline requires.

  \<^bold>\<open>Conditions the properties need.\<close> Some of the conditions in the theorems are not the caller's business but
  conditions under which the code is right: \<open>zigzag_at\<close> (a new node must not be attached on the inner
  side of a red node, because \<open>*place\<close> is written once more after the rebalancing), \<open>extract_safe\<close> (the
  predecessor that takes a removed node's place must not be a black left child without right child; with at most two
  descriptors it always holds), \<open>removable\<close> (the removals of one pass over the poll vector are safe, which is known where at most two
  descriptors are registered, or at most one of them is finished with and is \<open>extract_safe\<close>: a second removal meets a tree that the first has
  rebalanced; in a round of the loop, at most two descriptors or none finished with) and \<open>asked_only\<close> (\<open>poll\<close> must
  not report an event nobody waits for, which it does with \<open>POLLHUP\<close>; \<open>poll_answers\<close> extends it to all calls of a run and excludes
  failure, interruption and a lone \<open>POLLERR\<close>). The error returns of registration leave everything as it was except for the exception event of a
  descriptor without a node, which is excluded there: the node is freed and stays in the tree. \<open>Tree_Faults\<close> and \<open>Poll_Faults\<close> show
  what goes wrong without \<open>zigzag_at\<close>, \<open>extract_safe\<close>, that exclusion and \<open>asked_only\<close>. \<open>detached_in\<close>, \<open>inert\<close>, \<open>posting\<close> and
  \<open>stops_at\<close> describe what the callbacks of a property may do: nothing to the service, or only post, or stop it.

  \<^bold>\<open>Not modelled.\<close> The example programs under \<open>src/test\<close>. The memory of \<open>struct io_service\<close> itself: \<open>iosvc_create\<close> is told whether its
  \<open>malloc\<close> succeeds, and the final \<open>free(iosvc)\<close> of \<open>iosvc_delete\<close> has no counterpart. Of \<open>src/src\<close> and \<open>src/include\<close> every function, type and macro with
  executable code has a definition; what has none are include guards, prototypes and comments (\<open>io_service.h\<close>, \<open>async_rdwr.h\<close>,
  \<open>async_net.h\<close> and \<open>io_semaphore.h\<close> consist of them). The peer address \<open>accept\<close> writes and the address \<open>connect\<close> reads are
  passed through only. Concurrency is not present in the code. Callbacks that register or cancel events are covered as
  operations between the steps of the loop (\<open>History\<close>), not inside a pass over the poll vector, where the code uses a place
  in the tree that such a callback may have moved.
\<close>

end
